(* ===== verification/Prelude.thy ===== *)
theory Prelude
  imports Main "HOL-Library.Finite_Map" "HOL-Library.Code_Target_Numeral"
    "HOL-Library.Char_ord" "HOL-Library.List_Lexorder"
begin

text \<open>
  Shared vocabulary of the development.

  \<^item> A byte is a \<open>char\<close> (Isabelle characters are exactly the 256 byte values), a Rust
    \<open>&[u8]\<close>, \<open>Vec<u8>\<close>, \<open>BytesMut\<close> or \<open>String\<close> is a list of bytes.  \<open>String::len\<close> is
    therefore \<open>length\<close>: Rust counts bytes, not characters.
  \<^item> Every fallible operation returns an \<open>outcome\<close>: \<open>Ok\<close> and \<open>Err\<close> are the two constructors of
    Rust's \<open>Result\<close>, \<open>Panic\<close> is a panic of the executing task.  \<open>and_then\<close> is the \<open>?\<close> operator.
  \<^item> A \<open>usize\<close> is a natural number below \<open>2 ^ 64\<close>; the operations that can leave that range are
    \<open>add_usize\<close>, which panics or wraps as the build profile says.  An \<open>i32\<close> is an \<open>int\<close> in range,
    with the conversions \<open>wrap_i32\<close> and \<open>as_u64\<close> written out.
  \<^item> An \<open>Instant\<close> is a number of nanoseconds of the monotonic clock, a \<open>Duration\<close> a number of
    nanoseconds.
\<close>

named_theorems outcome_simps \<open>inversion of sequenced outcomes\<close>

section \<open>Bytes\<close>

type_synonym byte = char
type_synonym bytes = "byte list"

abbreviation CR :: byte where "CR \<equiv> CHR 0x0D"
abbreviation LF :: byte where "LF \<equiv> CHR 0x0A"
abbreviation CRLF :: bytes where "CRLF \<equiv> [CR, LF]"

abbreviation code :: "byte \<Rightarrow> nat" where "code b \<equiv> of_char b"

section \<open>Results and panics\<close>

datatype panic =
    IndexOutOfBounds
  | SliceOutOfRange
  | ArithmeticOverflow
  | CapacityOverflow
  | InstantOverflow
  | UnwrapOnErr
  | StackOverflow

datatype ('e, 'a) outcome = Ok 'a | Err 'e | Panic panic

fun and_then :: "('e, 'a) outcome \<Rightarrow> ('a \<Rightarrow> ('e, 'b) outcome) \<Rightarrow> ('e, 'b) outcome" where
  "and_then (Ok x) f = f x"
| "and_then (Err e) f = Err e"
| "and_then (Panic p) f = Panic p"

lemma and_then_cong [fundef_cong]:
  "m = m' \<Longrightarrow> (\<And>x. m' = Ok x \<Longrightarrow> f x = g x) \<Longrightarrow> and_then m f = and_then m' g"
  by (cases m') auto

lemma and_then_Ok_iff [outcome_simps]:
  "and_then m f = Ok y \<longleftrightarrow> (\<exists>x. m = Ok x \<and> f x = Ok y)"
  by (cases m) auto

lemma and_then_Err_iff [outcome_simps]:
  "and_then m f = Err e \<longleftrightarrow> m = Err e \<or> (\<exists>x. m = Ok x \<and> f x = Err e)"
  by (cases m) auto

lemma and_then_Panic_iff [outcome_simps]:
  "and_then m f = Panic p \<longleftrightarrow> m = Panic p \<or> (\<exists>x. m = Ok x \<and> f x = Panic p)"
  by (cases m) auto

definition panics :: "('e, 'a) outcome \<Rightarrow> bool" where
  "panics m = (case m of Panic p \<Rightarrow> True | _ \<Rightarrow> False)"

lemma panics_simps [simp]:
  "\<not> panics (Ok x)" "\<not> panics (Err e)" "panics (Panic p)"
  by (simp_all add: panics_def)

lemma panics_iff: "panics m \<longleftrightarrow> (\<exists>p. m = Panic p)"
  by (cases m) auto

lemma panics_and_then [simp]:
  "panics (and_then m f) \<longleftrightarrow> panics m \<or> (\<exists>x. m = Ok x \<and> panics (f x))"
  by (cases m) auto

text \<open>\<open>Option::ok_or\<close>, the way the sources turn a failed conversion into an error.\<close>

definition ok_or :: "'e \<Rightarrow> 'a option \<Rightarrow> ('e, 'a) outcome" where
  "ok_or e x = (case x of None \<Rightarrow> Err e | Some a \<Rightarrow> Ok a)"

lemma ok_or_simps [simp]:
  "ok_or e (Some a) = Ok a" "ok_or e None = Err e"
  "ok_or e x = Ok a \<longleftrightarrow> x = Some a"
  "ok_or e x = Err e' \<longleftrightarrow> x = None \<and> e' = e"
  "ok_or e x \<noteq> Panic p"
  by (auto simp: ok_or_def split: option.splits)

section \<open>Machine integers\<close>

text \<open>
  What the build and the machine decide: \<open>overflow_checks\<close> is on in cargo's dev profile and off in
  its release profile; \<open>vec_limit\<close> is the largest element count for which
  \<open>Vec::with_capacity\<close> succeeds.
\<close>

record config =
  overflow_checks :: bool
  vec_limit :: nat

definition usize_bound :: nat where "usize_bound = 2 ^ 64"

text \<open>Rust guarantees that no slice is longer than \<open>isize::MAX\<close> bytes.\<close>

definition isize_max :: nat where "isize_max = 2 ^ 63 - 1"

definition add_usize :: "config \<Rightarrow> nat \<Rightarrow> nat \<Rightarrow> ('e, nat) outcome" where
  "add_usize cfg a b =
     (if a + b < usize_bound then Ok (a + b)
      else if overflow_checks cfg then Panic ArithmeticOverflow
      else Ok ((a + b) mod usize_bound))"

lemma add_usize_exact [simp]: "a + b < usize_bound \<Longrightarrow> add_usize cfg a b = Ok (a + b)"
  by (simp add: add_usize_def)

definition i32_min :: int where "i32_min = - (2 ^ 31)"
definition i32_max :: int where "i32_max = 2 ^ 31 - 1"

definition in_i32 :: "int \<Rightarrow> bool" where
  "in_i32 x \<longleftrightarrow> i32_min \<le> x \<and> x \<le> i32_max"

text \<open>Two's complement truncation to 32 bits (\<open>as i32\<close>, and \<open>*\<close> or \<open>+\<close> without checks).\<close>

definition wrap_i32 :: "int \<Rightarrow> int" where
  "wrap_i32 x = (x + 2 ^ 31) mod 2 ^ 32 - 2 ^ 31"

text \<open>\<open>x as u64\<close> (and \<open>x as usize\<close>) for a signed \<open>x\<close>: sign extension, read as unsigned.\<close>

definition as_u64 :: "int \<Rightarrow> nat" where
  "as_u64 x = nat (x mod 2 ^ 64)"

lemma wrap_i32_id [simp]: "in_i32 x \<Longrightarrow> wrap_i32 x = x"
  by (simp add: wrap_i32_def in_i32_def i32_min_def i32_max_def)

lemma in_i32_wrap [simp]: "in_i32 (wrap_i32 x)"
proof -
  have "0 \<le> (x + 2 ^ 31) mod 2 ^ 32" and "(x + 2 ^ 31) mod 2 ^ 32 < 2 ^ 32"
    by (rule pos_mod_sign pos_mod_bound; simp)+
  then show ?thesis
    unfolding in_i32_def wrap_i32_def i32_min_def i32_max_def by simp
qed

lemma as_u64_nonneg: "in_i32 x \<Longrightarrow> 0 \<le> x \<Longrightarrow> as_u64 x = nat x"
  by (simp add: as_u64_def in_i32_def i32_max_def)

lemma as_u64_neg: "in_i32 x \<Longrightarrow> x < 0 \<Longrightarrow> as_u64 x = nat (x + 2 ^ 64)"
proof -
  assume x: "in_i32 x" "x < 0"
  have "x mod 2 ^ 64 = (x + 2 ^ 64) mod 2 ^ 64" by simp
  also have "\<dots> = x + 2 ^ 64"
    using x by (intro mod_pos_pos_trivial) (auto simp: in_i32_def i32_min_def)
  finally show ?thesis by (simp add: as_u64_def)
qed

lemma as_u64_less: "as_u64 x < 2 ^ 64"
proof -
  have "x mod 2 ^ 64 < 2 ^ 64" by (rule pos_mod_bound) simp
  then have "nat (x mod 2 ^ 64) < nat (2 ^ 64)"
    by (subst nat_less_eq_zless) simp_all
  then show ?thesis by (simp add: as_u64_def)
qed

section \<open>Time\<close>

type_synonym instant = nat
type_synonym duration = nat

text \<open>
  \<open>Instant\<close> holds its seconds in an \<open>i64\<close>; \<open>Instant + Duration\<close> panics when the sum does not
  fit (\<open>overflow when adding duration to instant\<close>).
\<close>

definition instant_bound :: nat where "instant_bound = 2 ^ 63 * 10 ^ 9"

definition from_millis :: "nat \<Rightarrow> duration" where "from_millis ms = ms * 10 ^ 6"

definition instant_add :: "instant \<Rightarrow> duration \<Rightarrow> ('e, instant) outcome" where
  "instant_add t d = (if t + d < instant_bound then Ok (t + d) else Panic InstantOverflow)"

section \<open>Slices\<close>

definition slice :: "'a list \<Rightarrow> nat \<Rightarrow> nat \<Rightarrow> ('e, 'a list) outcome" where
  "slice xs a b = (if a \<le> b \<and> b \<le> length xs then Ok (take (b - a) (drop a xs))
                   else Panic SliceOutOfRange)"

lemma slice_append:
  "b \<le> length xs \<Longrightarrow> slice (xs @ ys) a b = slice xs a b"
  by (auto simp: slice_def)

text \<open>\<open>v[i]\<close> on a vector or slice.\<close>

definition index :: "'a list \<Rightarrow> nat \<Rightarrow> ('e, 'a) outcome" where
  "index xs i = (if i < length xs then Ok (xs ! i) else Panic IndexOutOfBounds)"

lemma index_simps [simp]:
  "i < length xs \<Longrightarrow> index xs i = Ok (xs ! i)"
  "\<not> i < length xs \<Longrightarrow> index xs i = Panic IndexOutOfBounds"
  by (simp_all add: index_def)

lemma panics_index [simp]: "panics (index xs i) \<longleftrightarrow> \<not> i < length xs"
  by (simp add: index_def)

lemma index_Ok_iff: "index xs i = Ok x \<longleftrightarrow> i < length xs \<and> x = xs ! i"
  by (auto simp: index_def)

section \<open>Lists and finite maps\<close>

lemma take_drop_append_exact [simp]:
  "take (length ys) (drop (length xs) (xs @ ys @ zs)) = ys"
  by simp

text \<open>
  Iteration over a hash map visits every entry once, in an order the map's documentation leaves
  open: the order is a parameter of whatever iterates, a function from the map to its keys.
\<close>

type_synonym 'v iter_order = "(bytes, 'v) fmap \<Rightarrow> bytes list"

definition enumerates :: "'v iter_order \<Rightarrow> bool" where
  "enumerates ord \<longleftrightarrow> (\<forall>m. distinct (ord m) \<and> set (ord m) = fmdom' m)"

lemma enumeratesD:
  assumes "enumerates ord"
  shows "distinct (ord m)" and "set (ord m) = fmdom' m"
  using assms by (auto simp: enumerates_def)

text \<open>Iteration in key order is one such order.\<close>

definition key_order :: "'v iter_order" where
  "key_order m = sorted_list_of_fset (fmdom m)"

lemma key_order_enumerates: "enumerates key_order"
  by (simp add: enumerates_def key_order_def sorted_list_of_fset.rep_eq fmdom'_alt_def)

end
