(* ===== verification/Rust_Str.thy ===== *)
theory Rust_Str
  imports Prelude
begin

text \<open>
  The parts of Rust's standard library on \<open>str\<close> and integers that the sources call:
  \<open>str::from_utf8\<close>, \<open>String::from_utf8_lossy\<close>, \<open>to_ascii_uppercase\<close>, \<open>trim\<close>,
  \<open>split_whitespace\<close>, the integer \<open>FromStr\<close> instances and decimal \<open>Display\<close>.  A Rust \<open>String\<close>
  is the list of its UTF-8 bytes; \<open>utf8_valid\<close> is the invariant every \<open>String\<close> has.
\<close>

section \<open>UTF-8\<close>

text \<open>
  Width of the sequence a leading byte opens; 0 for a byte that opens none.
\<close>

definition utf8_width :: "byte \<Rightarrow> nat" where
  "utf8_width b =
     (if code b < 0x80 then 1
      else if 0xC2 \<le> code b \<and> code b \<le> 0xDF then 2
      else if 0xE0 \<le> code b \<and> code b \<le> 0xEF then 3
      else if 0xF0 \<le> code b \<and> code b \<le> 0xF4 then 4
      else 0)"

definition utf8_cont :: "byte \<Rightarrow> bool" where
  "utf8_cont b \<longleftrightarrow> 0x80 \<le> code b \<and> code b \<le> 0xBF"

text \<open>
  The second byte is restricted further after \<open>E0\<close>, \<open>ED\<close>, \<open>F0\<close> and \<open>F4\<close> (no overlong
  forms, no surrogates, nothing above U+10FFFF).
\<close>

definition utf8_second :: "byte \<Rightarrow> byte \<Rightarrow> bool" where
  "utf8_second b0 b1 \<longleftrightarrow> utf8_cont b1 \<and>
     (code b0 = 0xE0 \<longrightarrow> 0xA0 \<le> code b1) \<and> (code b0 = 0xED \<longrightarrow> code b1 \<le> 0x9F) \<and>
     (code b0 = 0xF0 \<longrightarrow> 0x90 \<le> code b1) \<and> (code b0 = 0xF4 \<longrightarrow> code b1 \<le> 0x8F)"

text \<open>The trailing bytes of a sequence opened by \<open>b\<close>.\<close>

fun utf8_tail_ok :: "byte \<Rightarrow> bytes \<Rightarrow> bool" where
  "utf8_tail_ok b [] = True"
| "utf8_tail_ok b (c # cs) \<longleftrightarrow> utf8_second b c \<and> list_all utf8_cont cs"

text \<open>The first character of a byte string and what follows it, if it starts with a character.\<close>

fun utf8_next :: "bytes \<Rightarrow> (bytes \<times> bytes) option" where
  "utf8_next [] = None"
| "utf8_next (b # bs) =
     (let n = utf8_width b - 1 in
      if utf8_width b \<noteq> 0 \<and> n \<le> length bs \<and> utf8_tail_ok b (take n bs)
      then Some (b # take n bs, drop n bs) else None)"

lemma utf8_next_append: "utf8_next s = Some (c, r) \<Longrightarrow> s = c @ r \<and> c \<noteq> []"
  by (cases s) (auto simp: Let_def split: if_splits)

lemma utf8_next_less: "utf8_next s = Some (c, r) \<Longrightarrow> length r < length s"
  using utf8_next_append [of s c r] by (cases c) auto

lemma utf8_next_extend: "utf8_next s = Some (c, r) \<Longrightarrow> utf8_next (s @ t) = Some (c, r @ t)"
  by (cases s) (auto simp: Let_def split: if_splits)

lemma utf8_next_ascii: "code b < 0x80 \<Longrightarrow> utf8_next (b # s) = Some ([b], s)"
  by (simp add: utf8_width_def)

declare utf8_next.simps(2) [simp del]

function utf8_valid :: "bytes \<Rightarrow> bool" where
  "utf8_valid s = (case utf8_next s of None \<Rightarrow> s = [] | Some (c, r) \<Rightarrow> utf8_valid r)"
  by pat_completeness auto
termination
  by (relation "measure length") (auto dest: utf8_next_less)

declare utf8_valid.simps [simp del]

text \<open>\<open>str::from_utf8\<close>; the error value is discarded by every caller.\<close>

definition from_utf8 :: "bytes \<Rightarrow> bytes option" where
  "from_utf8 s = (if utf8_valid s then Some s else None)"

lemma from_utf8_Some [simp]: "from_utf8 s = Some t \<longleftrightarrow> utf8_valid s \<and> t = s"
  by (auto simp: from_utf8_def)

lemma from_utf8_None [simp]: "from_utf8 s = None \<longleftrightarrow> \<not> utf8_valid s"
  by (simp add: from_utf8_def)

lemma from_utf8_simps [simp]:
  "utf8_valid s \<Longrightarrow> from_utf8 s = Some s" "\<not> utf8_valid s \<Longrightarrow> from_utf8 s = None"
  by simp_all

lemma utf8_valid_Nil [simp]: "utf8_valid []"
  by (simp add: utf8_valid.simps)

lemma utf8_valid_append: "utf8_valid s \<Longrightarrow> utf8_valid (s @ t) = utf8_valid t"
proof (induction s rule: utf8_valid.induct)
  case (1 s)
  show ?case
  proof (cases "utf8_next s")
    case None
    with "1.prems" show ?thesis by (simp add: utf8_valid.simps [of s])
  next
    case (Some cr)
    then obtain c r where cr: "utf8_next s = Some (c, r)" by (cases cr) auto
    with "1.prems" have "utf8_valid r" by (simp add: utf8_valid.simps [of s])
    with "1.IH" [OF cr] have "utf8_valid (r @ t) = utf8_valid t" by simp
    with utf8_next_extend [OF cr, of t] show ?thesis
      by (simp add: utf8_valid.simps [of "s @ t"])
  qed
qed

definition is_ascii :: "byte \<Rightarrow> bool" where "is_ascii b \<longleftrightarrow> code b < 0x80"

lemma utf8_valid_Cons_ascii: "is_ascii b \<Longrightarrow> utf8_valid (b # s) = utf8_valid s"
  by (subst utf8_valid.simps) (simp add: is_ascii_def utf8_next_ascii)

lemma ascii_utf8_valid: "list_all is_ascii s \<Longrightarrow> utf8_valid s"
  by (induction s) (auto simp: utf8_valid_Cons_ascii)

text \<open>
  \<open>String::from_utf8_lossy\<close>: every maximal invalid piece becomes one U+FFFD.  The piece is the
  leading byte and the continuation bytes that fit it.
\<close>

definition replacement :: bytes where "replacement = [CHR 0xEF, CHR 0xBF, CHR 0xBD]"

fun invalid_len :: "bytes \<Rightarrow> nat" where
  "invalid_len [] = 0"
| "invalid_len [b] = 1"
| "invalid_len (b # c # cs) =
     (if 2 \<le> utf8_width b \<and> utf8_second b c
      then 2 + length (takeWhile utf8_cont (take (utf8_width b - 2) cs)) else 1)"

function from_utf8_lossy :: "bytes \<Rightarrow> bytes" where
  "from_utf8_lossy s =
     (case utf8_next s of
        Some (c, r) \<Rightarrow> c @ from_utf8_lossy r
      | None \<Rightarrow> if s = [] then []
               else replacement @ from_utf8_lossy (drop (invalid_len s) s))"
  by pat_completeness auto
termination
proof (relation "measure length")
  fix s :: bytes assume "s \<noteq> []"
  then have "0 < invalid_len s" by (cases s rule: invalid_len.cases) auto
  with \<open>s \<noteq> []\<close> show "(drop (invalid_len s) s, s) \<in> measure length" by simp
qed (auto dest: utf8_next_less)

declare from_utf8_lossy.simps [simp del]

lemma from_utf8_lossy_valid [simp]: "utf8_valid s \<Longrightarrow> from_utf8_lossy s = s"
proof (induction s rule: utf8_valid.induct)
  case (1 s)
  show ?case
  proof (cases "utf8_next s")
    case None
    with "1.prems" have "s = []" by (simp add: utf8_valid.simps [of s])
    then show ?thesis by (subst from_utf8_lossy.simps) simp
  next
    case (Some cr)
    then obtain c r where cr: "utf8_next s = Some (c, r)" by (cases cr) auto
    with "1.prems" have "utf8_valid r" by (simp add: utf8_valid.simps [of s])
    with "1.IH" [OF cr] cr show ?thesis
      using utf8_next_append [OF cr] by (subst from_utf8_lossy.simps) simp
  qed
qed

lemma utf8_next_valid: "utf8_next s = Some (c, r) \<Longrightarrow> utf8_valid c"
  by (cases s)
    (auto simp: Let_def utf8_next.simps(2) utf8_valid.simps [of c] min_absorb2 split: if_splits)

lemma from_utf8_lossy_is_valid: "utf8_valid (from_utf8_lossy s)"
proof (induction s rule: from_utf8_lossy.induct)
  case (1 s)
  have rep: "utf8_valid replacement"
    by (subst utf8_valid.simps)
      (simp add: replacement_def utf8_next.simps(2) utf8_width_def utf8_second_def utf8_cont_def)
  show ?case
    using 1 rep
    by (subst from_utf8_lossy.simps)
      (auto simp: utf8_valid_append utf8_next_valid split: option.splits)
qed

section \<open>Characters, white space\<close>

text \<open>The characters of a string, each as its bytes.\<close>

function chars :: "bytes \<Rightarrow> bytes list" where
  "chars s =
     (case utf8_next s of
        Some (c, r) \<Rightarrow> c # chars r
      | None \<Rightarrow> (case s of [] \<Rightarrow> [] | b # bs \<Rightarrow> [b] # chars bs))"
  by pat_completeness auto
termination
  by (relation "measure length") (auto dest: utf8_next_less)

declare chars.simps [simp del]

lemma concat_chars [simp]: "concat (chars s) = s"
proof (induction s rule: chars.induct)
  case (1 s)
  then show ?case
    by (subst chars.simps) (auto split: option.splits list.splits dest: utf8_next_append)
qed

fun code_point :: "bytes \<Rightarrow> nat" where
  "code_point [a] = code a"
| "code_point [a, b] = (code a - 0xC0) * 64 + (code b - 0x80)"
| "code_point [a, b, c] = (code a - 0xE0) * 4096 + (code b - 0x80) * 64 + (code c - 0x80)"
| "code_point [a, b, c, d] =
     (code a - 0xF0) * 262144 + (code b - 0x80) * 4096 + (code c - 0x80) * 64 + (code d - 0x80)"
| "code_point _ = 0"

text \<open>\<open>char::is_whitespace\<close>: the Unicode property \<open>White_Space\<close>.\<close>

definition is_whitespace :: "bytes \<Rightarrow> bool" where
  "is_whitespace c =
     (let n = code_point c in
      (0x09 \<le> n \<and> n \<le> 0x0D) \<or> n = 0x20 \<or> n = 0x85 \<or> n = 0xA0 \<or> n = 0x1680 \<or>
      (0x2000 \<le> n \<and> n \<le> 0x200A) \<or> n = 0x2028 \<or> n = 0x2029 \<or> n = 0x202F \<or> n = 0x205F \<or>
      n = 0x3000)"

definition trim :: "bytes \<Rightarrow> bytes" where
  "trim s = concat (rev (dropWhile is_whitespace (rev (dropWhile is_whitespace (chars s)))))"

text \<open>\<open>str::split_whitespace\<close>: the maximal runs of characters that are not white space.\<close>

function words :: "bytes list \<Rightarrow> bytes list" where
  "words cs =
     (let cs' = dropWhile is_whitespace cs in
      if cs' = [] then []
      else concat (takeWhile (\<lambda>c. \<not> is_whitespace c) cs')
             # words (dropWhile (\<lambda>c. \<not> is_whitespace c) cs'))"
  by pat_completeness auto
termination
proof (relation "measure length")
  fix cs cs' :: "bytes list"
  assume cs': "cs' = dropWhile is_whitespace cs" "cs' \<noteq> []"
  then have "\<not> is_whitespace (hd cs')" by (simp add: hd_dropWhile)
  with cs'(2) have "length (dropWhile (\<lambda>c. \<not> is_whitespace c) cs') < length cs'"
    by (cases cs') (auto simp: le_imp_less_Suc length_dropWhile_le)
  also have "\<dots> \<le> length cs" by (simp add: cs'(1) length_dropWhile_le)
  finally show "(dropWhile (\<lambda>c. \<not> is_whitespace c) cs', cs) \<in> measure length" by simp
qed simp

declare words.simps [simp del]

definition split_whitespace :: "bytes \<Rightarrow> bytes list" where
  "split_whitespace s = words (chars s)"

definition ascii_upper :: "byte \<Rightarrow> byte" where
  "ascii_upper b = (if 97 \<le> code b \<and> code b \<le> 122 then char_of (code b - 32) else b)"

definition to_ascii_uppercase :: "bytes \<Rightarrow> bytes" where
  "to_ascii_uppercase s = map ascii_upper s"

section \<open>Decimal integers\<close>

definition is_digit :: "byte \<Rightarrow> bool" where
  "is_digit b \<longleftrightarrow> 48 \<le> code b \<and> code b \<le> 57"

definition digits_value :: "nat \<Rightarrow> bytes \<Rightarrow> nat" where
  "digits_value v ds = foldl (\<lambda>v b. v * 10 + (code b - 48)) v ds"

definition parse_digits :: "bytes \<Rightarrow> nat option" where
  "parse_digits ds = (if ds \<noteq> [] \<and> list_all is_digit ds then Some (digits_value 0 ds) else None)"

text \<open>
  The \<open>FromStr\<close> instances of the integer types: an optional sign (\<open>-\<close> only for signed types), at
  least one digit, and a value the type can hold; anything else is an error.  The range check on
  the whole value agrees with the library's digit-by-digit overflow check, since the partial
  values only grow in magnitude.
\<close>

definition parse_unsigned :: "nat \<Rightarrow> bytes \<Rightarrow> nat option" where
  "parse_unsigned hi s =
     (let ds = (case s of b # bs \<Rightarrow> if b = CHR ''+'' then bs else s | [] \<Rightarrow> s) in
      case parse_digits ds of None \<Rightarrow> None | Some v \<Rightarrow> if v \<le> hi then Some v else None)"

definition parse_signed :: "int \<Rightarrow> int \<Rightarrow> bytes \<Rightarrow> int option" where
  "parse_signed lo hi s =
     (let neg = (case s of b # _ \<Rightarrow> b = CHR ''-'' | [] \<Rightarrow> False);
          ds = (case s of b # bs \<Rightarrow> if b = CHR ''+'' \<or> b = CHR ''-'' then bs else s | [] \<Rightarrow> s) in
      case parse_digits ds of
        None \<Rightarrow> None
      | Some v \<Rightarrow> (let x = (if neg then - int v else int v) in
                 if lo \<le> x \<and> x \<le> hi then Some x else None))"

definition parse_usize :: "bytes \<Rightarrow> nat option" where
  "parse_usize = parse_unsigned (2 ^ 64 - 1)"

definition parse_u16 :: "bytes \<Rightarrow> nat option" where
  "parse_u16 = parse_unsigned (2 ^ 16 - 1)"

definition parse_i64 :: "bytes \<Rightarrow> int option" where
  "parse_i64 = parse_signed (- (2 ^ 63)) (2 ^ 63 - 1)"

definition parse_i32 :: "bytes \<Rightarrow> int option" where
  "parse_i32 = parse_signed i32_min i32_max"

text \<open>\<open>Display\<close> of the integer types.\<close>

fun format_nat :: "nat \<Rightarrow> bytes" where
  "format_nat n = (if n < 10 then [char_of (48 + n)]
                   else format_nat (n div 10) @ [char_of (48 + n mod 10)])"

declare format_nat.simps [simp del]

definition format_int :: "int \<Rightarrow> bytes" where
  "format_int z = (if z < 0 then CHR ''-'' # format_nat (nat (- z)) else format_nat (nat z))"

subsection \<open>Printing and parsing agree\<close>

lemma code_digit: "d < 10 \<Longrightarrow> code (char_of (48 + d)) = 48 + d"
  by simp

lemma format_nat_digits: "list_all is_digit (format_nat n)"
proof (induction n rule: format_nat.induct)
  case (1 n)
  have digit: "is_digit (char_of (48 + d))" if "d < 10" for d :: nat
    using that by (simp add: is_digit_def)
  show ?case
    using 1 by (subst format_nat.simps) (auto intro: digit)
qed

lemma format_nat_not_Nil [simp]: "format_nat n \<noteq> []"
  by (subst format_nat.simps) simp

lemma digits_value_snoc: "digits_value v (ds @ [b]) = digits_value v ds * 10 + (code b - 48)"
  by (simp add: digits_value_def)

lemma digits_value_format: "digits_value 0 (format_nat n) = n"
proof (induction n rule: format_nat.induct)
  case (1 n)
  have "n mod 10 < 10" by simp
  with 1 show ?case
    by (subst format_nat.simps) (auto simp: digits_value_snoc, simp add: digits_value_def)
qed

lemma parse_digits_format: "parse_digits (format_nat n) = Some n"
  by (simp add: parse_digits_def format_nat_digits digits_value_format)

lemma is_digit_ascii: "is_digit b \<Longrightarrow> is_ascii b"
  by (simp add: is_digit_def is_ascii_def)

lemma digit_not_special [simp]:
  "is_digit b \<Longrightarrow> b \<noteq> CHR ''+''" "is_digit b \<Longrightarrow> b \<noteq> CHR ''-''"
  "is_digit b \<Longrightarrow> b \<noteq> CR" "is_digit b \<Longrightarrow> b \<noteq> LF"
  by (auto simp: is_digit_def)

lemma format_nat_Cons: "\<exists>b bs. format_nat n = b # bs \<and> is_digit b"
  using format_nat_digits [of n] by (cases "format_nat n") auto

lemma parse_unsigned_format: "n \<le> hi \<Longrightarrow> parse_unsigned hi (format_nat n) = Some n"
  using format_nat_Cons [of n] parse_digits_format [of n]
  by (auto simp: parse_unsigned_def Let_def)

lemma parse_usize_format [simp]: "n < 2 ^ 64 \<Longrightarrow> parse_usize (format_nat n) = Some n"
  by (simp add: parse_usize_def parse_unsigned_format)

lemma parse_signed_format:
  "lo \<le> z \<Longrightarrow> z \<le> hi \<Longrightarrow> parse_signed lo hi (format_int z) = Some z"
  using format_nat_Cons [of "nat z"] parse_digits_format [of "nat z"]
    parse_digits_format [of "nat (- z)"]
  by (auto simp: parse_signed_def format_int_def Let_def)

lemma parse_i64_format: "- (2 ^ 63) \<le> z \<Longrightarrow> z \<le> 2 ^ 63 - 1 \<Longrightarrow> parse_i64 (format_int z) = Some z"
  by (simp add: parse_i64_def parse_signed_format)

lemma parse_signed_range: "parse_signed lo hi s = Some z \<Longrightarrow> lo \<le> z \<and> z \<le> hi"
  by (auto simp: parse_signed_def Let_def split: option.splits if_splits)

lemma parse_i64_range: "parse_i64 s = Some z \<Longrightarrow> - (2 ^ 63) \<le> z \<and> z \<le> 2 ^ 63 - 1"
  unfolding parse_i64_def by (rule parse_signed_range)

lemma parse_i32_range: "parse_i32 s = Some z \<Longrightarrow> in_i32 z"
  unfolding parse_i32_def in_i32_def by (rule parse_signed_range)

lemma parse_unsigned_range: "parse_unsigned hi s = Some n \<Longrightarrow> n \<le> hi"
  by (auto simp: parse_unsigned_def Let_def split: option.splits if_splits)

lemma parse_usize_range: "parse_usize s = Some n \<Longrightarrow> n < usize_bound"
  by (auto simp: parse_usize_def usize_bound_def dest!: parse_unsigned_range)

lemma format_int_chars: "list_all (\<lambda>b. is_digit b \<or> b = CHR ''-'') (format_int z)"
  using format_nat_digits by (auto simp: format_int_def list_all_iff)

lemma format_int_ascii: "list_all is_ascii (format_int z)"
  using format_int_chars [of z] by (auto simp: list_all_iff is_digit_ascii is_ascii_def is_digit_def)

lemma format_nat_ascii: "list_all is_ascii (format_nat n)"
  using format_nat_digits [of n] by (auto simp: list_all_iff is_digit_ascii)

lemma format_int_utf8 [simp]: "utf8_valid (format_int z)"
  by (rule ascii_utf8_valid) (rule format_int_ascii)

lemma format_nat_utf8 [simp]: "utf8_valid (format_nat n)"
  by (rule ascii_utf8_valid) (rule format_nat_ascii)

subsection \<open>Words of valid strings are valid\<close>

lemma utf8_valid_concat: "list_all utf8_valid cs \<Longrightarrow> utf8_valid (concat cs)"
  by (induction cs) (auto simp: utf8_valid_append)

lemma chars_valid: "utf8_valid s \<Longrightarrow> list_all utf8_valid (chars s)"
proof (induction s rule: utf8_valid.induct)
  case (1 s)
  then show ?case
    by (subst chars.simps)
      (auto simp: utf8_valid.simps [of s] utf8_next_valid split: option.splits list.splits)
qed

lemma list_all_takeWhile_dropWhile:
  "list_all P xs \<Longrightarrow> list_all P (takeWhile Q xs)" "list_all P xs \<Longrightarrow> list_all P (dropWhile Q xs)"
  by (auto simp: list_all_iff dest: set_takeWhileD set_dropWhileD)

lemma words_valid: "list_all utf8_valid cs \<Longrightarrow> list_all utf8_valid (words cs)"
proof (induction cs rule: words.induct)
  case (1 cs)
  then show ?case
    by (subst words.simps)
      (auto simp: Let_def intro!: utf8_valid_concat list_all_takeWhile_dropWhile)
qed

lemma split_whitespace_valid:
  "utf8_valid s \<Longrightarrow> w \<in> set (split_whitespace s) \<Longrightarrow> utf8_valid w"
  using words_valid [OF chars_valid] by (auto simp: split_whitespace_def list_all_iff)

end
