(* ===== verification/Resp_Types.thy ===== *)
theory Resp_Types
  imports Rust_Str "HOL-Library.Sublist"
begin

text \<open>
  \<open>src/resp/types.rs\<close>: the RESP values, the reference serialiser \<open>to_string\<close> and the serialiser
  \<open>write_to\<close> of the hot path, which writes piecewise into an \<open>AsyncWrite\<close> and takes shortcuts for
  frequent replies.  The writer is a parameter: \<open>write_all\<close> acts on any writer state and may fail;
  the locale \<open>async_write\<close> states what its documentation promises.  The decimal formatter of the
  \<open>itoa\<close> crate is a parameter too.
\<close>

section \<open>RespType\<close>

datatype RespType =
    SimpleString bytes
  | SimpleError bytes
  | Integer int
  | BulkString bytes
  | Array "RespType list"
  | Null
  | Boolean bool

definition RESP_OK :: bytes where "RESP_OK = ''+Ok'' @ CRLF"
definition RESP_PONG :: bytes where "RESP_PONG = ''+Pong'' @ CRLF"
definition RESP_NIL :: bytes where "RESP_NIL = ''$3'' @ CRLF @ ''nil'' @ CRLF"
definition RESP_QUEUED :: bytes where "RESP_QUEUED = ''+QUEUED'' @ CRLF"
definition RESP_CRLF :: bytes where "RESP_CRLF = CRLF"

fun to_string :: "RespType \<Rightarrow> bytes" where
  "to_string (SimpleString ss) = ''+'' @ ss @ CRLF"
| "to_string (Integer i) = '':'' @ format_int i @ CRLF"
| "to_string (BulkString bs) = ''$'' @ format_nat (length bs) @ CRLF @ bs @ CRLF"
| "to_string (Array arr) = ''*'' @ format_nat (length arr) @ CRLF @ concat (map to_string arr)"
| "to_string Null = ''_'' @ CRLF"
| "to_string (Boolean b) = ''#'' @ (if b then ''t'' else ''f'') @ CRLF"
| "to_string (SimpleError se) = ''-'' @ se @ CRLF"

definition to_bytes :: "RespType \<Rightarrow> bytes" where
  "to_bytes r = to_string r"

section \<open>Writing to an asynchronous writer\<close>

type_synonym 'w write_op = "'w \<Rightarrow> (bytes, unit) outcome \<times> 'w"

text \<open>Sequencing with \<open>?\<close>: an error or a panic stops, the writer keeps what happened so far.\<close>

definition write_seq :: "'w write_op \<Rightarrow> 'w write_op \<Rightarrow> 'w write_op" where
  "write_seq f g w = (case f w of (Ok u, w') \<Rightarrow> g w' | (Err e, w') \<Rightarrow> (Err e, w')
                                | (Panic p, w') \<Rightarrow> (Panic p, w'))"

fun write_chunks :: "(bytes \<Rightarrow> 'w write_op) \<Rightarrow> bytes list \<Rightarrow> 'w write_op" where
  "write_chunks write_all [] w = (Ok (), w)"
| "write_chunks write_all [b] w = write_all b w"
| "write_chunks write_all (b # bs) w = write_seq (write_all b) (write_chunks write_all bs) w"

fun write_to :: "(bytes \<Rightarrow> 'w write_op) \<Rightarrow> (int \<Rightarrow> bytes) \<Rightarrow> RespType \<Rightarrow> 'w write_op"
  and write_items :: "(bytes \<Rightarrow> 'w write_op) \<Rightarrow> (int \<Rightarrow> bytes) \<Rightarrow> RespType list \<Rightarrow> 'w write_op" where
  "write_to write_all itoa (SimpleString ss) w =
     (if ss = ''Ok'' then write_all RESP_OK w
      else if ss = ''Pong'' then write_all RESP_PONG w
      else if ss = ''QUEUED'' then write_all RESP_QUEUED w
      else write_chunks write_all [''+'', ss, RESP_CRLF] w)"
| "write_to write_all itoa (SimpleError se) w = write_chunks write_all [''-'', se, RESP_CRLF] w"
| "write_to write_all itoa (Integer n) w = write_chunks write_all ['':'', itoa n, RESP_CRLF] w"
| "write_to write_all itoa (BulkString bs) w =
     (if bs = ''nil'' then write_all RESP_NIL w
      else write_chunks write_all
             [''$'', itoa (int (length bs)), RESP_CRLF, bs, RESP_CRLF] w)"
| "write_to write_all itoa (Array arr) w =
     write_seq (write_chunks write_all [''*'', itoa (int (length arr)), RESP_CRLF])
       (write_items write_all itoa arr) w"
| "write_to write_all itoa Null w = write_all (''_'' @ CRLF) w"
| "write_to write_all itoa (Boolean b) w =
     (if b then write_all (''#t'' @ CRLF) w else write_all (''#f'' @ CRLF) w)"
| "write_items write_all itoa [] w = (Ok (), w)"
| "write_items write_all itoa (item # arr) w =
     write_seq (write_to write_all itoa item) (write_items write_all itoa arr) w"

text \<open>Documented behaviour of \<open>itoa::Buffer::format\<close>: the decimal digits \<open>Display\<close> prints.\<close>

definition itoa_spec :: "(int \<Rightarrow> bytes) \<Rightarrow> bool" where
  "itoa_spec itoa \<longleftrightarrow> (\<forall>z. itoa z = format_int z)"

lemma itoa_specD: "itoa_spec itoa \<Longrightarrow> itoa z = format_int z"
  by (simp add: itoa_spec_def)

lemma format_int_nat [simp]: "format_int (int n) = format_nat n"
  by (simp add: format_int_def)

section \<open>The contract of a writer\<close>

text \<open>
  \<open>AsyncWriteExt::write_all\<close>: on success the whole slice has been accepted, on failure some prefix
  of it has.  \<open>accepted\<close> reads off a writer everything it has accepted so far.
\<close>

definition appends :: "('w \<Rightarrow> bytes) \<Rightarrow> 'w write_op \<Rightarrow> bytes \<Rightarrow> bool" where
  "appends accepted f bs \<longleftrightarrow>
     (\<forall>w. case f w of (Ok u, w') \<Rightarrow> accepted w' = accepted w @ bs
        | (Err e, w') \<Rightarrow> (\<exists>p. prefix p bs \<and> accepted w' = accepted w @ p)
        | (Panic p, w') \<Rightarrow> False)"

locale async_write =
  fixes write_all :: "bytes \<Rightarrow> 'w write_op"
    and accepted :: "'w \<Rightarrow> bytes"
  assumes write_all_appends: "appends accepted (write_all b) b"
begin

lemma write_seq_appends:
  assumes "appends accepted f a" and "appends accepted g b"
  shows "appends accepted (write_seq f g) (a @ b)"
  unfolding appends_def
proof
  fix w
  show "case write_seq f g w of
      (Ok u, w') \<Rightarrow> accepted w' = accepted w @ a @ b
    | (Err e, w') \<Rightarrow> \<exists>p. prefix p (a @ b) \<and> accepted w' = accepted w @ p
    | (Panic p, w') \<Rightarrow> False"
  proof (cases "f w")
    case (Pair r w1)
    with assms(1) have f: "case r of Ok u \<Rightarrow> accepted w1 = accepted w @ a
      | Err e \<Rightarrow> \<exists>p. prefix p a \<and> accepted w1 = accepted w @ p | Panic p \<Rightarrow> False"
      by (auto simp: appends_def split: outcome.splits dest!: spec [of _ w])
    from assms(2) have g: "case g w1 of (Ok u, w') \<Rightarrow> accepted w' = accepted w1 @ b
      | (Err e, w') \<Rightarrow> \<exists>p. prefix p b \<and> accepted w' = accepted w1 @ p | (Panic p, w') \<Rightarrow> False"
      by (simp add: appends_def)
    show ?thesis
      using f g Pair
      by (auto simp: write_seq_def split: outcome.splits prod.splits)
  qed
qed

lemma write_chunks_appends: "appends accepted (write_chunks write_all bs) (concat bs)"
proof (induction bs rule: induct_list012)
  case 1
  then show ?case by (simp add: appends_def)
next
  case (2 b)
  have "write_chunks write_all [b] = write_all b" by (rule ext) simp
  with write_all_appends [of b] show ?case by simp
next
  case (3 b c bs)
  have "write_chunks write_all (b # c # bs) = write_seq (write_all b) (write_chunks write_all (c # bs))"
    by (rule ext) simp
  with write_seq_appends [OF write_all_appends "3.IH"(2), of b] show ?case by simp
qed

lemma write_items_appends:
  assumes "\<And>r. r \<in> set rs \<Longrightarrow> appends accepted (write_to write_all itoa r) (to_string r)"
  shows "appends accepted (write_items write_all itoa rs) (concat (map to_string rs))"
  using assms
proof (induction rs)
  case Nil
  then show ?case by (simp add: appends_def)
next
  case (Cons r rs)
  have "write_items write_all itoa (r # rs) =
      write_seq (write_to write_all itoa r) (write_items write_all itoa rs)"
    by (rule ext) simp
  with Cons write_seq_appends show ?case by simp
qed

lemma appends_cong: "(\<And>w. f w = g w) \<Longrightarrow> appends accepted g bs \<Longrightarrow> appends accepted f bs"
  by (simp add: appends_def)

lemma write_to_format_appends:
  "appends accepted (write_to write_all format_int r) (to_string r)"
proof (induction r)
  case (SimpleString s)
  have "write_to write_all format_int (SimpleString s) =
      (if s = ''Ok'' then write_all RESP_OK else if s = ''Pong'' then write_all RESP_PONG
       else if s = ''QUEUED'' then write_all RESP_QUEUED
       else write_chunks write_all [''+'', s, RESP_CRLF])"
    by (rule ext) simp
  moreover note write_all_appends [of RESP_OK] write_all_appends [of RESP_PONG]
    write_all_appends [of RESP_QUEUED] write_chunks_appends [of "[''+'', s, RESP_CRLF]"]
  ultimately show ?case
    by (simp add: RESP_OK_def RESP_PONG_def RESP_QUEUED_def RESP_CRLF_def del: write_to.simps)
next
  case (BulkString s)
  have "write_to write_all format_int (BulkString s) =
      (if s = ''nil'' then write_all RESP_NIL
       else write_chunks write_all [''$'', format_int (int (length s)), RESP_CRLF, s, RESP_CRLF])"
    by (rule ext) simp
  moreover note write_all_appends [of RESP_NIL]
    write_chunks_appends [of "[''$'', format_int (int (length s)), RESP_CRLF, s, RESP_CRLF]"]
  moreover have "format_nat (length ''nil'') = ''3''" by code_simp
  ultimately show ?case
    by (simp add: RESP_NIL_def RESP_CRLF_def del: write_to.simps)
next
  case (Array rs)
  have "appends accepted (write_seq (write_chunks write_all [''*'', format_int (int (length rs)), RESP_CRLF])
      (write_items write_all format_int rs))
      (concat [''*'', format_int (int (length rs)), RESP_CRLF] @ concat (map to_string rs))"
    using Array by (intro write_seq_appends write_chunks_appends write_items_appends)
  then show ?case
    by (auto simp: RESP_CRLF_def intro: appends_cong [rotated])
next
  case (SimpleError s)
  show ?case
    using write_chunks_appends [of "[''-'', s, RESP_CRLF]"]
    by (auto simp: RESP_CRLF_def simp del: write_chunks.simps intro: appends_cong [rotated])
next
  case (Integer n)
  show ?case
    using write_chunks_appends [of "['':'', format_int n, RESP_CRLF]"]
    by (auto simp: RESP_CRLF_def simp del: write_chunks.simps intro: appends_cong [rotated])
qed (use write_all_appends in \<open>auto intro: appends_cong [rotated]\<close>)

lemma write_to_appends:
  assumes "itoa_spec itoa"
  shows "appends accepted (write_to write_all itoa r) (to_string r)"
proof -
  from assms have "itoa = format_int" by (auto simp: itoa_spec_def)
  then show ?thesis by (simp add: write_to_format_appends)
qed

end

end
