(* ===== verification/Resp_Parser.thy ===== *)
theory Resp_Parser
  imports Resp_Types
begin

text \<open>
  \<open>src/resp/parser.rs\<close>: the incremental RESP parser.  \<open>parse\<close> looks at the bytes received so far and
  returns a value with the number of bytes it took, \<open>Incomplete\<close> (read more and retry),
  \<open>Invalid\<close>, or panics.  The definitions follow the methods of \<open>Parser\<close> one by one;
  \<open>parse_elems\<close> is the element loop of \<open>parse_array\<close>.
\<close>

section \<open>Errors and helpers\<close>

datatype ParseError = Incomplete | Invalid bytes

definition fmt_parse_error :: "ParseError \<Rightarrow> bytes" where
  "fmt_parse_error e = (case e of Incomplete \<Rightarrow> ''Incomplete data'' | Invalid msg \<Rightarrow> msg)"

type_synonym parse_result = "(ParseError, RespType \<times> nat) outcome"

definition read_until_crlf :: "bytes \<Rightarrow> (bytes \<times> nat) option" where
  "read_until_crlf buf =
     (case find (\<lambda>i. buf ! i = CR \<and> buf ! (i + 1) = LF) [0..<length buf - 1] of
        Some i \<Rightarrow> Some (take i buf, i + 2)
      | None \<Rightarrow> None)"

definition parse_usize_from_buf :: "bytes \<Rightarrow> (ParseError, nat) outcome" where
  "parse_usize_from_buf buf =
     and_then (ok_or (Invalid ''Invalid UTF-8 string.'') (from_utf8 buf)) (\<lambda>s.
       ok_or (Invalid ''Invalid value for an integer.'') (parse_usize s))"

definition is_inline :: "bytes \<Rightarrow> bool" where
  "is_inline buf = (hd buf \<notin> set ''+-:$*_#'')"

section \<open>One method per RESP type\<close>

definition parse_simple :: "bytes \<Rightarrow> parse_result" where
  "parse_simple buf =
     (case read_until_crlf (tl buf) of
        Some (data, len) \<Rightarrow>
          and_then (ok_or (Invalid ''Simple string value is not a valid utf8 string.'')
                          (from_utf8 data))
            (\<lambda>s. Ok (SimpleString s, len + 1))
      | None \<Rightarrow> Err Incomplete)"

definition parse_integer :: "bytes \<Rightarrow> parse_result" where
  "parse_integer buf =
     (case read_until_crlf (tl buf) of
        Some (data, len) \<Rightarrow>
          and_then (ok_or (Invalid ''Integer value is not valid.'') (from_utf8 data)) (\<lambda>s.
          and_then (ok_or (Invalid ''Invalid integer value.'') (parse_i64 s)) (\<lambda>i.
            Ok (Integer i, len + 1)))
      | None \<Rightarrow> Err Incomplete)"

definition parse_bulk_string :: "config \<Rightarrow> bytes \<Rightarrow> parse_result" where
  "parse_bulk_string cfg buf =
     (case read_until_crlf (tl buf) of
        None \<Rightarrow> Err Incomplete
      | Some (data, len) \<Rightarrow>
          and_then (parse_usize_from_buf data) (\<lambda>bulk_str_len.
          let data_start = len + 1 in
          and_then (add_usize cfg data_start bulk_str_len) (\<lambda>data_end.
          and_then (add_usize cfg data_end 2) (\<lambda>frame_end.
          if length buf < frame_end then Err Incomplete
          else
          and_then (slice buf data_start data_end) (\<lambda>data.
          and_then (slice buf data_end frame_end) (\<lambda>term.
          if term \<noteq> CRLF then Err (Invalid ''Missing CRLF after bulk string'')
          else
          and_then (ok_or (Invalid ''Invalid UTF-8'') (from_utf8 data)) (\<lambda>s.
            Ok (BulkString s, frame_end))))))))"

definition parse_null :: "bytes \<Rightarrow> parse_result" where
  "parse_null buf =
     (case read_until_crlf (tl buf) of
        Some (data, len) \<Rightarrow> Ok (Null, len + 1)
      | None \<Rightarrow> Err Incomplete)"

definition parse_bool :: "bytes \<Rightarrow> parse_result" where
  "parse_bool buf =
     (case read_until_crlf (tl buf) of
        Some (data, len) \<Rightarrow>
          (if data = ''t'' then Ok (Boolean True, len + 1)
           else if data = ''f'' then Ok (Boolean False, len + 1)
           else Err (Invalid
             (''Invalid value for boolean. Only '' @ [CHR 0x22] @ ''t'' @ [CHR 0x22] @ '' or '' @
              [CHR 0x22] @ ''f'' @ [CHR 0x22] @ '' is accepted.'')))
      | None \<Rightarrow> Err Incomplete)"

definition parse_inline :: "bytes \<Rightarrow> parse_result" where
  "parse_inline buf =
     (case read_until_crlf buf of
        Some (data, len) \<Rightarrow>
          and_then (ok_or (Invalid ''Invalid inline command'') (from_utf8 data)) (\<lambda>line.
            Ok (Array (map BulkString (split_whitespace line)), len))
      | None \<Rightarrow> Err Incomplete)"

subsection \<open>Facts on the delimiter search\<close>

fun crlf_free :: "bytes \<Rightarrow> bool" where
  "crlf_free (a # b # bs) \<longleftrightarrow> \<not> (a = CR \<and> b = LF) \<and> crlf_free (b # bs)"
| "crlf_free _ = True"

lemma find_map_Suc: "find P (map Suc xs) = map_option Suc (find (\<lambda>i. P (Suc i)) xs)"
  by (induction xs) auto

lemma read_until_crlf_simps [simp]:
  "read_until_crlf [] = None"
  "read_until_crlf [a] = None"
  "read_until_crlf (a # b # bs) =
     (if a = CR \<and> b = LF then Some ([], 2)
      else map_option (\<lambda>(d, n). (a # d, n + 1)) (read_until_crlf (b # bs)))"
proof -
  have upt: "[0..<length (a # b # bs) - 1] = 0 # map Suc [0..<length (b # bs) - 1]"
    by (simp add: upt_conv_Cons map_Suc_upt del: upt_Suc)
  show "read_until_crlf (a # b # bs) =
     (if a = CR \<and> b = LF then Some ([], 2)
      else map_option (\<lambda>(d, n). (a # d, n + 1)) (read_until_crlf (b # bs)))"
    unfolding read_until_crlf_def upt find.simps(2) find_map_Suc
    by (auto split: option.splits)
qed (simp_all add: read_until_crlf_def)

lemma read_until_crlf_induct [case_names Nil Single Cons]:
  assumes "P []" "\<And>a. P [a]" "\<And>a b bs. P (b # bs) \<Longrightarrow> P (a # b # bs)"
  shows "P buf"
  using assms by (induction buf rule: induct_list012) auto

lemma read_until_crlf_Some:
  "read_until_crlf buf = Some (d, n) \<longleftrightarrow>
     n = length d + 2 \<and> crlf_free d \<and> (\<exists>r. buf = d @ CRLF @ r)"
proof (induction buf arbitrary: d n rule: read_until_crlf_induct)
  case (Cons a b bs)
  show ?case
    by (cases d; cases "tl d") (auto simp: Cons)
qed auto

lemma read_until_crlf_frame:
  "crlf_free d \<Longrightarrow> read_until_crlf (d @ CR # LF # r) = Some (d, length d + 2)"
  by (simp add: read_until_crlf_Some)

lemma read_until_crlf_append:
  "read_until_crlf buf = Some x \<Longrightarrow> read_until_crlf (buf @ t) = Some x"
  by (cases x) (auto simp: read_until_crlf_Some)

lemma read_until_crlf_len:
  "read_until_crlf buf = Some (d, n) \<Longrightarrow> n \<le> length buf \<and> 2 \<le> n"
  by (auto simp: read_until_crlf_Some)

lemma read_tl_nonempty: "read_until_crlf (tl buf) = Some x \<Longrightarrow> buf \<noteq> []"
  by auto

lemma read_tl_append:
  "read_until_crlf (tl buf) = Some x \<Longrightarrow> read_until_crlf (tl (buf @ t)) = Some x"
  by (cases buf) (auto dest: read_until_crlf_append)

section \<open>The recursive parser\<close>

function parse :: "config \<Rightarrow> bytes \<Rightarrow> parse_result"
  and parse_array :: "config \<Rightarrow> bytes \<Rightarrow> parse_result"
  and parse_elems :: "config \<Rightarrow> nat \<Rightarrow> bytes \<Rightarrow> (ParseError, RespType list \<times> nat) outcome" where
  "parse cfg buf =
     (if buf = [] then Err Incomplete
      else if is_inline buf then parse_inline buf
      else if hd buf = CHR ''+'' then parse_simple buf
      else if hd buf = CHR ''-'' then parse_simple buf
      else if hd buf = CHR '':'' then parse_integer buf
      else if hd buf = CHR ''$'' then parse_bulk_string cfg buf
      else if hd buf = CHR ''*'' then parse_array cfg buf
      else if hd buf = CHR ''_'' then parse_null buf
      else if hd buf = CHR ''#'' then parse_bool buf
      else Err (Invalid (''Invalid RESP type: '' @ [hd buf])))"
| "parse_array cfg buf =
     (case read_until_crlf (tl buf) of
        None \<Rightarrow> Err Incomplete
      | Some (data, len) \<Rightarrow>
          and_then (parse_usize_from_buf data) (\<lambda>arr_len.
          if vec_limit cfg < arr_len then Panic CapacityOverflow
          else
          and_then (parse_elems cfg arr_len (drop (len + 1) buf)) (\<lambda>(arr, n).
            Ok (Array arr, len + 1 + n))))"
| "parse_elems cfg n rest =
     (if n = 0 then Ok ([], 0)
      else
      and_then (parse cfg rest) (\<lambda>(resptype_el, len).
      and_then (parse_elems cfg (n - 1) (drop len rest)) (\<lambda>(arr, m).
        Ok (resptype_el # arr, len + m))))"
  by pat_completeness auto
termination
proof (relation "measures
    [(\<lambda>x. case x of Inl (_, buf) \<Rightarrow> length buf | Inr (Inl (_, buf)) \<Rightarrow> length buf
       | Inr (Inr (_, _, rest)) \<Rightarrow> length rest),
     (\<lambda>x. case x of Inl _ \<Rightarrow> 1 | Inr (Inl _) \<Rightarrow> 0 | Inr (Inr (_, n, _)) \<Rightarrow> Suc n)]")
qed (auto dest: read_tl_nonempty)

declare parse.simps [simp del] parse_array.simps [simp del] parse_elems.simps [simp del]

subsection \<open>Inversion of the recursive cases\<close>

lemma parse_array_OkE:
  assumes "parse_array cfg buf = Ok (r, n)"
  obtains data len k arr m where
    "read_until_crlf (tl buf) = Some (data, len)" "parse_usize_from_buf data = Ok k"
    "\<not> vec_limit cfg < k" "parse_elems cfg k (drop (len + 1) buf) = Ok (arr, m)"
    "r = Array arr" "n = len + 1 + m"
  using assms by (auto simp: parse_array.simps outcome_simps split: option.splits if_splits)

lemma parse_elems_OkE:
  assumes "parse_elems cfg k rest = Ok (rs, m)" and "k \<noteq> 0"
  obtains r len arr m' where
    "parse cfg rest = Ok (r, len)" "parse_elems cfg (k - 1) (drop len rest) = Ok (arr, m')"
    "rs = r # arr" "m = len + m'"
  using assms by (subst (asm) parse_elems.simps) (auto simp: outcome_simps)

section \<open>What a successful parse consumes\<close>

lemma parse_simple_bounds: "parse_simple buf = Ok (r, n) \<Longrightarrow> 2 \<le> n \<and> n \<le> length buf"
  by (cases buf) (auto simp: parse_simple_def outcome_simps split: option.splits
      dest!: read_until_crlf_len)

lemma parse_integer_bounds: "parse_integer buf = Ok (r, n) \<Longrightarrow> 2 \<le> n \<and> n \<le> length buf"
  by (cases buf) (auto simp: parse_integer_def outcome_simps split: option.splits
      dest!: read_until_crlf_len)

lemma parse_null_bounds: "parse_null buf = Ok (r, n) \<Longrightarrow> 2 \<le> n \<and> n \<le> length buf"
  by (cases buf) (auto simp: parse_null_def split: option.splits dest!: read_until_crlf_len)

lemma parse_bool_bounds: "parse_bool buf = Ok (r, n) \<Longrightarrow> 2 \<le> n \<and> n \<le> length buf"
  by (cases buf) (auto simp: parse_bool_def split: option.splits if_splits
      dest!: read_until_crlf_len)

lemma parse_inline_bounds: "parse_inline buf = Ok (r, n) \<Longrightarrow> 2 \<le> n \<and> n \<le> length buf"
  by (auto simp: parse_inline_def outcome_simps split: option.splits dest!: read_until_crlf_len)

text \<open>
  In a bulk string the two slice operations succeed only when the sums did not wrap: a successful
  result has \<open>data_start \<le> data_end \<le> frame_end \<le> length buf\<close>.
\<close>

lemma parse_bulk_string_bounds:
  "parse_bulk_string cfg buf = Ok (r, n) \<Longrightarrow> 2 \<le> n \<and> n \<le> length buf"
  by (auto simp: parse_bulk_string_def Let_def outcome_simps slice_def
      split: option.splits if_splits dest!: read_until_crlf_len)

lemmas leaf_bounds =
  parse_simple_bounds parse_integer_bounds parse_null_bounds parse_bool_bounds
  parse_inline_bounds parse_bulk_string_bounds

lemma parse_bounds_mutual:
  "parse cfg buf = Ok (r, n) \<Longrightarrow> 2 \<le> n \<and> n \<le> length buf"
  "parse_array cfg buf = Ok (r, n) \<Longrightarrow> 2 \<le> n \<and> n \<le> length buf"
  "parse_elems cfg k rest = Ok (rs, m) \<Longrightarrow> m \<le> length rest \<and> length rs = k"
proof (induction cfg buf and cfg buf and cfg k rest arbitrary: r n and r n and rs m
    rule: parse_parse_array_parse_elems.induct)
  case (1 cfg buf)
  from "1.prems" show ?case
    by (subst (asm) parse.simps) (auto split: if_splits dest: leaf_bounds "1.IH")
next
  case (2 cfg buf)
  from "2.prems" obtain data len k arr m where
    l: "read_until_crlf (tl buf) = Some (data, len)" and
    k: "parse_usize_from_buf data = Ok k" "\<not> vec_limit cfg < k" and
    m: "parse_elems cfg k (drop (len + 1) buf) = Ok (arr, m)" and n: "n = len + 1 + m"
    by (rule parse_array_OkE)
  from "2.IH" [OF l refl k m] read_until_crlf_len [OF l] n show ?case by (cases buf) auto
next
  case (3 cfg k rest)
  show ?case
  proof (cases "k = 0")
    case True
    with "3.prems" show ?thesis by (simp add: parse_elems.simps)
  next
    case False
    from "3.prems" False obtain r len arr m' where
      p: "parse cfg rest = Ok (r, len)" and
      e: "parse_elems cfg (k - 1) (drop len rest) = Ok (arr, m')" and
      m: "rs = r # arr" "m = len + m'"
      by (rule parse_elems_OkE)
    from "3.IH"(1) [OF False p] "3.IH"(2) [OF False p refl e] m False show ?thesis by auto
  qed
qed

lemmas parse_bounds = parse_bounds_mutual(1)
lemmas parse_elems_bounds = parse_bounds_mutual(3)

section \<open>Every verdict but \<open>Incomplete\<close> is final\<close>

text \<open>
  More input never changes a verdict: once \<open>parse\<close> has answered anything but \<open>Incomplete\<close>, it
  answers the same on every extension of the buffer.
\<close>

lemma parse_simple_stable:
  "buf \<noteq> [] \<Longrightarrow> parse_simple buf \<noteq> Err Incomplete \<Longrightarrow> parse_simple (buf @ t) = parse_simple buf"
  by (cases "read_until_crlf (tl buf)")
    (auto simp: parse_simple_def read_until_crlf_append)

lemma parse_integer_stable:
  "buf \<noteq> [] \<Longrightarrow> parse_integer buf \<noteq> Err Incomplete \<Longrightarrow> parse_integer (buf @ t) = parse_integer buf"
  by (cases "read_until_crlf (tl buf)")
    (auto simp: parse_integer_def read_until_crlf_append)

lemma parse_null_stable:
  "buf \<noteq> [] \<Longrightarrow> parse_null buf \<noteq> Err Incomplete \<Longrightarrow> parse_null (buf @ t) = parse_null buf"
  by (cases "read_until_crlf (tl buf)")
    (auto simp: parse_null_def read_until_crlf_append)

lemma parse_bool_stable:
  "buf \<noteq> [] \<Longrightarrow> parse_bool buf \<noteq> Err Incomplete \<Longrightarrow> parse_bool (buf @ t) = parse_bool buf"
  by (cases "read_until_crlf (tl buf)")
    (auto simp: parse_bool_def read_until_crlf_append)

lemma parse_inline_stable:
  "parse_inline buf \<noteq> Err Incomplete \<Longrightarrow> parse_inline (buf @ t) = parse_inline buf"
  by (cases "read_until_crlf buf") (auto simp: parse_inline_def read_until_crlf_append)

lemma slice_stable:
  "length (xs @ ys) \<le> isize_max \<Longrightarrow> b \<le> length xs \<or> isize_max < b \<or> b < a \<Longrightarrow>
     slice (xs @ ys) a b = slice xs a b"
  by (auto simp: slice_def)

lemma add_usize_cases:
  assumes "a < usize_bound" "b < usize_bound"
  obtains (exact) "a + b < usize_bound" "(add_usize cfg a b :: (ParseError, nat) outcome) = Ok (a + b)"
  | (panic) "(add_usize cfg a b :: (ParseError, nat) outcome) = Panic ArithmeticOverflow"
  | (wrap) "usize_bound \<le> a + b" "(add_usize cfg a b :: (ParseError, nat) outcome) = Ok (a + b - usize_bound)"
proof -
  have "(a + b) mod usize_bound = a + b - usize_bound" if "usize_bound \<le> a + b"
    using that assms by (simp add: mod_if)
  then show ?thesis
    using that by (cases "a + b < usize_bound"; cases "overflow_checks cfg")
      (auto simp: add_usize_def)
qed

text \<open>
  The frame a length header announces either fits the 64-bit range, or the panic or the failing
  slice that follows does not depend on how much input there is.
\<close>

lemma parse_bulk_string_stable:
  assumes "buf \<noteq> []" "parse_bulk_string cfg buf \<noteq> Err Incomplete" "length (buf @ t) \<le> isize_max"
  shows "parse_bulk_string cfg (buf @ t) = parse_bulk_string cfg buf"
proof (cases "read_until_crlf (tl buf)")
  case None
  with assms(2) show ?thesis by (simp add: parse_bulk_string_def)
next
  case (Some x)
  obtain data len where x: "x = (data, len)" by (cases x)
  have len: "len + 1 \<le> length buf" using read_until_crlf_len [of "tl buf"] Some x assms(1)
    by (cases buf) auto
  show ?thesis
  proof (cases "parse_usize_from_buf data")
    case (Ok L)
    then have L: "L < usize_bound"
      by (auto simp: parse_usize_from_buf_def outcome_simps dest: parse_usize_range)
    have big: "isize_max + isize_max + 2 \<le> usize_bound" "2 < usize_bound"
      by (simp_all add: isize_max_def usize_bound_def)
    have start: "len + 1 < usize_bound" using len assms(3) big by simp
    show ?thesis
      using start L
    proof (cases rule: add_usize_cases [where cfg = cfg])
      case exact
      show ?thesis
        using exact(1) big(2)
      proof (cases rule: add_usize_cases [where cfg = cfg])
        case 1: exact
        then show ?thesis
          using assms(1,2) Some x Ok exact
          by (auto simp: parse_bulk_string_def Let_def read_until_crlf_append slice_append
              split: if_splits)
      next
        case panic
        then show ?thesis
          using assms(1,2) Some x Ok exact by (simp add: parse_bulk_string_def Let_def read_until_crlf_append)
      next
        case wrap
        then have "isize_max < len + 1 + L" using big by simp
        then show ?thesis
          using assms Some x Ok exact wrap
          by (auto simp: parse_bulk_string_def Let_def read_until_crlf_append slice_def split: if_splits)
      qed
    next
      case panic
      then show ?thesis
        using assms(1,2) Some x Ok by (simp add: parse_bulk_string_def Let_def read_until_crlf_append)
    next
      case wrap
      have "len + 1 + L - usize_bound < len + 1" using L by simp
      then show ?thesis
        using assms Some x Ok wrap len big
        by (auto simp: parse_bulk_string_def Let_def read_until_crlf_append slice_def split: if_splits)
    qed
  qed (use Some x in \<open>simp_all add: parse_bulk_string_def read_tl_append\<close>)
qed

lemma parse_stable_mutual:
  "parse cfg buf \<noteq> Err Incomplete \<Longrightarrow> length (buf @ t) \<le> isize_max \<Longrightarrow>
     parse cfg (buf @ t) = parse cfg buf"
  "buf \<noteq> [] \<Longrightarrow> parse_array cfg buf \<noteq> Err Incomplete \<Longrightarrow> length (buf @ t) \<le> isize_max \<Longrightarrow>
     parse_array cfg (buf @ t) = parse_array cfg buf"
  "parse_elems cfg k rest \<noteq> Err Incomplete \<Longrightarrow> length (rest @ t) \<le> isize_max \<Longrightarrow>
     parse_elems cfg k (rest @ t) = parse_elems cfg k rest"
proof (induction cfg buf and cfg buf and cfg k rest rule: parse_parse_array_parse_elems.induct)
  case (1 cfg buf)
  show ?case
  proof (cases "buf = []")
    case True
    with "1.prems" show ?thesis by (simp add: parse.simps)
  next
    case False
    then have "is_inline (buf @ t) = is_inline buf" "hd (buf @ t) = hd buf"
      by (simp_all add: is_inline_def)
    then show ?thesis
      using False "1.prems" "1.IH"
      by (simp add: parse.simps [of cfg "buf @ t"] parse.simps [of cfg buf] parse_simple_stable
          parse_integer_stable parse_null_stable parse_bool_stable parse_inline_stable
          parse_bulk_string_stable split: if_splits)
  qed
next
  case (2 cfg buf)
  show ?case
  proof (cases "read_until_crlf (tl buf)")
    case None
    with "2.prems" show ?thesis by (simp add: parse_array.simps [of cfg buf])
  next
    case (Some x)
    obtain data len where x: "x = (data, len)" by (cases x)
    have len: "len + 1 \<le> length buf" using read_until_crlf_len [of "tl buf"] Some x "2.prems"(1)
      by (cases buf) auto
    have tl: "read_until_crlf (tl (buf @ t)) = Some (data, len)"
      using Some x by (simp add: read_tl_append)
    show ?thesis
    proof (cases "parse_usize_from_buf data")
      case (Ok k)
      have "parse_elems cfg k (drop (len + 1) buf @ t) = parse_elems cfg k (drop (len + 1) buf)"
        if k: "\<not> vec_limit cfg < k"
      proof (rule "2.IH" [OF _ refl Ok k])
        show "parse_elems cfg k (drop (len + 1) buf) \<noteq> Err Incomplete"
          using Some x "2.prems"(2) Ok k by (auto simp: parse_array.simps [of cfg buf])
      qed (use Some x "2.prems"(3) in auto)
      then show ?thesis
        using Some x tl Ok len by (simp add: parse_array.simps)
    qed (use Some x tl in \<open>simp_all add: parse_array.simps\<close>)
  qed
next
  case (3 cfg k rest)
  show ?case
  proof (cases "k = 0")
    case True
    then show ?thesis by (simp add: parse_elems.simps)
  next
    case False
    show ?thesis
    proof (cases "parse cfg rest")
      case (Ok x)
      then obtain r len where r: "parse cfg rest = Ok (r, len)" by (cases x) auto
      have p: "parse cfg (rest @ t) = Ok (r, len)"
        using "3.IH"(1) [OF False] "3.prems"(2) r by simp
      have "parse_elems cfg (k - 1) (drop len rest) \<noteq> Err Incomplete"
        using "3.prems"(1) False r by (auto simp: parse_elems.simps [of cfg k rest])
      then have "parse_elems cfg (k - 1) (drop len rest @ t) = parse_elems cfg (k - 1) (drop len rest)"
        using "3.IH"(2) [OF False r refl] "3.prems"(2) by simp
      with parse_bounds [OF r] False r p show ?thesis
        by (simp add: parse_elems.simps [of cfg k "rest @ t"] parse_elems.simps [of cfg k rest])
    next
      case (Err e)
      then have "parse cfg (rest @ t) = Err e"
        using "3.IH"(1) [OF False] "3.prems" False by (auto simp: parse_elems.simps [of cfg k rest])
      with Err False show ?thesis by (simp add: parse_elems.simps)
    next
      case (Panic p)
      then have "parse cfg (rest @ t) = Panic p"
        using "3.IH"(1) [OF False] "3.prems"(2) by simp
      with Panic False show ?thesis by (simp add: parse_elems.simps)
    qed
  qed
qed

lemmas parse_stable = parse_stable_mutual(1)

section \<open>Round trip with the serialiser\<close>

text \<open>
  The values whose encoding the parser reads back: valid UTF-8, no line break inside a simple
  string, integers of 64 bits, arrays the allocator can hold.  A simple error comes back as a simple
  string, because both type bytes go through \<open>parse_simple\<close>.
\<close>

fun wire_safe :: "config \<Rightarrow> RespType \<Rightarrow> bool" where
  "wire_safe cfg (SimpleString s) \<longleftrightarrow> utf8_valid s \<and> crlf_free s"
| "wire_safe cfg (SimpleError s) \<longleftrightarrow> utf8_valid s \<and> crlf_free s"
| "wire_safe cfg (Integer i) \<longleftrightarrow> - (2 ^ 63) \<le> i \<and> i \<le> 2 ^ 63 - 1"
| "wire_safe cfg (BulkString s) \<longleftrightarrow> utf8_valid s"
| "wire_safe cfg (Array rs) \<longleftrightarrow> length rs \<le> vec_limit cfg \<and> (\<forall>r \<in> set rs. wire_safe cfg r)"
| "wire_safe cfg Null = True"
| "wire_safe cfg (Boolean b) = True"

fun decoded :: "RespType \<Rightarrow> RespType" where
  "decoded (SimpleError s) = SimpleString s"
| "decoded (Array rs) = Array (map decoded rs)"
| "decoded r = r"

lemma crlf_free_no_CR: "CR \<notin> set s \<Longrightarrow> crlf_free s"
  by (induction s rule: crlf_free.induct) auto

lemma crlf_free_format [simp]: "crlf_free (format_nat n)" "crlf_free (format_int z)"
  using format_nat_digits [of n] format_int_chars [of z]
  by (auto intro!: crlf_free_no_CR simp: list_all_iff is_digit_def)

lemma to_string_not_Nil [simp]: "to_string r \<noteq> []"
  by (cases r) auto

lemma length_encoded: "length rs \<le> length (concat (map to_string rs))"
proof (induction rs)
  case (Cons r rs)
  have "1 \<le> length (to_string r)" by (cases r) auto
  with Cons show ?case by simp
qed simp

lemma parse_usize_from_buf_format [simp]:
  "n < usize_bound \<Longrightarrow> parse_usize_from_buf (format_nat n) = Ok n"
  by (simp add: parse_usize_from_buf_def usize_bound_def)

lemma parse_bulk_string_frame:
  assumes "utf8_valid s" and "length (to_string (BulkString s) @ t) \<le> isize_max"
  shows "parse_bulk_string cfg (to_string (BulkString s) @ t) =
           Ok (BulkString s, length (to_string (BulkString s)))"
proof -
  let ?h = "format_nat (length s)"
  have small: "length ?h + length s + 8 < usize_bound"
    using assms(2) by (simp add: isize_max_def usize_bound_def)
  have read: "read_until_crlf (?h @ CR # LF # (s @ CR # LF # t)) = Some (?h, length ?h + 2)"
    by (rule read_until_crlf_frame) simp
  show ?thesis
    using small read assms(1)
    by (simp add: parse_bulk_string_def Let_def slice_def)
qed

lemma parse_elems_encoded:
  assumes "\<And>r t. r \<in> set rs \<Longrightarrow> length (to_string r @ t) \<le> isize_max \<Longrightarrow>
             parse cfg (to_string r @ t) = Ok (decoded r, length (to_string r))"
    and "length (concat (map to_string rs) @ t) \<le> isize_max"
  shows "parse_elems cfg (length rs) (concat (map to_string rs) @ t) =
           Ok (map decoded rs, length (concat (map to_string rs)))"
  using assms
proof (induction rs)
  case Nil
  then show ?case by (simp add: parse_elems.simps)
next
  case (Cons r rs)
  have "parse cfg (to_string r @ concat (map to_string rs) @ t) =
      Ok (decoded r, length (to_string r))"
    by (rule Cons.prems(1)) (use Cons.prems(2) in simp_all)
  moreover have "parse_elems cfg (length rs) (concat (map to_string rs) @ t) =
      Ok (map decoded rs, length (concat (map to_string rs)))"
    by (rule Cons.IH) (use Cons.prems in simp_all)
  ultimately show ?case
    by (subst parse_elems.simps) simp
qed

lemma parse_encoded:
  "wire_safe cfg r \<Longrightarrow> length (to_string r @ t) \<le> isize_max \<Longrightarrow>
     parse cfg (to_string r @ t) = Ok (decoded r, length (to_string r))"
proof (induction r arbitrary: t)
  case (BulkString s)
  then have "parse_bulk_string cfg (to_string (BulkString s) @ t) =
      Ok (BulkString s, length (to_string (BulkString s)))"
    by (intro parse_bulk_string_frame) auto
  then show ?case by (subst parse.simps) (simp add: is_inline_def)
next
  case (Array rs)
  let ?h = "format_nat (length rs)"
  have n: "length rs < usize_bound"
    using Array.prems(2) length_encoded [of rs] by (simp add: isize_max_def usize_bound_def)
  have "read_until_crlf (?h @ CR # LF # (concat (map to_string rs) @ t)) = Some (?h, length ?h + 2)"
    by (rule read_until_crlf_frame) simp
  moreover have "parse_elems cfg (length rs) (concat (map to_string rs) @ t) =
      Ok (map decoded rs, length (concat (map to_string rs)))"
    by (rule parse_elems_encoded) (use Array in auto)
  ultimately show ?case
    using n Array.prems(1) by (subst parse.simps) (simp add: is_inline_def parse_array.simps)
qed (subst parse.simps, simp add: is_inline_def parse_simple_def parse_integer_def parse_null_def
    parse_bool_def read_until_crlf_frame parse_i64_format)+

lemma parse_cut:
  assumes "wire_safe cfg r" and "length (to_string r) \<le> isize_max"
    and "strict_prefix p (to_string r)"
  shows "parse cfg p = Err Incomplete"
proof (rule ccontr)
  assume *: "parse cfg p \<noteq> Err Incomplete"
  obtain t where t: "to_string r = p @ t" "t \<noteq> []" using assms(3) by (auto elim: strict_prefixE')
  have "parse cfg p = parse cfg (to_string r @ [])"
    using parse_stable [OF *, of t] assms(2) t by simp
  also have "\<dots> = Ok (decoded r, length (to_string r))"
    by (rule parse_encoded) (use assms in simp_all)
  finally show False using parse_bounds t by fastforce
qed

section \<open>What a parsed value looks like\<close>

text \<open>Every string in a parsed value is valid UTF-8, every integer fits \<open>i64\<close>.\<close>

fun wf_resp :: "RespType \<Rightarrow> bool" where
  "wf_resp (SimpleString s) = utf8_valid s"
| "wf_resp (SimpleError s) = utf8_valid s"
| "wf_resp (Integer i) \<longleftrightarrow> - (2 ^ 63) \<le> i \<and> i \<le> 2 ^ 63 - 1"
| "wf_resp (BulkString s) = utf8_valid s"
| "wf_resp (Array rs) = list_all wf_resp rs"
| "wf_resp Null = True"
| "wf_resp (Boolean b) = True"


lemma parse_inline_wf: "parse_inline buf = Ok (r, n) \<Longrightarrow> wf_resp r"
  by (auto simp: parse_inline_def outcome_simps list_all_iff split: option.splits
      dest!: split_whitespace_valid [rotated])

lemma parse_integer_wf: "parse_integer buf = Ok (r, n) \<Longrightarrow> wf_resp r"
  by (auto simp: parse_integer_def outcome_simps split: option.splits dest!: parse_i64_range)

lemma parse_bulk_string_wf: "parse_bulk_string cfg buf = Ok (r, n) \<Longrightarrow> wf_resp r"
  by (auto simp: parse_bulk_string_def Let_def outcome_simps split: if_splits option.splits)

lemma parse_simple_wf:
  "parse_simple buf = Ok (r, n) \<Longrightarrow> wf_resp r" "parse_null buf = Ok (r, n) \<Longrightarrow> wf_resp r"
  "parse_bool buf = Ok (r, n) \<Longrightarrow> wf_resp r"
  by (auto simp: parse_simple_def parse_null_def parse_bool_def outcome_simps
      split: if_splits option.splits)

lemmas leaf_wf = parse_inline_wf parse_integer_wf parse_bulk_string_wf parse_simple_wf

lemma parse_wf_mutual:
  "parse cfg buf = Ok (r, n) \<Longrightarrow> wf_resp r"
  "parse_array cfg buf = Ok (r, n) \<Longrightarrow> wf_resp r"
  "parse_elems cfg k rest = Ok (rs, m) \<Longrightarrow> list_all wf_resp rs"
proof (induction cfg buf and cfg buf and cfg k rest arbitrary: r n and r n and rs m
    rule: parse_parse_array_parse_elems.induct)
  case (1 cfg buf)
  from "1.prems" show ?case
    by (subst (asm) parse.simps)
      (auto split: if_splits dest: leaf_wf "1.IH")
next
  case (2 cfg buf)
  from "2.prems" obtain data len k arr m where
    l: "read_until_crlf (tl buf) = Some (data, len)" and
    k: "parse_usize_from_buf data = Ok k" "\<not> vec_limit cfg < k" and
    m: "parse_elems cfg k (drop (len + 1) buf) = Ok (arr, m)" and r: "r = Array arr"
    by (rule parse_array_OkE)
  from "2.IH" [OF l refl k m] r show ?case by simp
next
  case (3 cfg k rest)
  show ?case
  proof (cases "k = 0")
    case True
    with "3.prems" show ?thesis by (simp add: parse_elems.simps)
  next
    case False
    from "3.prems" False obtain r len arr m' where
      p: "parse cfg rest = Ok (r, len)" and
      e: "parse_elems cfg (k - 1) (drop len rest) = Ok (arr, m')" and rs: "rs = r # arr"
      by (rule parse_elems_OkE)
    from "3.IH"(1) [OF False p] "3.IH"(2) [OF False p refl e] rs show ?thesis by simp
  qed
qed

section \<open>When the parser can panic\<close>

text \<open>
  A length header that fits the allocator and the address space: the only numbers that can make
  the parser panic are those announced after \<open>$\<close> and \<open>*\<close>.
\<close>

definition header_ok :: "config \<Rightarrow> bytes \<Rightarrow> bool" where
  "header_ok cfg buf =
     (case read_until_crlf (tl buf) of
        None \<Rightarrow> True
      | Some (data, len) \<Rightarrow>
          (case parse_usize_from_buf data of
             Ok n \<Rightarrow> n \<le> vec_limit cfg \<and> n + 2 \<le> isize_max | _ \<Rightarrow> True))"

fun headers_ok :: "config \<Rightarrow> bytes \<Rightarrow> bool" where
  "headers_ok cfg [] = True"
| "headers_ok cfg (b # bs) \<longleftrightarrow>
     (b = CHR ''$'' \<or> b = CHR ''*'' \<longrightarrow> header_ok cfg (b # bs)) \<and> headers_ok cfg bs"

lemma headers_ok_drop: "headers_ok cfg buf \<Longrightarrow> headers_ok cfg (drop n buf)"
proof (induction n arbitrary: buf)
  case (Suc n)
  then show ?case by (cases buf) auto
qed simp

lemma headers_ok_hd:
  "headers_ok cfg buf \<Longrightarrow> buf \<noteq> [] \<Longrightarrow> hd buf = CHR ''$'' \<or> hd buf = CHR ''*'' \<Longrightarrow> header_ok cfg buf"
  by (cases buf) auto

lemma parse_bulk_string_no_panic:
  assumes "header_ok cfg buf" "buf \<noteq> []" "length buf \<le> isize_max"
  shows "\<not> panics (parse_bulk_string cfg buf)"
proof (cases "read_until_crlf (tl buf)")
  case (Some x)
  obtain data len where x: "x = (data, len)" by (cases x)
  have len: "len + 1 \<le> length buf" using read_until_crlf_len [of "tl buf"] Some x assms(2)
    by (cases buf) auto
  show ?thesis
  proof (cases "parse_usize_from_buf data")
    case (Ok n)
    then have "n + 2 \<le> isize_max" using assms(1) Some x by (simp add: header_ok_def)
    then have "len + 1 + n + 2 < usize_bound"
      using len assms(3) by (simp add: isize_max_def usize_bound_def)
    then show ?thesis
      using Some x Ok
      by (auto simp: parse_bulk_string_def Let_def slice_def panics_iff ok_or_def outcome_simps
          split: if_splits option.splits)
  qed (use Some x in \<open>auto simp: parse_bulk_string_def parse_usize_from_buf_def outcome_simps\<close>)
qed (simp add: parse_bulk_string_def)

lemma leaf_no_panic:
  "\<not> panics (parse_simple buf)" "\<not> panics (parse_integer buf)" "\<not> panics (parse_null buf)"
  "\<not> panics (parse_bool buf)" "\<not> panics (parse_inline buf)"
  by (auto simp: parse_simple_def parse_integer_def parse_null_def parse_bool_def parse_inline_def
      panics_iff outcome_simps split: option.splits)

lemma parse_no_panic_mutual:
  "headers_ok cfg buf \<Longrightarrow> length buf \<le> isize_max \<Longrightarrow> \<not> panics (parse cfg buf)"
  "headers_ok cfg buf \<Longrightarrow> length buf \<le> isize_max \<Longrightarrow> buf \<noteq> [] \<Longrightarrow> hd buf = CHR ''*'' \<Longrightarrow>
     \<not> panics (parse_array cfg buf)"
  "headers_ok cfg rest \<Longrightarrow> length rest \<le> isize_max \<Longrightarrow> \<not> panics (parse_elems cfg k rest)"
proof (induction cfg buf and cfg buf and cfg k rest rule: parse_parse_array_parse_elems.induct)
  case (1 cfg buf)
  then show ?case
    by (subst parse.simps) (auto simp: leaf_no_panic parse_bulk_string_no_panic headers_ok_hd)
next
  case (2 cfg buf)
  have "header_ok cfg buf" using "2.prems" by (intro headers_ok_hd) auto
  with 2 show ?case
    by (auto simp: parse_array.simps header_ok_def headers_ok_drop parse_usize_from_buf_def
        panics_iff outcome_simps split: option.splits)
next
  case (3 cfg k rest)
  then show ?case
    by (subst parse_elems.simps) (auto simp: headers_ok_drop)
qed

section \<open>Properties\<close>

abbreviation demo_config :: config where
  "demo_config \<equiv> \<lparr>overflow_checks = False, vec_limit = 1024\<rparr>"

text \<open>
  C3. Round trip: whatever follows on the wire, parsing the serialisation of a representable value
  returns that value (a simple error as a simple string) and consumes exactly its bytes.
\<close>

theorem parse_round_trip:
  assumes "wire_safe cfg r" and "length (to_string r @ t) \<le> isize_max"
  shows "parse cfg (to_string r @ t) = Ok (decoded r, length (to_string r))"
  using assms by (rule parse_encoded)

theorem parse_round_trip_witness:
  "parse demo_config (to_string (Array [BulkString ''GET'', Integer (-7), SimpleError ''no'']) @ ''+P'') =
     Ok (Array [BulkString ''GET'', Integer (-7), SimpleString ''no''], 23)"
proof -
  have safe: "wire_safe demo_config (Array [BulkString ''GET'', Integer (-7), SimpleError ''no''])"
    by code_simp
  have len: "length (to_string (Array [BulkString ''GET'', Integer (-7), SimpleError ''no'']) @ ''+P'')
      \<le> isize_max"
    by code_simp
  have n: "length (to_string (Array [BulkString ''GET'', Integer (-7), SimpleError ''no''])) = 23"
    by code_simp
  show ?thesis using parse_round_trip [OF safe len] n by simp
qed

text \<open>
  A successful parse consumes at least one byte and never more than the buffer holds, so the
  pipeline loop makes progress and \<open>buf.advance\<close> stays in range.
\<close>

theorem parse_consumes_within_buffer:
  assumes "parse cfg buf = Ok (r, n)"
  shows "0 < n \<and> n \<le> length buf"
  using parse_bounds [OF assms] by simp

theorem parse_consumes_within_buffer_witness:
  "parse demo_config (''PING a'' @ CRLF @ ''x'') = Ok (Array [BulkString ''PING'', BulkString ''a''], 8)
     \<and> 0 < (8 :: nat) \<and> (8 :: nat) \<le> length (''PING a'' @ CRLF @ ''x'')"
proof -
  have p: "parse demo_config (''PING a'' @ CRLF @ ''x'') =
      Ok (Array [BulkString ''PING'', BulkString ''a''], 8)"
    by code_simp
  show ?thesis using p parse_consumes_within_buffer [OF p] by blast
qed

text \<open>
  C13. Every verdict but \<open>Incomplete\<close> is final: a value, an error or a panic does not change when
  more bytes arrive, so it does not matter how the network cuts the stream into reads.
\<close>

theorem parse_verdict_final:
  assumes "parse cfg buf \<noteq> Err Incomplete" and "length (buf @ t) \<le> isize_max"
  shows "parse cfg (buf @ t) = parse cfg buf"
  using assms by (rule parse_stable)

theorem parse_verdict_final_witness:
  "parse demo_config ((''#t'' @ CRLF) @ ''#x'' @ CRLF) = parse demo_config (''#t'' @ CRLF) \<and>
   parse demo_config (''#t'' @ CRLF) = Ok (Boolean True, 4)"
proof -
  have p: "parse demo_config (''#t'' @ CRLF) = Ok (Boolean True, 4)" by code_simp
  then have ne: "parse demo_config (''#t'' @ CRLF) \<noteq> Err Incomplete" by simp
  have len: "length ((''#t'' @ CRLF) @ ''#x'' @ CRLF) \<le> isize_max" by code_simp
  show ?thesis using p parse_verdict_final [OF ne len] by blast
qed

text \<open>
  A frame cut short anywhere is reported as \<open>Incomplete\<close>: the parser never takes a proper prefix
  of a serialised value for a value or for an error.
\<close>

theorem parse_cut_frame_incomplete:
  assumes "wire_safe cfg r" and "length (to_string r) \<le> isize_max"
    and "strict_prefix p (to_string r)"
  shows "parse cfg p = Err Incomplete"
  using assms by (rule parse_cut)

theorem parse_cut_frame_incomplete_witness:
  "parse demo_config (''*1'' @ CRLF @ ''$4'' @ CRLF @ ''PI'') = Err Incomplete"
proof (rule parse_cut_frame_incomplete [where r = "Array [BulkString ''PING'']"])
  show "wire_safe demo_config (Array [BulkString ''PING''])" by code_simp
  show "length (to_string (Array [BulkString ''PING''])) \<le> isize_max" by code_simp
  show "strict_prefix (''*1'' @ CRLF @ ''$4'' @ CRLF @ ''PI'') (to_string (Array [BulkString ''PING'']))"
    by code_simp
qed



text \<open>
  C24. The parser panics on no input whose length headers (the numbers after \<open>$\<close> and \<open>*\<close>) fit the
  address space and the allocator.
\<close>

theorem parse_no_panic:
  assumes "headers_ok cfg buf" and "length buf \<le> isize_max"
  shows "\<not> panics (parse cfg buf)"
  using assms by (rule parse_no_panic_mutual(1))

theorem parse_no_panic_witness:
  "\<not> panics (parse demo_config (''*1'' @ CRLF @ ''$900'' @ CRLF @ ''abc''))"
proof (rule parse_no_panic)
  show "headers_ok demo_config (''*1'' @ CRLF @ ''$900'' @ CRLF @ ''abc'')" by code_simp
  show "length (''*1'' @ CRLF @ ''$900'' @ CRLF @ ''abc'') \<le> isize_max" by code_simp
qed

text \<open>
  The condition on length headers is needed: a bulk string announced with \<open>usize::MAX\<close> bytes makes the
  unchecked additions of \<open>parse_bulk_string\<close> overflow, and the parser panics in both build profiles
  instead of answering \<open>Incomplete\<close> or \<open>Invalid\<close>.
\<close>

theorem parse_huge_bulk_header_panics:
  "panics (parse cfg (''$18446744073709551615'' @ CRLF @ ''x''))"
proof -
  have read: "read_until_crlf (tl (''$18446744073709551615'' @ CRLF @ ''x'')) =
      Some (''18446744073709551615'', 22)"
    by code_simp
  have num: "parse_usize_from_buf ''18446744073709551615'' = Ok 18446744073709551615"
    by code_simp
  have "panics (parse_bulk_string cfg (''$18446744073709551615'' @ CRLF @ ''x''))"
    unfolding parse_bulk_string_def read
    by (auto simp: num Let_def add_usize_def usize_bound_def slice_def)
  then show ?thesis by (subst parse.simps) (simp add: is_inline_def)
qed

end
