(* ===== verification/Command.thy ===== *)
theory Command
  imports Resp_Parser
begin

text \<open>
  \<open>src/command/command.rs\<close> and \<open>src/utils/mod.rs\<close>: turning a parsed RESP value into a command.
  \<open>now\<close> is the reading of \<open>Instant::now()\<close> that \<open>SET\<close> and \<open>EXPIRE\<close> take.  Indexing \<open>args[i]\<close> past
  the end panics, as in the source.
\<close>

section \<open>Commands\<close>

datatype Command =
    PING
  | ECHO bytes
  | SET bytes bytes "instant option"
  | GET bytes
  | DELETE bytes
  | LPUSH bytes "bytes list"
  | RPUSH bytes "bytes list"
  | LRANGE bytes int int
  | EXPIRE bytes instant "bytes option"
  | MULTI
  | DISCARD
  | EXEC
  | SAVE

definition parse_int :: "bytes \<Rightarrow> int" where
  "parse_int s = (case parse_i32 (trim s) of Some i \<Rightarrow> i | None \<Rightarrow> 0)"

text \<open>\<open>x * y\<close> on \<open>i32\<close>.\<close>

definition mul_i32 :: "config \<Rightarrow> int \<Rightarrow> int \<Rightarrow> ('e, int) outcome" where
  "mul_i32 cfg x y =
     (if in_i32 (x * y) then Ok (x * y)
      else if overflow_checks cfg then Panic ArithmeticOverflow else Ok (wrap_i32 (x * y)))"

text \<open>\<open>Instant::now() + Duration::from_millis(ms as u64)\<close>.\<close>

definition deadline_in :: "instant \<Rightarrow> int \<Rightarrow> ('e, instant) outcome" where
  "deadline_in now ms = instant_add now (from_millis (as_u64 ms))"

section \<open>Argument parsing\<close>

text \<open>The pattern \<open>RespType::BulkString(s)\<close> of an \<open>if let\<close>: \<open>Some s\<close> where it matches.\<close>

definition as_bulk :: "RespType \<Rightarrow> bytes option" where
  "as_bulk r = (case r of BulkString s \<Rightarrow> Some s | _ \<Rightarrow> None)"

lemma as_bulk_Some [simp]: "as_bulk r = Some s \<longleftrightarrow> r = BulkString s"
  by (cases r) (auto simp: as_bulk_def)

lemma as_bulk_BulkString [simp]: "as_bulk (BulkString s) = Some s"
  by (simp add: as_bulk_def)

definition parse_set :: "config \<Rightarrow> instant \<Rightarrow> RespType list \<Rightarrow> (bytes, Command) outcome" where
  "parse_set cfg now args =
     (if length args < 2 then Err ''SET command requires two arguments.''
      else
        (case (as_bulk (args ! 0), as_bulk (args ! 1)) of
           (Some k, Some v) \<Rightarrow>
             if length args < 4 then Ok (SET k v None)
             else
             and_then
               (case (as_bulk (args ! 2), as_bulk (args ! 3)) of
                  (Some flag, Some expires_in) \<Rightarrow>
                    (let expires_in_int = parse_int expires_in in
                     if to_ascii_uppercase flag = ''EX'' then mul_i32 cfg expires_in_int 1000
                     else if to_ascii_uppercase flag = ''PX'' then Ok expires_in_int
                     else Err ''Invalid expiry flag. Only EX and PX are supported.'')
                | _ \<Rightarrow> Err ''Invalid SET command format for expiry. Expected EX or PX followed by expiry time.'')
               (\<lambda>expires_in_millis.
                  and_then (deadline_in now expires_in_millis) (\<lambda>expires_at.
                    Ok (SET k v (Some expires_at))))
         | _ \<Rightarrow> Err ''SET arguments must be bulk strings.''))"

text \<open>The collection loop of \<open>LPUSH\<close> and \<open>RPUSH\<close>: arguments that are not bulk strings are skipped.\<close>

fun bulk_strings :: "RespType list \<Rightarrow> bytes list" where
  "bulk_strings [] = []"
| "bulk_strings (arg # args) =
     (case as_bulk arg of Some bs \<Rightarrow> bs # bulk_strings args | None \<Rightarrow> bulk_strings args)"

definition parse_expire :: "instant \<Rightarrow> RespType list \<Rightarrow> (bytes, Command) outcome" where
  "parse_expire now args =
     and_then (index args 0) (\<lambda>a0.
     and_then (index args 1) (\<lambda>a1.
     case (as_bulk a0, as_bulk a1) of
       (Some k, Some expires_in) \<Rightarrow>
         and_then
           (if 2 < length args
            then (case as_bulk (args ! 2) of
                    Some opt \<Rightarrow>
                      (if opt \<in> {''NX'', ''XX'', ''GT'', ''LT''} then Ok (Some opt)
                       else Err ''Invalid option in expire command. Only NX, XX, GT, LT are supported.'')
                  | None \<Rightarrow> Err ''Invalid option format in expire command. Expected a bulk string.'')
            else Ok None)
           (\<lambda>opt. and_then (deadline_in now (parse_int expires_in)) (\<lambda>expires_at.
              Ok (EXPIRE k expires_at opt)))
     | _ \<Rightarrow> Err ''EXPIRE command requires an argument.''))"

definition parse_lrange :: "RespType list \<Rightarrow> (bytes, Command) outcome" where
  "parse_lrange args =
     and_then (index args 0) (\<lambda>a0.
     and_then (index args 1) (\<lambda>a1.
     and_then (index args 2) (\<lambda>a2.
     case (as_bulk a0, as_bulk a1, as_bulk a2) of
       (Some key, Some start, Some stop) \<Rightarrow>
         Ok (LRANGE key (parse_int start) (parse_int stop))
     | _ \<Rightarrow> Err ''LRANGE command requires an argument.'')))"

text \<open>The commands whose first argument must be a bulk string.\<close>

definition with_key ::
    "RespType list \<Rightarrow> bytes \<Rightarrow> (bytes \<Rightarrow> Command) \<Rightarrow> (bytes, Command) outcome" where
  "with_key args msg f =
     and_then (index args 0) (\<lambda>a0. case as_bulk a0 of Some k \<Rightarrow> Ok (f k) | None \<Rightarrow> Err msg)"

text \<open>The commands that take no argument, and the unknown ones.\<close>

definition parse_bare :: "bytes \<Rightarrow> (bytes, Command) outcome" where [simp]:
  "parse_bare cmd =
     (if cmd = ''MULTI'' then Ok MULTI
      else if cmd = ''DISCARD'' then Ok DISCARD
      else if cmd = ''EXEC'' then Ok EXEC
      else if cmd = ''SAVE'' then Ok SAVE
      else if cmd = ''COMMAND'' then Ok PING
      else Err (''Unknown command: '' @ cmd))"

definition parse_command ::
    "config \<Rightarrow> instant \<Rightarrow> bytes \<Rightarrow> RespType list \<Rightarrow> (bytes, Command) outcome" where
  "parse_command cfg now cmd args =
     (if cmd = ''PING'' then Ok PING
      else if cmd = ''ECHO'' then with_key args ''ECHO command requires an argument.'' ECHO
      else if cmd = ''SET'' then parse_set cfg now args
      else if cmd = ''GET'' then with_key args ''GET command requires an argument.'' GET
      else if cmd = ''DELETE'' then with_key args ''DELETE command requires an argument.'' DELETE
      else if cmd = ''LPUSH''
      then with_key args ''LPUSH command requires an argument.'' (\<lambda>k. LPUSH k (bulk_strings (drop 1 args)))
      else if cmd = ''RPUSH''
      then with_key args ''RPUSH command requires an argument.'' (\<lambda>k. RPUSH k (bulk_strings (drop 1 args)))
      else if cmd = ''LRANGE'' then parse_lrange args
      else if cmd = ''EXPIRE'' then parse_expire now args
      else parse_bare cmd)"

definition extract_command :: "config \<Rightarrow> instant \<Rightarrow> RespType \<Rightarrow> (bytes, Command) outcome" where
  "extract_command cfg now resp =
     (case resp of
        Array arr \<Rightarrow>
          (case arr of
             [] \<Rightarrow> Err ''Invalid command format.''
           | arg0 # args \<Rightarrow>
               (case as_bulk arg0 of
                  Some cmd \<Rightarrow> parse_command cfg now (to_ascii_uppercase cmd) args
                | None \<Rightarrow> Err ''Invalid command format.''))
      | _ \<Rightarrow> Err ''Invalid command format.'')"

section \<open>Lemmas\<close>

lemma ascii_upper_idem [simp]: "ascii_upper (ascii_upper b) = ascii_upper b"
  by (auto simp: ascii_upper_def)

lemma to_ascii_uppercase_idem [simp]: "to_ascii_uppercase (to_ascii_uppercase s) = to_ascii_uppercase s"
  by (simp add: to_ascii_uppercase_def)

lemma parse_int_i32 [simp]: "in_i32 (parse_int s)"
  by (auto simp: parse_int_def in_i32_def i32_min_def i32_max_def split: option.splits
      dest: parse_i32_range)

text \<open>
  The monotonic clock is far from the end of its range: adding any number of milliseconds of 64 bits
  stays representable.  (It would have to run for some 290 billion years.)
\<close>

definition now_ok :: "instant \<Rightarrow> bool" where
  "now_ok now \<longleftrightarrow> now + from_millis (2 ^ 64) \<le> instant_bound"

lemma deadline_in_ok: "now_ok now \<Longrightarrow> deadline_in now ms = Ok (now + from_millis (as_u64 ms))"
  using as_u64_less [of ms] by (simp add: now_ok_def deadline_in_def instant_add_def from_millis_def)

lemma panics_mul_i32: "panics (mul_i32 cfg x y) \<longleftrightarrow> overflow_checks cfg \<and> \<not> in_i32 (x * y)"
  by (simp add: mul_i32_def)

lemma panics_with_key: "panics (with_key args msg f) \<longleftrightarrow> args = []"
  by (cases args) (auto simp: with_key_def split: option.splits)

lemma panics_parse_lrange: "panics (parse_lrange args) \<longleftrightarrow> length args < 3"
  by (auto simp: parse_lrange_def index_Ok_iff split: option.splits)

lemma panics_parse_expire: "now_ok now \<Longrightarrow> panics (parse_expire now args) \<longleftrightarrow> length args < 2"
  by (auto simp: parse_expire_def index_Ok_iff deadline_in_ok split: option.splits if_splits)

text \<open>A \<open>SET\<close> with an \<open>EX\<close> clause whose milliseconds do not fit \<open>i32\<close>.\<close>

definition ex_overflow :: "RespType list \<Rightarrow> bool" where
  "ex_overflow args \<longleftrightarrow> 4 \<le> length args \<and>
     (case (as_bulk (args ! 0), as_bulk (args ! 1), as_bulk (args ! 2), as_bulk (args ! 3)) of
        (Some k, Some v, Some flag, Some n) \<Rightarrow>
          to_ascii_uppercase flag = ''EX'' \<and> \<not> in_i32 (parse_int n * 1000)
      | _ \<Rightarrow> False)"

lemma panics_parse_set:
  assumes "now_ok now"
  shows "panics (parse_set cfg now args) \<longleftrightarrow> overflow_checks cfg \<and> ex_overflow args"
  using assms
  by (simp add: parse_set_def ex_overflow_def Let_def panics_mul_i32 deadline_in_ok not_less
      split: option.split)

text \<open>The number of arguments a command indexes without checking.\<close>

definition min_args :: "bytes \<Rightarrow> nat" where
  "min_args cmd =
     (if cmd \<in> {''ECHO'', ''GET'', ''DELETE'', ''LPUSH'', ''RPUSH''} then 1
      else if cmd = ''EXPIRE'' then 2 else if cmd = ''LRANGE'' then 3 else 0)"

lemma panics_parse_command:
  "now_ok now \<Longrightarrow> panics (parse_command cfg now cmd args) \<longleftrightarrow>
     length args < min_args cmd \<or> cmd = ''SET'' \<and> overflow_checks cfg \<and> ex_overflow args"
  by (simp add: parse_command_def min_args_def panics_with_key panics_parse_lrange panics_parse_expire
      panics_parse_set)

section \<open>Well-formed commands\<close>

fun command_wf :: "Command \<Rightarrow> bool" where
  "command_wf (ECHO m) = utf8_valid m"
| "command_wf (SET k v e) \<longleftrightarrow> utf8_valid k \<and> utf8_valid v"
| "command_wf (GET k) = utf8_valid k"
| "command_wf (DELETE k) = utf8_valid k"
| "command_wf (LPUSH k vs) \<longleftrightarrow> utf8_valid k \<and> list_all utf8_valid vs"
| "command_wf (RPUSH k vs) \<longleftrightarrow> utf8_valid k \<and> list_all utf8_valid vs"
| "command_wf (LRANGE k s e) \<longleftrightarrow> utf8_valid k \<and> in_i32 s \<and> in_i32 e"
| "command_wf (EXPIRE k t opt) \<longleftrightarrow>
     utf8_valid k \<and> opt \<in> {None, Some ''NX'', Some ''XX'', Some ''GT'', Some ''LT''}"
| "command_wf _ = True"

lemma bulk_strings_wf: "list_all wf_resp args \<Longrightarrow> list_all utf8_valid (bulk_strings args)"
  by (induction args) (auto split: option.splits)

lemma parse_set_wf:
  assumes "list_all wf_resp args" "parse_set cfg now args = Ok c"
  shows "command_wf c"
proof -
  from assms(2) obtain a b rest where "args = a # b # rest"
    by (cases args; cases "tl args") (auto simp: parse_set_def)
  with assms show ?thesis
    by (auto simp: parse_set_def outcome_simps split: if_splits option.splits)
qed

lemma parse_expire_wf: "list_all wf_resp args \<Longrightarrow> parse_expire now args = Ok c \<Longrightarrow> command_wf c"
  by (cases args)
    (auto simp: parse_expire_def outcome_simps index_Ok_iff split: if_splits option.splits)

lemma parse_lrange_wf: "list_all wf_resp args \<Longrightarrow> parse_lrange args = Ok c \<Longrightarrow> command_wf c"
  by (cases args) (auto simp: parse_lrange_def outcome_simps index_Ok_iff split: option.splits)

lemma with_key_wf:
  "list_all wf_resp args \<Longrightarrow> with_key args msg f = Ok c \<Longrightarrow> (\<And>k. utf8_valid k \<Longrightarrow> command_wf (f k)) \<Longrightarrow>
     command_wf c"
  by (cases args) (auto simp: with_key_def outcome_simps index_Ok_iff split: option.splits)

lemma parse_command_wf:
  assumes "list_all wf_resp args" "parse_command cfg now cmd args = Ok c"
  shows "command_wf c"
proof -
  have "list_all utf8_valid (bulk_strings (drop 1 args))"
    using assms(1) by (intro bulk_strings_wf) (auto simp: list_all_iff dest: in_set_dropD)
  with assms(2) show ?thesis
    by (auto simp: parse_command_def split: if_splits
        dest: parse_set_wf [OF assms(1)] parse_expire_wf [OF assms(1)] parse_lrange_wf [OF assms(1)]
        dest!: with_key_wf [OF assms(1)])
qed

lemma extract_command_wf:
  "wf_resp resp \<Longrightarrow> extract_command cfg now resp = Ok c \<Longrightarrow> command_wf c"
  by (auto simp: extract_command_def split: RespType.splits list.splits option.splits intro: parse_command_wf)

lemma parse_set_px:
  assumes "now_ok now"
  shows "parse_set cfg now [BulkString k, BulkString v, BulkString ''PX'', BulkString n] =
           Ok (SET k v (Some (now + from_millis (as_u64 (parse_int n)))))"
  using assms by (simp add: parse_set_def deadline_in_ok to_ascii_uppercase_def ascii_upper_def)

lemma parse_set_ex:
  assumes "now_ok now" "in_i32 (parse_int n * 1000)"
  shows "parse_set cfg now [BulkString k, BulkString v, BulkString ''EX'', BulkString n] =
           Ok (SET k v (Some (now + from_millis (as_u64 (parse_int n * 1000)))))"
  using assms by (simp add: parse_set_def deadline_in_ok to_ascii_uppercase_def ascii_upper_def mul_i32_def)

section \<open>Properties\<close>

text \<open>
  C25. Exactly when a well-framed command panics: it lacks an argument that the code indexes without
  a check, or, with overflow checks on, it is a \<open>SET\<close> whose \<open>EX\<close> seconds do not fit 32 bits in
  milliseconds.  Everything else is answered with a command or an error.
\<close>

theorem extract_panics_iff:
  assumes "now_ok now"
  shows "panics (extract_command cfg now (Array (BulkString c # args))) \<longleftrightarrow>
           length args < min_args (to_ascii_uppercase c) \<or>
           to_ascii_uppercase c = ''SET'' \<and> overflow_checks cfg \<and> ex_overflow args"
  using panics_parse_command [OF assms] by (simp add: extract_command_def)

theorem extract_panics_iff_witness:
  "panics (extract_command demo_config 0 (Array [BulkString ''get'']))"
proof -
  have now: "now_ok 0" by code_simp
  have "length ([] :: RespType list) < min_args (to_ascii_uppercase ''get'')" by code_simp
  with extract_panics_iff [OF now, of demo_config "''get''" "[]"] show ?thesis by blast
qed

text \<open>
  Command names are case-insensitive: only the upper-case form of the name matters.
\<close>

theorem extract_case_insensitive:
  assumes "to_ascii_uppercase c = to_ascii_uppercase c'"
  shows "extract_command cfg now (Array (BulkString c # args)) =
         extract_command cfg now (Array (BulkString c' # args))"
  using assms by (simp add: extract_command_def)

theorem extract_case_insensitive_witness:
  "extract_command demo_config 0 (Array [BulkString ''Ping'']) =
   extract_command demo_config 0 (Array [BulkString ''PING''])"
  by (rule extract_case_insensitive) code_simp

text \<open>
  C26. The deadline of \<open>SET k v EX n\<close> and \<open>SET k v PX n\<close> is \<open>n\<close> seconds, respectively milliseconds,
  after the clock reading, for every \<open>n\<close> from 0 up to what fits 32 bits in milliseconds.
\<close>

theorem set_deadlines:
  assumes "now_ok now" and "0 \<le> parse_int n"
  shows "extract_command cfg now
           (Array [BulkString ''SET'', BulkString k, BulkString v, BulkString ''PX'', BulkString n]) =
           Ok (SET k v (Some (now + nat (parse_int n) * 10 ^ 6))) \<and>
         (parse_int n \<le> 2147483 \<longrightarrow> extract_command cfg now
           (Array [BulkString ''SET'', BulkString k, BulkString v, BulkString ''EX'', BulkString n]) =
           Ok (SET k v (Some (now + nat (parse_int n) * 10 ^ 9))))"
proof -
  have SET: "to_ascii_uppercase ''SET'' = ''SET''" by code_simp
  have "in_i32 (parse_int n * 1000)" if "parse_int n \<le> 2147483"
    using that assms(2) by (simp add: in_i32_def i32_min_def i32_max_def)
  with assms show ?thesis
    by (simp add: extract_command_def parse_command_def SET parse_set_px parse_set_ex as_u64_nonneg
        from_millis_def nat_mult_distrib)
qed

theorem set_deadlines_witness:
  "extract_command demo_config 7
     (Array [BulkString ''SET'', BulkString ''k'', BulkString ''v'', BulkString ''EX'', BulkString ''60'']) =
   Ok (SET ''k'' ''v'' (Some 60000000007))"
proof -
  have h: "now_ok 7" "0 \<le> parse_int ''60''" "parse_int ''60'' = 60"
    by code_simp+
  show ?thesis using set_deadlines [OF h(1,2), of demo_config "''k''" "''v''"] h(3) by simp
qed

text \<open>
  C38. A negative time to live is not a deadline in the past: the cast to \<open>u64\<close> turns it into one
  more than 290 million years away, so \<open>SET k v PX -1\<close> and \<open>EXPIRE k -1\<close> make the key practically
  immortal instead of expiring it at once.
\<close>

theorem negative_ttl_never_due:
  assumes "now_ok now" and "parse_int n < 0"
  shows "\<exists>d1 d2. extract_command cfg now
             (Array [BulkString ''SET'', BulkString k, BulkString v, BulkString ''PX'', BulkString n]) =
             Ok (SET k v (Some d1)) \<and>
           extract_command cfg now (Array [BulkString ''EXPIRE'', BulkString k, BulkString n]) =
             Ok (EXPIRE k d2 None) \<and>
           now + 2 ^ 63 * 10 ^ 6 < d1 \<and> now + 2 ^ 63 * 10 ^ 6 < d2"
proof -
  have up: "to_ascii_uppercase ''SET'' = ''SET''" "to_ascii_uppercase ''EXPIRE'' = ''EXPIRE''"
    by code_simp+
  have "2 ^ 63 < as_u64 (parse_int n)"
    using as_u64_neg [of "parse_int n"] assms(2) parse_int_i32 [of n]
    by (simp add: in_i32_def i32_min_def zless_nat_eq_int_zless)
  then have "now + 2 ^ 63 * 10 ^ 6 < now + from_millis (as_u64 (parse_int n))"
    by (simp add: from_millis_def)
  with assms show ?thesis
    by (simp add: extract_command_def parse_command_def up parse_set_px parse_expire_def deadline_in_ok)
qed

theorem negative_ttl_never_due_witness:
  "\<exists>d1 d2. extract_command demo_config 0
       (Array [BulkString ''SET'', BulkString ''k'', BulkString ''v'', BulkString ''PX'', BulkString ''-1'']) =
       Ok (SET ''k'' ''v'' (Some d1)) \<and>
     extract_command demo_config 0 (Array [BulkString ''EXPIRE'', BulkString ''k'', BulkString ''-1'']) =
       Ok (EXPIRE ''k'' d2 None) \<and>
     (0 :: nat) + 2 ^ 63 * 10 ^ 6 < d1 \<and> 0 + 2 ^ 63 * 10 ^ 6 < d2"
  by (rule negative_ttl_never_due) code_simp+

text \<open>
  A command made from a parsed value is well formed: valid UTF-8 throughout, list indices of
  32 bits, and an \<open>EXPIRE\<close> option out of \<open>NX\<close>, \<open>XX\<close>, \<open>GT\<close> and \<open>LT\<close>.
\<close>

theorem extracted_command_well_formed:
  assumes "parse cfg buf = Ok (resp, n)" and "extract_command cfg now resp = Ok c"
  shows "command_wf c"
  using extract_command_wf [OF parse_wf_mutual(1) [OF assms(1)] assms(2)] .

theorem extracted_command_well_formed_witness: "command_wf (LRANGE ''l'' 0 (-1))"
proof (rule extracted_command_well_formed)
  show "parse demo_config (''LRANGE l 0 -1'' @ CRLF) =
      Ok (Array [BulkString ''LRANGE'', BulkString ''l'', BulkString ''0'', BulkString ''-1''], 15)"
    by code_simp
  show "extract_command demo_config 0
      (Array [BulkString ''LRANGE'', BulkString ''l'', BulkString ''0'', BulkString ''-1'']) =
      Ok (LRANGE ''l'' 0 (-1))"
    by code_simp
qed

end
