(* ===== verification/Database.thy ===== *)
theory Database
  imports Rust_Str
begin

text \<open>
  \<open>src/database/core.rs\<close>, less the two methods that touch the disk (they are in \<open>Persistence\<close>).
  The two \<open>DashMap\<close>s of \<open>DB\<close> are finite maps; an operation returns its \<open>Result\<close> and the new state.
  \<open>Instant::now()\<close> is an argument of the operations that read the clock.  The order in which a
  \<open>DashMap\<close> iterates and the random number generator are arguments of the expiration cycle.

  The operations here run alone on the database; the interleaving of their individual map accesses
  is the subject of \<open>Concurrency\<close>.
\<close>

section \<open>State\<close>

datatype RedisObject = RO_String bytes | RO_List "RedisObject list"

record DB =
  data :: "(bytes, RedisObject) fmap"
  expirations :: "(bytes, instant) fmap"

definition new_in_memory :: DB where
  "new_in_memory = \<lparr>data = fmempty, expirations = fmempty\<rparr>"

definition SAMPLE_SIZE :: nat where "SAMPLE_SIZE = 20"

definition nil_object :: RedisObject where "nil_object = RO_String ''nil''"

type_synonym 'a db_result = "(bytes, 'a) outcome \<times> DB"

section \<open>Operations\<close>

text \<open>Removing a key from both maps, as \<open>delete\<close> and every expiry path do.\<close>

definition remove_key :: "DB \<Rightarrow> bytes \<Rightarrow> DB" where
  "remove_key db key =
     db\<lparr>data := fmdrop key (data db), expirations := fmdrop key (expirations db)\<rparr>"

definition DB_set :: "DB \<Rightarrow> bytes \<Rightarrow> RedisObject \<Rightarrow> instant option \<Rightarrow> unit db_result" where
  "DB_set db key val expires_at =
     (let db1 = db\<lparr>expirations := fmdrop key (expirations db)\<rparr>;
          db2 = db1\<lparr>data := fmupd key val (data db1)\<rparr>
      in case expires_at of
           Some exp \<Rightarrow> (Ok (), db2\<lparr>expirations := fmupd key exp (expirations db2)\<rparr>)
         | None \<Rightarrow> (Ok (), db2))"

definition is_expired :: "instant \<Rightarrow> DB \<Rightarrow> bytes \<Rightarrow> bool" where
  "is_expired now db key =
     (case fmlookup (expirations db) key of Some expires_at \<Rightarrow> expires_at < now | None \<Rightarrow> False)"

definition DB_get :: "instant \<Rightarrow> DB \<Rightarrow> bytes \<Rightarrow> RedisObject db_result" where
  "DB_get now db key =
     (if fmlookup (expirations db) key \<noteq> None \<and> is_expired now db key
      then (Ok nil_object, remove_key db key)
      else (case fmlookup (data db) key of
              Some ro \<Rightarrow> (Ok ro, db)
            | None \<Rightarrow> (Ok nil_object, db)))"

definition DB_delete :: "DB \<Rightarrow> bytes \<Rightarrow> unit db_result" where
  "DB_delete db key = (Ok (), remove_key db key)"

definition DB_lpush :: "DB \<Rightarrow> bytes \<Rightarrow> RedisObject list \<Rightarrow> unit db_result" where
  "DB_lpush db key vals =
     (case fmlookup (data db) key of
        None \<Rightarrow> (Ok (), db\<lparr>data := fmupd key (RO_List (rev vals)) (data db)\<rparr>)
      | Some (RO_List xs) \<Rightarrow> (Ok (), db\<lparr>data := fmupd key (RO_List (vals @ xs)) (data db)\<rparr>)
      | Some (RO_String s) \<Rightarrow> (Err ''Wrong data type. Expected List, got String.'', db))"

definition DB_rpush :: "DB \<Rightarrow> bytes \<Rightarrow> RedisObject list \<Rightarrow> unit db_result" where
  "DB_rpush db key vals =
     (case fmlookup (data db) key of
        None \<Rightarrow> (Ok (), db\<lparr>data := fmupd key (RO_List vals) (data db)\<rparr>)
      | Some (RO_List xs) \<Rightarrow> (Ok (), db\<lparr>data := fmupd key (RO_List (xs @ vals)) (data db)\<rparr>)
      | Some (RO_String s) \<Rightarrow> (Err ''Wrong data type. Expected List, got String.'', db))"

text \<open>\<open>x += y\<close> on \<open>i32\<close>.\<close>

definition add_i32 :: "config \<Rightarrow> int \<Rightarrow> int \<Rightarrow> ('e, int) outcome" where
  "add_i32 cfg x y =
     (if in_i32 (x + y) then Ok (x + y)
      else if overflow_checks cfg then Panic ArithmeticOverflow else Ok (wrap_i32 (x + y)))"

text \<open>Index normalisation and selection of \<open>lrange\<close>, on the list alone.\<close>

definition list_range :: "config \<Rightarrow> 'a list \<Rightarrow> int \<Rightarrow> int \<Rightarrow> (bytes, 'a list) outcome" where
  "list_range cfg xs start stop =
     (let len = wrap_i32 (int (length xs)) in
      and_then (if start < 0 then add_i32 cfg start len else Ok start) (\<lambda>start'.
      and_then (if stop < 0 then add_i32 cfg stop len else Ok stop) (\<lambda>stop'.
        Ok (map snd (filter (\<lambda>(idx, _). as_u64 start' \<le> idx \<and> idx \<le> as_u64 stop')
                            (enumerate 0 xs))))))"

definition DB_lrange :: "config \<Rightarrow> instant \<Rightarrow> DB \<Rightarrow> bytes \<Rightarrow> int \<Rightarrow> int \<Rightarrow> RedisObject db_result" where
  "DB_lrange cfg now db key start stop =
     (if fmlookup (expirations db) key \<noteq> None \<and> is_expired now db key
      then (Ok nil_object, remove_key db key)
      else (case fmlookup (data db) key of
              None \<Rightarrow> (Ok nil_object, db)
            | Some (RO_List xs) \<Rightarrow>
                (and_then (list_range cfg xs start stop) (\<lambda>vals. Ok (RO_List vals)), db)
            | Some (RO_String s) \<Rightarrow> (Err ''Wrong type. Expected list.'', db)))"

definition DB_expire :: "DB \<Rightarrow> bytes \<Rightarrow> instant \<Rightarrow> bytes option \<Rightarrow> unit db_result" where
  "DB_expire db key expires_at opt =
     (if key |\<notin>| fmdom (data db) then (Err ''Entry not found.'', db)
      else
        (let cur = fmlookup (expirations db) key;
             update = (case opt of
                 Some o' \<Rightarrow>
                   (if o' = ''NX'' then Ok (cur = None)
                    else if o' = ''XX'' then Ok (cur \<noteq> None)
                    else if o' = ''GT'' then Ok (case cur of Some e \<Rightarrow> expires_at > e | None \<Rightarrow> False)
                    else if o' = ''LT'' then Ok (case cur of Some e \<Rightarrow> expires_at < e | None \<Rightarrow> False)
                    else Err ''Invalid option for expire command.'')
               | None \<Rightarrow> Ok True)
         in case update of
              Ok True \<Rightarrow> (Ok (), db\<lparr>expirations := fmupd key expires_at (expirations db)\<rparr>)
            | Ok False \<Rightarrow> (Ok (), db)
            | Err e \<Rightarrow> (Err e, db)
            | Panic p \<Rightarrow> (Panic p, db)))"

section \<open>Active expiration\<close>

text \<open>The sweep over the sampled keys, with the number of keys it removed.\<close>

fun purge_sampled :: "instant \<Rightarrow> bytes list \<Rightarrow> DB \<Rightarrow> nat \<Rightarrow> DB \<times> nat" where
  "purge_sampled now [] db expired = (db, expired)"
| "purge_sampled now (key # keys) db expired =
     (case fmlookup (expirations db) key of
        Some exp \<Rightarrow> (if exp < now then purge_sampled now keys (remove_key db key) (expired + 1)
                     else purge_sampled now keys db expired)
      | None \<Rightarrow> purge_sampled now keys db expired)"

lemma fcard_fmdom_remove:
  assumes "fmlookup m key = Some v"
  shows "fcard (fmdom (fmdrop key m)) + 1 = fcard (fmdom m)"
proof -
  have "key |\<in>| fmdom m" using assms by (auto intro: fmdomI)
  then have "fcard (fmdom m) = Suc (fcard (fmdom m |-| {|key|}))"
    by (metis fcard_Suc_fminus1)
  moreover have "fmdom (fmdrop key m) = fmdom m |-| {|key|}" by simp
  ultimately show ?thesis by simp
qed

lemma purge_sampled_count:
  "purge_sampled now keys db n = (db', n') \<Longrightarrow>
     fcard (fmdom (expirations db')) + n' = fcard (fmdom (expirations db)) + n"
proof (induction keys arbitrary: db n)
  case (Cons key keys)
  then show ?case
    by (auto simp: remove_key_def split: option.splits if_splits dest!: Cons.IH
        dest: fcard_fmdom_remove)
qed simp

text \<open>
  One call of \<open>active_expiration_cycle\<close>: \<open>clk i\<close> and \<open>rnd i\<close> are the clock and the random number of
  the \<open>i\<close>-th (re-)run, \<open>ord\<close> the iteration order.  The quotient of the two small counts exceeds
  \<open>0.25\<close> in floating point exactly when \<open>checked < 4 * expired\<close>.
\<close>

function active_expiration_cycle ::
    "instant iter_order \<Rightarrow> (nat \<Rightarrow> nat \<Rightarrow> nat) \<Rightarrow> (nat \<Rightarrow> instant) \<Rightarrow> nat \<Rightarrow> DB \<Rightarrow> DB" where
  "active_expiration_cycle ord rnd clk i db =
     (let now = clk i;
          total = fcard (fmdom (expirations db)) in
      if total = 0 then db
      else
        (let skip = rnd i total;
             sampled = take SAMPLE_SIZE (drop skip (ord (expirations db)));
             (db', expired) = purge_sampled now sampled db 0;
             checked = max (length sampled) 1 in
         if checked < 4 * expired then active_expiration_cycle ord rnd clk (i + 1) db'
         else db'))"
  by pat_completeness auto
termination
proof (relation "measure (\<lambda>(ord, rnd, clk, i, db). fcard (fmdom (expirations db)))")
  fix ord :: "instant iter_order" and rnd clk i and db db' :: DB
    and now total skip sampled x expired checked
  assume "x = purge_sampled now sampled db 0" "(db', expired) = x" "checked = max (length sampled) 1"
    "checked < 4 * expired"
  then show "((ord, rnd, clk, i + 1, db'), ord, rnd, clk, i, db)
      \<in> measure (\<lambda>(ord, rnd, clk, i, db). fcard (fmdom (expirations db)))"
    using purge_sampled_count [of now sampled db 0 db' expired] by auto
qed simp

declare active_expiration_cycle.simps [simp del]

text \<open>
  \<open>active_expiration_task\<close> never returns: it runs a cycle, sleeps 100 ms and starts over.  The model
  runs it for the given wake-ups, each with its own random numbers and clock readings.
\<close>

fun active_expiration_task ::
    "instant iter_order \<Rightarrow> ((nat \<Rightarrow> nat \<Rightarrow> nat) \<times> (nat \<Rightarrow> instant)) list \<Rightarrow> DB \<Rightarrow> DB" where
  "active_expiration_task ord [] db = db"
| "active_expiration_task ord ((rnd, clk) # wakeups) db =
     active_expiration_task ord wakeups (active_expiration_cycle ord rnd clk 0 db)"

section \<open>Invariants\<close>

text \<open>
  \<open>maps_in_sync\<close>: only keys with a value have a deadline.  \<open>well_typed\<close>: keys and strings are valid
  UTF-8 and a list holds strings only, which is what every command builds.
\<close>

definition maps_in_sync :: "DB \<Rightarrow> bool" where
  "maps_in_sync db \<longleftrightarrow> fmdom (expirations db) |\<subseteq>| fmdom (data db)"

fun string_object :: "RedisObject \<Rightarrow> bool" where
  "string_object (RO_String s) = utf8_valid s"
| "string_object (RO_List xs) = False"

fun flat_object :: "RedisObject \<Rightarrow> bool" where
  "flat_object (RO_String s) = utf8_valid s"
| "flat_object (RO_List xs) = list_all string_object xs"

definition well_typed :: "DB \<Rightarrow> bool" where
  "well_typed db \<longleftrightarrow>
     (\<forall>k v. fmlookup (data db) k = Some v \<longrightarrow> utf8_valid k \<and> flat_object v) \<and>
     (\<forall>k e. fmlookup (expirations db) k = Some e \<longrightarrow> utf8_valid k)"

definition db_inv :: "DB \<Rightarrow> bool" where
  "db_inv db \<longleftrightarrow> maps_in_sync db \<and> well_typed db"

named_theorems db_defs \<open>definitions of the database operations\<close>

lemmas [db_defs] = DB_set_def DB_get_def DB_delete_def DB_lpush_def DB_rpush_def DB_lrange_def
  DB_expire_def remove_key_def Let_def

lemma maps_in_syncD:
  "maps_in_sync db \<Longrightarrow> fmlookup (expirations db) k = Some e \<Longrightarrow> \<exists>v. fmlookup (data db) k = Some v"
  unfolding maps_in_sync_def by (metis fmdomE fmdomI fsubsetD)

lemma maps_in_syncI:
  "(\<And>k e. fmlookup (expirations db) k = Some e \<Longrightarrow> \<exists>v. fmlookup (data db) k = Some v) \<Longrightarrow>
     maps_in_sync db"
  unfolding maps_in_sync_def by (metis fmdomE fmdomI fsubsetI)

lemma db_inv_new: "db_inv new_in_memory"
  by (simp add: db_inv_def maps_in_sync_def well_typed_def new_in_memory_def)

lemma well_typed_remove: "well_typed db \<Longrightarrow> well_typed (remove_key db key)"
  by (auto simp: well_typed_def remove_key_def)

lemma maps_in_sync_remove: "maps_in_sync db \<Longrightarrow> maps_in_sync (remove_key db key)"
  by (rule maps_in_syncI) (auto simp: remove_key_def split: if_splits dest: maps_in_syncD)

lemma db_inv_remove [intro]: "db_inv db \<Longrightarrow> db_inv (remove_key db key)"
  by (simp add: db_inv_def well_typed_remove maps_in_sync_remove)

lemma db_inv_set:
  assumes "db_inv db" "utf8_valid key" "flat_object val"
  shows "db_inv (snd (DB_set db key val exp))"
  using assms
  by (auto simp: db_inv_def well_typed_def db_defs split: option.splits if_splits
      intro!: maps_in_syncI dest: maps_in_syncD)

lemma db_inv_get: "db_inv db \<Longrightarrow> db_inv (snd (DB_get now db key))"
  by (auto simp: DB_get_def split: option.splits)

lemma db_inv_delete: "db_inv db \<Longrightarrow> db_inv (snd (DB_delete db key))"
  by (auto simp: DB_delete_def)

lemma db_inv_lrange: "db_inv db \<Longrightarrow> db_inv (snd (DB_lrange cfg now db key start stop))"
  by (auto simp: DB_lrange_def split: option.splits RedisObject.splits)

lemma db_inv_update_data:
  assumes "db_inv db" "utf8_valid key" "flat_object val"
  shows "db_inv (db\<lparr>data := fmupd key val (data db)\<rparr>)"
  using assms
  by (auto simp: db_inv_def well_typed_def split: if_splits intro!: maps_in_syncI dest: maps_in_syncD)

lemma db_inv_flat: "db_inv db \<Longrightarrow> fmlookup (data db) k = Some v \<Longrightarrow> flat_object v \<and> utf8_valid k"
  by (auto simp: db_inv_def well_typed_def)

lemma db_inv_lpush:
  assumes "db_inv db" "utf8_valid key" "list_all string_object vals"
  shows "db_inv (snd (DB_lpush db key vals))"
  using assms db_inv_flat [OF assms(1), of key]
  by (auto simp: DB_lpush_def split: option.splits RedisObject.splits
      intro!: db_inv_update_data)

lemma db_inv_rpush:
  assumes "db_inv db" "utf8_valid key" "list_all string_object vals"
  shows "db_inv (snd (DB_rpush db key vals))"
  using assms db_inv_flat [OF assms(1), of key]
  by (auto simp: DB_rpush_def split: option.splits RedisObject.splits
      intro!: db_inv_update_data)

lemma DB_expire_state:
  "snd (DB_expire db key e opt) = db \<or>
   key |\<in>| fmdom (data db) \<and>
     snd (DB_expire db key e opt) = db\<lparr>expirations := fmupd key e (expirations db)\<rparr>"
  unfolding DB_expire_def Let_def
  by (cases "key |\<in>| fmdom (data db)") (simp_all split: option.split outcome.split bool.split)

lemma db_inv_update_expirations:
  assumes "db_inv db" "key |\<in>| fmdom (data db)"
  shows "db_inv (db\<lparr>expirations := fmupd key e (expirations db)\<rparr>)"
proof -
  obtain v where v: "fmlookup (data db) key = Some v" using assms(2) by (auto elim: fmdomE)
  have "maps_in_sync (db\<lparr>expirations := fmupd key e (expirations db)\<rparr>)"
    using assms(1) v
    by (intro maps_in_syncI) (auto simp: db_inv_def split: if_splits dest: maps_in_syncD)
  moreover have "well_typed (db\<lparr>expirations := fmupd key e (expirations db)\<rparr>)"
    using assms(1) v by (auto simp: db_inv_def well_typed_def)
  ultimately show ?thesis by (simp add: db_inv_def)
qed

lemma db_inv_expire: "db_inv db \<Longrightarrow> db_inv (snd (DB_expire db key e opt))"
  using DB_expire_state [of db key e opt] db_inv_update_expirations [of db key e] by auto

text \<open>
  The reaper only ever drops keys whose deadline has passed: whatever such a removal keeps, a sweep,
  a cycle and the task keep.
\<close>

lemma purge_sampled_keeps:
  assumes "\<And>db key e. P db \<Longrightarrow> fmlookup (expirations db) key = Some e \<Longrightarrow> e < now \<Longrightarrow>
             P (remove_key db key)"
    and "P db"
  shows "P (fst (purge_sampled now keys db n))"
  using assms(2)
proof (induction keys arbitrary: db n)
  case (Cons key keys)
  then show ?case
    using assms(1) [of db key] by (cases "fmlookup (expirations db) key") simp_all
qed simp

lemma cycle_keeps:
  assumes "\<And>i db key e. P db \<Longrightarrow> fmlookup (expirations db) key = Some e \<Longrightarrow> e < clk i \<Longrightarrow>
             P (remove_key db key)"
    and "P db"
  shows "P (active_expiration_cycle ord rnd clk i db)"
  using assms(2)
proof (induction ord rnd clk\<equiv>clk i db rule: active_expiration_cycle.induct)
  case (1 ord rnd i db)
  let ?s = "take SAMPLE_SIZE (drop (rnd i (fcard (fmdom (expirations db)))) (ord (expirations db)))"
  obtain db' n where p: "purge_sampled (clk i) ?s db 0 = (db', n)" by fastforce
  have "P (fst (purge_sampled (clk i) ?s db 0))"
    by (rule purge_sampled_keeps [where P = P]) (use assms(1) "1.prems" in blast)+
  then have "P db'" using p by simp
  with p "1.hyps" [OF refl refl _ refl refl p [symmetric] refl refl] "1.prems" show ?case
    by (simp add: active_expiration_cycle.simps [of ord rnd clk i db] Let_def)
qed

lemma task_keeps:
  assumes "\<And>rnd clk i db key e. (rnd, clk) \<in> set wakeups \<Longrightarrow> P db \<Longrightarrow>
             fmlookup (expirations db) key = Some e \<Longrightarrow> e < clk i \<Longrightarrow> P (remove_key db key)"
    and "P db"
  shows "P (active_expiration_task ord wakeups db)"
  using assms
proof (induction wakeups arbitrary: db)
  case (Cons w wakeups)
  obtain rnd clk where w: "w = (rnd, clk)" by (cases w)
  have "P (active_expiration_cycle ord rnd clk 0 db)"
    using Cons.prems(1) [of rnd clk] Cons.prems(2) w by (intro cycle_keeps [where P = P]) auto
  then have "P (active_expiration_task ord wakeups (active_expiration_cycle ord rnd clk 0 db))"
  proof (rule Cons.IH [rotated])
    fix rnd' :: "nat \<Rightarrow> nat \<Rightarrow> nat" and clk' :: "nat \<Rightarrow> instant" and i db key e
    assume "(rnd', clk') \<in> set wakeups" "P db" "fmlookup (expirations db) key = Some e" "e < clk' i"
    then show "P (remove_key db key)" using Cons.prems(1) [of rnd' clk' db key e i] by simp
  qed
  with w show ?case by simp
qed simp

lemma db_inv_cycle: "db_inv db \<Longrightarrow> db_inv (active_expiration_cycle ord rnd clk i db)"
  by (rule cycle_keeps [where P = db_inv]) auto

lemma db_inv_task: "db_inv db \<Longrightarrow> db_inv (active_expiration_task ord wakeups db)"
  by (rule task_keeps [where P = db_inv]) auto

section \<open>The store as clients see it\<close>

text \<open>
  \<open>live now db\<close>: the value each key shows to a client that looks at time \<open>now\<close>.  Deadlines are
  exclusive: a key is still visible at the very instant of its deadline.
\<close>

definition live :: "instant \<Rightarrow> DB \<Rightarrow> bytes \<Rightarrow> RedisObject option" where
  "live now db key = (if is_expired now db key then None else fmlookup (data db) key)"

definition or_nil :: "RedisObject option \<Rightarrow> RedisObject" where
  "or_nil v = (case v of Some ro \<Rightarrow> ro | None \<Rightarrow> nil_object)"

lemma is_expired_mono: "is_expired t db key \<Longrightarrow> t \<le> t' \<Longrightarrow> is_expired t' db key"
  by (auto simp: is_expired_def split: option.splits)

lemma is_expired_has_deadline: "is_expired now db key \<Longrightarrow> fmlookup (expirations db) key \<noteq> None"
  by (auto simp: is_expired_def split: option.splits)

lemma live_remove: "live t (remove_key db key) = (live t db)(key := None)"
  by (auto simp: live_def is_expired_def remove_key_def)

lemma live_remove_expired:
  "is_expired t db key \<Longrightarrow> t \<le> t' \<Longrightarrow> live t' (remove_key db key) = live t' db"
  using is_expired_mono [of t db key t'] by (auto simp: live_remove live_def)

lemma live_set:
  "live t (snd (DB_set db key val exp)) =
     (live t db)(key := (case exp of Some e \<Rightarrow> if e < t then None else Some val | None \<Rightarrow> Some val))"
  by (auto simp: live_def is_expired_def DB_set_def Let_def split: option.splits)

lemma get_result: "fst (DB_get now db key) = Ok (or_nil (live now db key))"
  using is_expired_has_deadline [of now db key]
  by (auto simp: DB_get_def live_def or_nil_def split: option.splits)

lemma get_state:
  "snd (DB_get now db key) = (if is_expired now db key then remove_key db key else db)"
  using is_expired_has_deadline [of now db key]
  by (auto simp: DB_get_def split: option.splits)

lemma live_get: "t \<le> t' \<Longrightarrow> live t' (snd (DB_get t db key)) = live t' db"
  by (simp add: get_state live_remove_expired)

subsection \<open>Interface: a store with deadlines\<close>

text \<open>
  What the commands rely on: a view of the visible values at each time, and how writing,
  deleting and looking up act on that view.
\<close>

locale ttl_store =
  fixes view :: "instant \<Rightarrow> 's \<Rightarrow> bytes \<Rightarrow> 'v option"
    and put :: "'s \<Rightarrow> bytes \<Rightarrow> 'v \<Rightarrow> instant option \<Rightarrow> 's"
    and del :: "'s \<Rightarrow> bytes \<Rightarrow> 's"
    and look :: "instant \<Rightarrow> 's \<Rightarrow> bytes \<Rightarrow> 'v \<times> 's"
    and absent :: 'v
  assumes view_put: "view t (put s k v e) =
      (view t s)(k := (case e of Some d \<Rightarrow> if d < t then None else Some v | None \<Rightarrow> Some v))"
    and view_del: "view t (del s k) = (view t s)(k := None)"
    and look_value: "fst (look t s k) = (case view t s k of Some v \<Rightarrow> v | None \<Rightarrow> absent)"
    and look_keeps: "t \<le> t' \<Longrightarrow> view t' (snd (look t s k)) = view t' s"
begin

text \<open>A sequence of lookups at non-decreasing times.\<close>

fun looks :: "(instant \<times> bytes) list \<Rightarrow> 's \<Rightarrow> 's" where
  "looks [] s = s"
| "looks ((t, k) # ls) s = looks ls (snd (look t s k))"

lemma looks_keep: "list_all (\<lambda>(t', k). t' \<le> t) ls \<Longrightarrow> view t (looks ls s) = view t s"
  by (induction ls arbitrary: s) (auto simp: look_keeps)

lemma look_after_put:
  assumes "list_all (\<lambda>(t', k). t' \<le> t) ls"
  shows "fst (look t (looks ls (put s k v e)) k) =
           (case e of Some d \<Rightarrow> if d < t then absent else v | None \<Rightarrow> v)"
  by (simp add: look_value looks_keep [OF assms] view_put split: option.split)

lemma look_after_put_other:
  assumes "list_all (\<lambda>(t', k). t' \<le> t) ls" "k' \<noteq> k"
  shows "fst (look t (looks ls (put s k v e)) k') = fst (look t s k')"
  by (simp add: look_value looks_keep [OF assms(1)] view_put assms(2))

lemma look_after_del:
  assumes "list_all (\<lambda>(t', k). t' \<le> t) ls"
  shows "fst (look t (looks ls (del s k)) k) = absent"
  by (simp add: look_value looks_keep [OF assms] view_del)

lemma put_overwrites: "view t (put (put s k v e) k v' e') = view t (put s k v' e')"
  by (simp add: view_put)

end

definition db_put :: "DB \<Rightarrow> bytes \<Rightarrow> RedisObject \<Rightarrow> instant option \<Rightarrow> DB" where
  "db_put db k v e = snd (DB_set db k v e)"

definition db_del :: "DB \<Rightarrow> bytes \<Rightarrow> DB" where
  "db_del db k = snd (DB_delete db k)"

text \<open>\<open>DB::get\<close> never fails: its value is what \<open>unwrap\<close> would give.\<close>

definition db_look :: "instant \<Rightarrow> DB \<Rightarrow> bytes \<Rightarrow> RedisObject \<times> DB" where
  "db_look t db k =
     (case DB_get t db k of (Ok v, db') \<Rightarrow> (v, db') | (_, db') \<Rightarrow> (nil_object, db'))"

lemma db_look_eq: "db_look t db k = (or_nil (live t db k), snd (DB_get t db k))"
  using get_result [of t db k] by (cases "DB_get t db k") (simp add: db_look_def)

interpretation dbs: ttl_store live db_put db_del db_look nil_object
proof
  show "live t (db_put s k v e) =
      (live t s)(k := (case e of Some d \<Rightarrow> if d < t then None else Some v | None \<Rightarrow> Some v))" for t s k v e
    by (simp add: db_put_def live_set)
  show "live t (db_del s k) = (live t s)(k := None)" for t s k
    by (simp add: db_del_def DB_delete_def live_remove)
  show "fst (db_look t s k) = (case live t s k of Some v \<Rightarrow> v | None \<Rightarrow> nil_object)" for t s k
    by (simp add: db_look_eq or_nil_def)
  show "live t' (snd (db_look t s k)) = live t' s" if "t \<le> t'" for t t' s k
    using that by (simp add: db_look_eq live_get)
qed

section \<open>The reaper and the visible store\<close>

lemma remove_expired_live:
  "fmlookup (expirations db) key = Some e \<Longrightarrow> e < now \<Longrightarrow> now \<le> t \<Longrightarrow>
     live t (remove_key db key) = live t db"
  by (rule live_remove_expired [of now]) (simp_all add: is_expired_def)

lemma cycle_live:
  assumes "\<And>j. clk j \<le> t"
  shows "live t (active_expiration_cycle ord rnd clk i db) = live t db"
  by (rule cycle_keeps [where P = "\<lambda>d. live t d = live t db"])
    (use assms in \<open>auto simp: remove_expired_live\<close>)

lemma task_live:
  assumes "\<And>rnd clk j. (rnd, clk) \<in> set wakeups \<Longrightarrow> clk j \<le> t"
  shows "live t (active_expiration_task ord wakeups db) = live t db"
proof (rule task_keeps [where P = "\<lambda>d. live t d = live t db"])
  fix rnd :: "nat \<Rightarrow> nat \<Rightarrow> nat" and clk :: "nat \<Rightarrow> instant" and i d key e
  assume "(rnd, clk) \<in> set wakeups" "live t d = live t db"
    "fmlookup (expirations d) key = Some e" "e < clk i"
  then show "live t (remove_key d key) = live t db"
    using assms [of rnd clk i] remove_expired_live [of d key e "clk i" t] by simp
qed simp

text \<open>If every sampled key has expired, the sweep removes and counts all of them.\<close>

lemma purge_sampled_all:
  "distinct keys \<Longrightarrow> (\<And>k. k \<in> set keys \<Longrightarrow> \<exists>e<now. fmlookup (expirations db) k = Some e) \<Longrightarrow>
     snd (purge_sampled now keys db n) = n + length keys"
proof (induction keys arbitrary: db n)
  case (Cons key keys)
  obtain e where e: "e < now" "fmlookup (expirations db) key = Some e"
    using Cons.prems(2) [of key] by auto
  have "snd (purge_sampled now keys (remove_key db key) (n + 1)) = n + 1 + length keys"
  proof (rule Cons.IH)
    fix k assume "k \<in> set keys"
    with Cons.prems show "\<exists>e<now. fmlookup (expirations (remove_key db key)) k = Some e"
      using Cons.prems(2) [of k] by (auto simp: remove_key_def)
  qed (use Cons.prems in simp)
  with e show ?case by simp
qed simp

text \<open>Documented behaviour of \<open>random_range(0..total)\<close>.\<close>

definition in_range :: "(nat \<Rightarrow> nat \<Rightarrow> nat) \<Rightarrow> bool" where
  "in_range rnd \<longleftrightarrow> (\<forall>i n. 0 < n \<longrightarrow> rnd i n < n)"

definition all_overdue :: "(nat \<Rightarrow> instant) \<Rightarrow> DB \<Rightarrow> bool" where
  "all_overdue clk db \<longleftrightarrow> (\<forall>k e i. fmlookup (expirations db) k = Some e \<longrightarrow> e < clk i)"

lemma all_overdue_remove: "all_overdue clk db \<Longrightarrow> all_overdue clk (remove_key db key)"
  by (auto simp: all_overdue_def remove_key_def)

lemma length_order: "enumerates ord \<Longrightarrow> length (ord m) = fcard (fmdom m)"
  using enumeratesD [of ord m] distinct_card [of "ord m"]
  by (simp add: fmdom'_alt_def fcard.rep_eq)

lemma cycle_purges_overdue:
  assumes "enumerates ord" "in_range rnd" "all_overdue clk db"
  shows "fmdom (expirations (active_expiration_cycle ord rnd clk i db)) = {||}"
  using assms
proof (induction ord rnd clk i db rule: active_expiration_cycle.induct)
  case (1 ord rnd clk i db)
  show ?case
  proof (cases "fcard (fmdom (expirations db)) = 0")
    case True
    then show ?thesis by (subst active_expiration_cycle.simps) simp
  next
    case False
    let ?s = "take SAMPLE_SIZE (drop (rnd i (fcard (fmdom (expirations db)))) (ord (expirations db)))"
    obtain db' n where p: "purge_sampled (clk i) ?s db 0 = (db', n)" by fastforce
    have "rnd i (fcard (fmdom (expirations db))) < fcard (fmdom (expirations db))"
      using False "1.prems"(2) unfolding in_range_def by blast
    then have "?s \<noteq> []"
      using "1.prems"(1) by (simp add: length_order SAMPLE_SIZE_def)
    then have s: "0 < length ?s" by simp
    have "snd (purge_sampled (clk i) ?s db 0) = 0 + length ?s"
    proof (rule purge_sampled_all)
      show "distinct ?s" using enumeratesD(1) [OF "1.prems"(1)] by simp
      fix k assume "k \<in> set ?s"
      then have "k |\<in>| fmdom (expirations db)"
        using enumeratesD(2) [OF "1.prems"(1), of "expirations db"]
        by (auto simp: fmdom'_alt_def dest!: in_set_takeD in_set_dropD)
      then show "\<exists>e<clk i. fmlookup (expirations db) k = Some e"
        using "1.prems"(3) by (fastforce simp: all_overdue_def elim: fmdomE)
    qed
    then have "n = length ?s" using p by simp
    moreover have "max k 1 < 4 * k" if "0 < k" for k :: nat using that by simp
    ultimately have n: "max (length ?s) 1 < 4 * n" using s by metis
    have "all_overdue clk (fst (purge_sampled (clk i) ?s db 0))"
      by (rule purge_sampled_keeps) (auto intro: all_overdue_remove "1.prems"(3))
    then have "all_overdue clk db'" using p by simp
    with "1.IH" [OF refl refl False refl refl p [symmetric] refl refl n] "1.prems" False p n
    show ?thesis by (subst active_expiration_cycle.simps) (simp add: Let_def)
  qed
qed

section \<open>List ranges\<close>

lemma filter_enumerate_range:
  "map snd (filter (\<lambda>(i, _). a \<le> i \<and> i \<le> b) (enumerate n xs)) = drop (a - n) (take (Suc b - n) xs)"
proof (induction xs arbitrary: n)
  case (Cons x xs)
  show ?case
  proof (cases "n \<le> b")
    case True
    then have "Suc b - n = Suc (Suc b - Suc n)" by simp
    with Cons [of "Suc n"] True show ?thesis
      by (cases "a \<le> n") (auto simp: Suc_diff_Suc not_le drop_Cons')
  next
    case False
    with Cons [of "Suc n"] show ?thesis by simp
  qed
qed simp

text \<open>The index a client means: negative indices count from the end.\<close>

definition norm_index :: "nat \<Rightarrow> int \<Rightarrow> int" where
  "norm_index len i = (if i < 0 then i + int len else i)"

lemma norm_index_i32:
  "int len \<le> i32_max \<Longrightarrow> in_i32 i \<Longrightarrow> in_i32 (norm_index len i)"
  by (auto simp: norm_index_def in_i32_def i32_max_def i32_min_def)

lemma list_range_eq:
  assumes "int (length xs) \<le> i32_max" "in_i32 start" "in_i32 stop"
  shows "list_range cfg xs start stop =
           Ok (drop (as_u64 (norm_index (length xs) start))
                    (take (Suc (as_u64 (norm_index (length xs) stop))) xs))"
proof -
  have "in_i32 (int (length xs))" using assms(1) by (simp add: in_i32_def i32_min_def)
  then show ?thesis
    using norm_index_i32 [OF assms(1,2)] norm_index_i32 [OF assms(1,3)]
    by (auto simp: list_range_def Let_def add_i32_def norm_index_def filter_enumerate_range)
qed

lemma as_u64_huge: "in_i32 x \<Longrightarrow> x < 0 \<Longrightarrow> int (length xs) \<le> i32_max \<Longrightarrow> length xs \<le> as_u64 x"
  by (simp add: as_u64_neg in_i32_def i32_min_def i32_max_def)

text \<open>The range a Redis client expects: both ends inclusive, out-of-range ends clamped.\<close>

definition redis_range :: "'a list \<Rightarrow> int \<Rightarrow> int \<Rightarrow> 'a list" where
  "redis_range xs start stop =
     (let s = max 0 (norm_index (length xs) start); e = norm_index (length xs) stop in
      if e < s then [] else drop (nat s) (take (Suc (nat e)) xs))"

lemma list_range_redis:
  assumes "int (length xs) \<le> i32_max" "in_i32 start" "in_i32 stop"
    and "- int (length xs) \<le> start" "- int (length xs) \<le> stop"
  shows "list_range cfg xs start stop = Ok (redis_range xs start stop)"
proof -
  have nonneg: "0 \<le> norm_index (length xs) start" "0 \<le> norm_index (length xs) stop"
    using assms(4,5) by (auto simp: norm_index_def)
  then show ?thesis
    using list_range_eq [OF assms(1-3), of cfg]
    by (auto simp: redis_range_def Let_def as_u64_nonneg norm_index_i32 assms(1-3) max_def)
qed

lemma list_range_stop_below:
  assumes "int (length xs) \<le> i32_max" "in_i32 start" "in_i32 stop"
    and "0 \<le> norm_index (length xs) start" "stop < - int (length xs)"
  shows "list_range cfg xs start stop = Ok (drop (nat (norm_index (length xs) start)) xs)"
proof -
  have "norm_index (length xs) stop < 0" using assms(5) by (simp add: norm_index_def)
  then have "length xs \<le> as_u64 (norm_index (length xs) stop)"
    using assms norm_index_i32 as_u64_huge by blast
  then show ?thesis
    using list_range_eq [OF assms(1-3), of cfg] assms(4)
    by (simp add: as_u64_nonneg norm_index_i32 assms(1-3))
qed

lemma list_range_start_below:
  assumes "int (length xs) \<le> i32_max" "in_i32 start" "in_i32 stop" "start < - int (length xs)"
  shows "list_range cfg xs start stop = Ok []"
proof -
  have "norm_index (length xs) start < 0" using assms(4) by (simp add: norm_index_def)
  then have "length xs \<le> as_u64 (norm_index (length xs) start)"
    using assms norm_index_i32 as_u64_huge by blast
  then show ?thesis using list_range_eq [OF assms(1-3), of cfg] by simp
qed

section \<open>Runs of the database\<close>

text \<open>
  One step is one call of a public method, with any arguments of the Rust types, or one wake-up of
  the reaper.
\<close>

inductive db_step :: "DB \<Rightarrow> DB \<Rightarrow> bool" where
  step_set: "utf8_valid k \<Longrightarrow> flat_object v \<Longrightarrow> db_step db (snd (DB_set db k v e))"
| step_get: "db_step db (snd (DB_get now db k))"
| step_delete: "db_step db (snd (DB_delete db k))"
| step_lpush: "utf8_valid k \<Longrightarrow> list_all string_object vs \<Longrightarrow> db_step db (snd (DB_lpush db k vs))"
| step_rpush: "utf8_valid k \<Longrightarrow> list_all string_object vs \<Longrightarrow> db_step db (snd (DB_rpush db k vs))"
| step_lrange: "db_step db (snd (DB_lrange cfg now db k start stop))"
| step_expire: "db_step db (snd (DB_expire db k e opt))"
| step_reaper: "db_step db (active_expiration_cycle ord rnd clk 0 db)"

inductive db_reachable :: "DB \<Rightarrow> bool" where
  reach_new: "db_reachable new_in_memory"
| reach_step: "db_reachable db \<Longrightarrow> db_step db db' \<Longrightarrow> db_reachable db'"

lemmas db_inv_ops = db_inv_set db_inv_get db_inv_delete db_inv_lpush db_inv_rpush db_inv_lrange
  db_inv_expire db_inv_cycle

lemma db_step_inv: "db_step db db' \<Longrightarrow> db_inv db \<Longrightarrow> db_inv db'"
  by (induction rule: db_step.induct) (simp_all add: db_inv_ops)

lemma db_reachable_inv: "db_reachable db \<Longrightarrow> db_inv db"
  by (induction rule: db_reachable.induct) (auto intro: db_inv_new db_step_inv)

section \<open>Properties\<close>



text \<open>
  C15. Read your writes: after \<open>set\<close>, a \<open>get\<close> returns the value until its deadline has passed and
  \<open>nil\<close> afterwards, whatever other keys were read (and lazily expired) in between.
\<close>

theorem get_after_set:
  assumes "list_all (\<lambda>(t', k'). t' \<le> t) reads"
  shows "fst (db_look t (dbs.looks reads (snd (DB_set db k v e))) k) =
           (case e of Some d \<Rightarrow> if d < t then nil_object else v | None \<Rightarrow> v)"
  using dbs.look_after_put [OF assms, of db k v e] by (simp add: db_put_def)

theorem get_after_set_witness:
  "fst (db_look 12 (dbs.looks [(11, ''a''), (12, ''k'')]
       (snd (DB_set new_in_memory ''k'' (RO_String ''v'') (Some 12)))) ''k'') = RO_String ''v''"
proof -
  have "list_all (\<lambda>(t', k'). t' \<le> 12) [(11 :: nat, ''a''), (12, ''k'')]" by simp
  from get_after_set [OF this, of new_in_memory "''k''" "RO_String ''v''" "Some 12"]
  show ?thesis by simp
qed

text \<open>
  Frame: \<open>set\<close> changes what no other key shows, at any time.
\<close>

theorem set_frame:
  assumes "k' \<noteq> k"
  shows "live t (snd (DB_set db k v e)) k' = live t db k'"
  using assms by (simp add: live_set)

theorem set_frame_witness:
  "live 5 (snd (DB_set new_in_memory ''a'' (RO_String ''1'') None)) ''b'' = live 5 new_in_memory ''b''"
  by (rule set_frame) simp

text \<open>
  C16. Lazy expiration is invisible and effective: a \<open>get\<close> changes what no key shows from then on,
  and a key found past its deadline is gone from both maps.
\<close>

theorem get_lazy_expiration:
  assumes "t \<le> t'"
  shows "live t' (snd (DB_get t db k)) = live t' db \<and>
         (is_expired t db k \<longrightarrow> fmlookup (data (snd (DB_get t db k))) k = None \<and>
            fmlookup (expirations (snd (DB_get t db k))) k = None)"
  using live_get [OF assms] by (simp add: get_state remove_key_def)

theorem get_lazy_expiration_witness:
  "fmlookup (data (snd (DB_get 10
     \<lparr>data = fmap_of_list [(''k'', RO_String ''v'')], expirations = fmap_of_list [(''k'', 9)]\<rparr> ''k'')))
     ''k'' = None"
proof -
  let ?db = "\<lparr>data = fmap_of_list [(''k'', RO_String ''v'')], expirations = fmap_of_list [(''k'', 9)]\<rparr>"
  have "is_expired 10 ?db ''k''" by code_simp
  with get_lazy_expiration [of 10 10 ?db "''k''"] show ?thesis by simp
qed

text \<open>
  C17. The background reaper is invisible: whatever keys it samples and however often it re-runs,
  what clients see from the latest clock reading on does not change.
\<close>

theorem reaper_invisible:
  assumes "\<And>rnd clk j. (rnd, clk) \<in> set wakeups \<Longrightarrow> clk j \<le> t"
  shows "live t (active_expiration_task ord wakeups db) = live t db"
  using assms by (rule task_live)

theorem reaper_invisible_witness:
  "live 9 (active_expiration_task (\<lambda>m. [''k'']) [(\<lambda>i n. 0, \<lambda>i. 8)]
      (snd (DB_set new_in_memory ''k'' (RO_String ''v'') (Some 7)))) =
   live 9 (snd (DB_set new_in_memory ''k'' (RO_String ''v'') (Some 7)))"
  by (rule reaper_invisible) auto

text \<open>
  C18. The reaper is thorough: when every deadline has passed, one cycle keeps re-running until no
  key with a deadline is left.
\<close>

theorem reaper_clears_overdue:
  assumes "enumerates ord" and "in_range rnd" and "all_overdue clk db"
  shows "fmdom (expirations (active_expiration_cycle ord rnd clk i db)) = {||}"
  using assms by (rule cycle_purges_overdue)

theorem reaper_clears_overdue_witness:
  "fmdom (expirations (active_expiration_cycle key_order (\<lambda>i n. n - 1) (\<lambda>i. 8) 0
      (snd (DB_set new_in_memory ''k'' (RO_String ''v'') (Some 7))))) = {||}"
proof (rule reaper_clears_overdue)
  show "enumerates (key_order :: instant iter_order)" by (rule key_order_enumerates)
  show "in_range (\<lambda>i n. n - 1)" by (simp add: in_range_def)
  show "all_overdue (\<lambda>i. 8) (snd (DB_set new_in_memory ''k'' (RO_String ''v'') (Some 7)))"
    by (simp add: all_overdue_def DB_set_def new_in_memory_def)
qed

text \<open>
  C20. \<open>lrange\<close> on a list returns what Redis specifies, for every pair of 32-bit indices that do not
  reach below the start of the list, negative ones included.
\<close>

theorem lrange_matches_redis:
  assumes "fmlookup (data db) k = Some (RO_List xs)" and "\<not> is_expired now db k"
    and "int (length xs) \<le> i32_max" "in_i32 start" "in_i32 stop"
    and "- int (length xs) \<le> start" "- int (length xs) \<le> stop"
  shows "DB_lrange cfg now db k start stop = (Ok (RO_List (redis_range xs start stop)), db)"
  using assms list_range_redis [OF assms(3-7), of cfg] by (simp add: DB_lrange_def)

theorem lrange_matches_redis_witness:
  "fst (DB_lrange \<lparr>overflow_checks = True, vec_limit = 9\<rparr> 0
     \<lparr>data = fmap_of_list [(''l'', RO_List (map RO_String [''a'', ''b'', ''c'']))],
      expirations = fmempty\<rparr> ''l'' (-2) (-1)) = Ok (RO_List [RO_String ''b'', RO_String ''c''])"
proof -
  let ?xs = "map RO_String [''a'', ''b'', ''c'']"
  let ?db = "\<lparr>data = fmap_of_list [(''l'', RO_List ?xs)], expirations = fmempty\<rparr> :: DB"
  have "redis_range ?xs (-2) (-1) = [RO_String ''b'', RO_String ''c'']" by code_simp
  moreover have "DB_lrange \<lparr>overflow_checks = True, vec_limit = 9\<rparr> 0 ?db ''l'' (-2) (-1) =
      (Ok (RO_List (redis_range ?xs (-2) (-1))), ?db)"
    by (rule lrange_matches_redis) code_simp+
  ultimately show ?thesis by simp
qed

text \<open>
  Below the start of the list \<open>lrange\<close> departs from Redis: an index that stays negative after
  normalisation is cast to a huge \<open>usize\<close>, so a too small \<open>start\<close> yields the empty list where Redis
  clamps it to 0, and a too small \<open>stop\<close> yields everything from \<open>start\<close> on where Redis yields nothing.
\<close>

theorem lrange_below_start:
  assumes "fmlookup (data db) k = Some (RO_List xs)" and "\<not> is_expired now db k"
    and "int (length xs) \<le> i32_max" "in_i32 start" "in_i32 stop"
  shows "(start < - int (length xs) \<longrightarrow>
            DB_lrange cfg now db k start stop = (Ok (RO_List []), db)) \<and>
         (0 \<le> start \<and> stop < - int (length xs) \<longrightarrow>
            DB_lrange cfg now db k start stop = (Ok (RO_List (drop (nat start) xs)), db))"
  using assms list_range_start_below [OF assms(3-5), of cfg] list_range_stop_below [OF assms(3-5), of cfg]
  by (auto simp: DB_lrange_def norm_index_def)

theorem lrange_below_start_witness:
  "fst (DB_lrange \<lparr>overflow_checks = True, vec_limit = 9\<rparr> 0
     \<lparr>data = fmap_of_list [(''l'', RO_List [RO_String ''a''])], expirations = fmempty\<rparr> ''l'' 0 (-5)) =
     Ok (RO_List [RO_String ''a''])"
proof -
  let ?db = "\<lparr>data = fmap_of_list [(''l'', RO_List [RO_String ''a''])], expirations = fmempty\<rparr> :: DB"
  have h: "fmlookup (data ?db) ''l'' = Some (RO_List [RO_String ''a''])" "\<not> is_expired 0 ?db ''l''"
    "int (length [RO_String ''a'']) \<le> i32_max" "in_i32 0" "in_i32 (-5)"
    by code_simp+
  show ?thesis
    using lrange_below_start [OF h, of "\<lparr>overflow_checks = True, vec_limit = 9\<rparr>"] by simp
qed

section \<open>Pushes and deadlines\<close>

text \<open>The values of a push one by one, as separate commands.\<close>

definition one_by_one :: "(DB \<Rightarrow> bytes \<Rightarrow> RedisObject list \<Rightarrow> unit db_result) \<Rightarrow> DB \<Rightarrow> bytes \<Rightarrow> RedisObject list \<Rightarrow> DB" where
  "one_by_one push db key vals = foldl (\<lambda>db v. snd (push db key [v])) db vals"

lemma one_by_one_simps [simp]:
  "one_by_one push db key [] = db"
  "one_by_one push db key (v # vs) = one_by_one push (snd (push db key [v])) key vs"
  by (simp_all add: one_by_one_def)

lemma fmupd_same: "fmlookup m k = Some v \<Longrightarrow> fmupd k v m = m"
  by (intro fmap_ext) auto

lemma rpush_list_each:
  "fmlookup (data db) key = Some (RO_List xs) \<Longrightarrow>
     one_by_one DB_rpush db key vs = db\<lparr>data := fmupd key (RO_List (xs @ vs)) (data db)\<rparr>"
  by (induction vs arbitrary: db xs) (simp_all add: DB_rpush_def fmupd_same)

lemma lpush_list_each:
  "fmlookup (data db) key = Some (RO_List xs) \<Longrightarrow>
     one_by_one DB_lpush db key vs = db\<lparr>data := fmupd key (RO_List (rev vs @ xs)) (data db)\<rparr>"
  by (induction vs arbitrary: db xs) (simp_all add: DB_lpush_def fmupd_same)

lemma push_string_each:
  "fmlookup (data db) key = Some (RO_String s) \<Longrightarrow> one_by_one DB_rpush db key vs = db"
  "fmlookup (data db) key = Some (RO_String s) \<Longrightarrow> one_by_one DB_lpush db key vs = db"
  by (induction vs) (simp_all add: DB_rpush_def DB_lpush_def)

lemma fmupd_inject: "fmupd k v m = fmupd k v' m \<longleftrightarrow> v = v'"
  by (metis fmupd_lookup option.inject)

lemma data_update_inject: "db\<lparr>data := d\<rparr> = db\<lparr>data := d'\<rparr> \<longleftrightarrow> d = d'"
  by (metis DB.select_convs(1) DB.surjective DB.update_convs(1))

text \<open>
  C27. A push of several values against the same values one by one: \<open>RPUSH\<close> gives the same list
  either way; \<open>LPUSH\<close> does when it creates the list, but on an existing one only if the values read
  the same in both directions.
\<close>

theorem push_in_batches:
  assumes "vs \<noteq> []"
  shows "snd (DB_rpush db key vs) = one_by_one DB_rpush db key vs \<and>
    (snd (DB_lpush db key vs) = one_by_one DB_lpush db key vs \<longleftrightarrow>
       (case fmlookup (data db) key of Some (RO_List xs) \<Rightarrow> rev vs = vs | _ \<Rightarrow> True))"
proof (cases "fmlookup (data db) key")
  case None
  from assms obtain v ws where "vs = v # ws" by (cases vs) auto
  with None show ?thesis
    by (simp add: DB_rpush_def DB_lpush_def rpush_list_each lpush_list_each)
next
  case (Some ro)
  then show ?thesis
    by (cases ro) (auto simp: DB_rpush_def DB_lpush_def rpush_list_each lpush_list_each push_string_each
        data_update_inject fmupd_inject)
qed

theorem push_in_batches_witness:
  "snd (DB_lpush (snd (DB_lpush new_in_memory ''l'' [RO_String ''z''])) ''l'' [RO_String ''a'', RO_String ''b'']) \<noteq>
   one_by_one DB_lpush (snd (DB_lpush new_in_memory ''l'' [RO_String ''z''])) ''l'' [RO_String ''a'', RO_String ''b'']"
  using push_in_batches [of "[RO_String ''a'', RO_String ''b'']" "snd (DB_lpush new_in_memory ''l'' [RO_String ''z''])" "''l''"]
  by (simp add: DB_lpush_def new_in_memory_def del: one_by_one_simps)



text \<open>
  C28. The options of \<open>EXPIRE\<close> on an existing key: without one the deadline is replaced; \<open>NX\<close> keeps a
  deadline that is there and \<open>XX\<close> adds none that is not; \<open>GT\<close> takes the later and \<open>LT\<close> the earlier of
  the two, and neither gives a deadline to a key that has none.  No value and no other deadline
  changes.
\<close>

theorem expire_option_table:
  assumes "key |\<in>| fmdom (data db)" and "cur = fmlookup (expirations db) key"
  shows "fmlookup (expirations (snd (DB_expire db key e None))) key = Some e \<and>
    fmlookup (expirations (snd (DB_expire db key e (Some ''NX'')))) key = Some (case cur of None \<Rightarrow> e | Some c \<Rightarrow> c) \<and>
    fmlookup (expirations (snd (DB_expire db key e (Some ''XX'')))) key = map_option (\<lambda>_. e) cur \<and>
    fmlookup (expirations (snd (DB_expire db key e (Some ''GT'')))) key = map_option (max e) cur \<and>
    fmlookup (expirations (snd (DB_expire db key e (Some ''LT'')))) key = map_option (min e) cur \<and>
    (\<forall>opt. data (snd (DB_expire db key e opt)) = data db \<and>
       (\<forall>k. k \<noteq> key \<longrightarrow> fmlookup (expirations (snd (DB_expire db key e opt))) k = fmlookup (expirations db) k))"
  using assms
  by (cases cur) (auto simp: DB_expire_def Let_def max_def min_def split: option.splits bool.splits)

theorem expire_option_table_witness:
  "fmlookup (expirations (snd (DB_expire \<lparr>data = fmap_of_list [(''k'', nil_object)],
     expirations = fmap_of_list [(''k'', 3)]\<rparr> ''k'' 8 (Some ''GT'')))) ''k'' = Some 8"
proof -
  let ?db = "\<lparr>data = fmap_of_list [(''k'', nil_object)], expirations = fmap_of_list [(''k'', 3 :: instant)]\<rparr>"
  have "''k'' |\<in>| fmdom (data ?db)" by simp
  from expire_option_table [OF this refl, of 8] show ?thesis by simp
qed

end
