(* ===== verification/Rdb_Writer.thy ===== *)
theory Rdb_Writer
  imports Database
begin

text \<open>
  \<open>src/rdb/writer.rs\<close>: the snapshot format.  Each function returns the bytes it hands to the writer;
  a write error stops the sequence of file operations modelled in \<open>Persistence\<close>.  A pair of clock
  readings \<open>(Instant::now(), SystemTime::now())\<close> is an argument of \<open>write_expiry\<close>; system times are
  nanoseconds relative to the Unix epoch.  The iteration order of the two \<open>HashMap\<close>s is an argument
  of \<open>write_db\<close>.
\<close>

type_synonym system_time = int
type_synonym clocks = "nat \<Rightarrow> instant \<times> system_time"

section \<open>Fixed-width integers\<close>

definition u32_be_bytes :: "nat \<Rightarrow> bytes" where
  "u32_be_bytes n = [char_of (n div 16777216), char_of (n div 65536), char_of (n div 256), char_of n]"

definition u64_le_bytes :: "nat \<Rightarrow> bytes" where
  "u64_le_bytes n = map (\<lambda>i. char_of (n div 256 ^ i)) [0..<8]"

section \<open>Writing\<close>

text \<open>\<open>len as u8\<close> below 64; otherwise a marker and \<open>len as u32\<close>, big-endian.\<close>

definition write_length :: "nat \<Rightarrow> bytes" where
  "write_length len =
     (if len < 64 then [char_of len] else CHR 0x80 # u32_be_bytes (len mod 2 ^ 32))"

definition write_string :: "bytes \<Rightarrow> bytes" where
  "write_string s = write_length (length s) @ s"

definition write_value :: "bytes \<Rightarrow> bytes \<Rightarrow> bytes" where
  "write_value key val = [CHR 0x00] @ write_string key @ write_string val"

definition system_time_bound :: int where "system_time_bound = 2 ^ 63 * 10 ^ 9"

text \<open>\<open>SystemTime + Duration\<close> panics when the seconds leave \<open>i64\<close>.\<close>

definition system_time_add :: "system_time \<Rightarrow> duration \<Rightarrow> ('e, system_time) outcome" where
  "system_time_add t d =
     (if t + int d < system_time_bound then Ok (t + int d) else Panic InstantOverflow)"

text \<open>\<open>duration_since(UNIX_EPOCH).unwrap().as_millis() as u64\<close>.\<close>

definition epoch_millis :: "system_time \<Rightarrow> ('e, nat) outcome" where
  "epoch_millis t = (if t < 0 then Panic UnwrapOnErr else Ok (nat t div 10 ^ 6 mod 2 ^ 64))"

definition write_expiry :: "instant \<times> system_time \<Rightarrow> bytes \<Rightarrow> instant \<Rightarrow> (bytes, bytes) outcome" where
  "write_expiry now key expire_instant =
     (let (now_instant, now_system) = now in
      and_then (if expire_instant > now_instant
                then system_time_add now_system (expire_instant - now_instant)
                else Ok now_system) (\<lambda>expire_system.
      and_then (epoch_millis expire_system) (\<lambda>ms.
        Ok (write_string key @ [CHR 0xFC] @ u64_le_bytes ms))))"

fun write_list_items :: "bytes \<Rightarrow> RedisObject list \<Rightarrow> bytes" where
  "write_list_items key [] = []"
| "write_list_items key (RO_String s # xs) = write_value key s @ write_list_items key xs"
| "write_list_items key (RO_List l # xs) = write_list_items key xs"

fun write_entry :: "bytes \<Rightarrow> RedisObject \<Rightarrow> bytes" where
  "write_entry key (RO_String s) = write_string ''string'' @ write_value key s"
| "write_entry key (RO_List l) =
     write_string ''list'' @ write_length (length l) @ write_list_items key l"

fun write_entries :: "(bytes, RedisObject) fmap \<Rightarrow> bytes list \<Rightarrow> bytes" where
  "write_entries db [] = []"
| "write_entries db (key # keys) =
     (case fmlookup db key of Some val \<Rightarrow> write_entry key val | None \<Rightarrow> []) @ write_entries db keys"

fun write_expirations ::
    "clocks \<Rightarrow> nat \<Rightarrow> (bytes, instant) fmap \<Rightarrow> bytes list \<Rightarrow> (bytes, bytes) outcome" where
  "write_expirations clk i exps [] = Ok []"
| "write_expirations clk i exps (key # keys) =
     (case fmlookup exps key of
        Some e \<Rightarrow> and_then (write_expiry (clk i) key e) (\<lambda>b.
                 and_then (write_expirations clk (i + 1) exps keys) (\<lambda>bs. Ok (b @ bs)))
      | None \<Rightarrow> write_expirations clk i exps keys)"

definition write_db ::
    "RedisObject iter_order \<Rightarrow> instant iter_order \<Rightarrow> clocks \<Rightarrow>
     (bytes, RedisObject) fmap \<Rightarrow> (bytes, instant) fmap \<Rightarrow> (bytes, bytes) outcome" where
  "write_db ord_d ord_e clk db exps =
     and_then (write_expirations clk 0 exps (ord_e exps)) (\<lambda>es.
       Ok ([CHR 0xFE] @ write_length 0 @ write_entries db (ord_d db) @ es))"

definition RDB_HEADER :: bytes where "RDB_HEADER = ''REDIS0001''"

text \<open>The whole contents of a snapshot file.\<close>

definition snapshot_bytes ::
    "RedisObject iter_order \<Rightarrow> instant iter_order \<Rightarrow> clocks \<Rightarrow>
     (bytes, RedisObject) fmap \<Rightarrow> (bytes, instant) fmap \<Rightarrow> (bytes, bytes) outcome" where
  "snapshot_bytes ord_d ord_e clk db exps =
     and_then (write_db ord_d ord_e clk db exps) (\<lambda>b. Ok (RDB_HEADER @ b))"

end
