(* ===== verification/Rdb_Reader.thy ===== *)
theory Rdb_Reader
  imports Rdb_Writer
begin

text \<open>
  \<open>src/rdb/reader.rs\<close>: the snapshot reader.  A file is the list of the bytes not yet read; every
  read returns its value and the rest.  The clock pair of the \<open>i\<close>-th \<open>read_expiry\<close> is \<open>clk i\<close>.
\<close>

type_synonym 'a read = "(bytes, 'a \<times> bytes) outcome"

section \<open>Primitive reads\<close>

definition read_exact :: "nat \<Rightarrow> bytes \<Rightarrow> bytes read" where
  "read_exact n file =
     (if n \<le> length file then Ok (take n file, drop n file)
      else Err ''failed to fill whole buffer'')"

definition read_header :: "bytes \<Rightarrow> unit read" where
  "read_header file =
     and_then (read_exact 9 file) (\<lambda>(buf, file').
       if take 5 buf \<noteq> ''REDIS'' then Err ''Invalid header.'' else Ok ((), file'))"

definition read_byte :: "bytes \<Rightarrow> byte read" where
  "read_byte file = and_then (read_exact 1 file) (\<lambda>(buf, file'). Ok (hd buf, file'))"

definition u32_from_be_bytes :: "bytes \<Rightarrow> nat" where
  "u32_from_be_bytes bs = foldl (\<lambda>v b. v * 256 + code b) 0 bs"

definition u64_from_le_bytes :: "bytes \<Rightarrow> nat" where
  "u64_from_le_bytes bs = foldr (\<lambda>b v. v * 256 + code b) bs 0"

definition hex_digit :: "nat \<Rightarrow> byte" where
  "hex_digit n = (if n < 10 then char_of (48 + n) else char_of (55 + n))"

definition read_length_with_first :: "bytes \<Rightarrow> byte \<Rightarrow> nat read" where
  "read_length_with_first file first =
     (if code first < 64 then Ok (code first, file)
      else if first = CHR 0x80
      then and_then (read_exact 4 file) (\<lambda>(buf, file'). Ok (u32_from_be_bytes buf, file'))
      else Err (''Unsupported length encoding prefix: 0x'' @
                [hex_digit (code first div 16), hex_digit (code first mod 16)]))"

definition read_length :: "bytes \<Rightarrow> nat read" where
  "read_length file =
     and_then (read_byte file) (\<lambda>(first, file'). read_length_with_first file' first)"

definition read_string :: "bytes \<Rightarrow> bytes read" where
  "read_string file =
     and_then (read_length file) (\<lambda>(len, file1).
     and_then (read_exact len file1) (\<lambda>(buf, file2). Ok (from_utf8_lossy buf, file2)))"

definition read_string_with_first_len :: "bytes \<Rightarrow> byte \<Rightarrow> bytes read" where
  "read_string_with_first_len file first =
     and_then (read_length_with_first file first) (\<lambda>(len, file1).
     and_then (read_exact len file1) (\<lambda>(buf, file2). Ok (from_utf8_lossy buf, file2)))"

definition read_expiry :: "instant \<times> system_time \<Rightarrow> bytes \<Rightarrow> instant read" where
  "read_expiry now file =
     and_then (read_exact 8 file) (\<lambda>(buf, file').
       let ms = u64_from_le_bytes buf;
           target_system_time = int (from_millis ms);
           (now_instant, now_system) = now;
           dur = nat (target_system_time - now_system)
       in and_then (instant_add now_instant dur) (\<lambda>e. Ok (e, file')))"

section \<open>The entry loop\<close>

text \<open>The item loop of a \<open>LIST\<close> entry: the key of the first item, and the items.\<close>

fun read_list_items ::
    "nat \<Rightarrow> bytes option \<Rightarrow> RedisObject list \<Rightarrow> bytes \<Rightarrow> (bytes option \<times> RedisObject list) read" where
  "read_list_items 0 key vals file = Ok ((key, vals), file)"
| "read_list_items (Suc n) key vals file =
     and_then (read_byte file) (\<lambda>(value_type, f1).
     if value_type \<noteq> CHR 0x00
     then Err (''Unexpected value type marker for LIST item: '' @ format_nat (code value_type))
     else
     and_then (read_string f1) (\<lambda>(current_key, f2).
     and_then (read_string f2) (\<lambda>(item, f3).
     read_list_items n (if key = None then Some current_key else key)
       (vals @ [RO_String item]) f3)))"

type_synonym loaded = "(bytes, RedisObject) fmap \<times> (bytes, instant) fmap"

lemma read_exact_len:
  "read_exact n file = Ok (b, r) \<Longrightarrow> length r \<le> length file \<and> length b = n \<and> length r + n = length file"
  by (auto simp: read_exact_def split: if_splits)

lemma read_byte_len: "read_byte file = Ok (b, r) \<Longrightarrow> length r < length file"
  by (auto simp: read_byte_def outcome_simps dest!: read_exact_len)

lemma read_length_with_first_len: "read_length_with_first file b = Ok (n, r) \<Longrightarrow> length r \<le> length file"
  by (auto simp: read_length_with_first_def outcome_simps split: if_splits dest: read_exact_len)

lemma read_length_len: "read_length file = Ok (n, r) \<Longrightarrow> length r \<le> length file"
  by (fastforce simp: read_length_def outcome_simps dest: read_byte_len read_length_with_first_len)

lemma read_string_len: "read_string file = Ok (s, r) \<Longrightarrow> length r \<le> length file"
  by (fastforce simp: read_string_def outcome_simps dest: read_length_len read_exact_len)

lemma read_string_with_first_len_len:
  "read_string_with_first_len file b = Ok (s, r) \<Longrightarrow> length r \<le> length file"
  by (fastforce simp: read_string_with_first_len_def outcome_simps
      dest: read_length_with_first_len read_exact_len)

lemma read_expiry_len: "read_expiry now file = Ok (e, r) \<Longrightarrow> length r \<le> length file"
  by (cases now) (auto simp: read_expiry_def Let_def outcome_simps dest: read_exact_len)

lemma read_list_items_len:
  "read_list_items n key vals f = Ok (x, r) \<Longrightarrow> length r \<le> length f"
  by (induction n key vals f rule: read_list_items.induct)
    (fastforce simp: outcome_simps split: if_splits dest: read_byte_len read_string_len)+

lemmas read_lens = read_byte_len read_length_len read_string_len read_string_with_first_len_len
  read_expiry_len read_list_items_len

function rdb_loop ::
    "config \<Rightarrow> clocks \<Rightarrow> nat \<Rightarrow> bytes \<Rightarrow> (bytes, RedisObject) fmap \<Rightarrow> (bytes, instant) fmap \<Rightarrow>
     (bytes, loaded) outcome" where
  "rdb_loop cfg clk i file db exps =
     (case read_byte file of
        Panic p \<Rightarrow> Panic p
      | Err e \<Rightarrow> Ok (db, exps)
      | Ok (marker, f1) \<Rightarrow>
          if marker = CHR 0xFE
          then and_then (read_length f1) (\<lambda>(_, f2). rdb_loop cfg clk i f2 db exps)
          else if marker = CHR 0xFC
          then and_then (read_string f1) (\<lambda>(key, f2).
               and_then (read_expiry (clk i) f2) (\<lambda>(expiry, f3).
               rdb_loop cfg clk (i + 1) f3 db (fmupd key expiry exps)))
          else if marker = CHR 0xFF then Ok (db, exps)
          else
            and_then (read_string_with_first_len f1 marker) (\<lambda>(token, f2).
            if to_ascii_uppercase token = ''STRING''
            then and_then (read_byte f2) (\<lambda>(value_type, f3).
                 if value_type \<noteq> CHR 0x00
                 then Err (''Unexpected value type marker for STRING: '' @
                           format_nat (code value_type))
                 else
                 and_then (read_string f3) (\<lambda>(key, f4).
                 and_then (read_string f4) (\<lambda>(val, f5).
                 rdb_loop cfg clk i f5 (fmupd key (RO_String val) db) exps)))
            else if to_ascii_uppercase token = ''LIST''
            then and_then (read_length f2) (\<lambda>(len, f3).
                 if vec_limit cfg < len then Panic CapacityOverflow
                 else
                 and_then (read_list_items len None [] f3) (\<lambda>(kvs, f4).
                 rdb_loop cfg clk i f4
                   (case kvs of (Some k, vals) \<Rightarrow> fmupd k (RO_List vals) db
                              | (None, vals) \<Rightarrow> db) exps))
            else and_then (read_byte f2) (\<lambda>(expiry_opcode, f3).
                 if expiry_opcode \<noteq> CHR 0xFC
                 then Err (''Unknown opcode: '' @ format_nat (code marker))
                 else
                 and_then (read_expiry (clk i) f3) (\<lambda>(expiry, f4).
                 rdb_loop cfg clk (i + 1) f4 db (fmupd token expiry exps)))))"
  by pat_completeness auto
termination
  by (relation "measure (\<lambda>(cfg, clk, i, file, db, exps). length file)")
    (force dest!: read_lens)+

declare rdb_loop.simps [simp del]

definition rdb_parse :: "config \<Rightarrow> clocks \<Rightarrow> bytes \<Rightarrow> (bytes, loaded) outcome" where
  "rdb_parse cfg clk file =
     and_then (read_header file) (\<lambda>(_, f1). rdb_loop cfg clk 0 f1 fmempty fmempty)"

section \<open>Reading back what the writer wrote\<close>

lemma u32_be_round_trip: "n < 2 ^ 32 \<Longrightarrow> u32_from_be_bytes (u32_be_bytes n) = n"
proof -
  assume n: "n < 2 ^ 32"
  have "n div 16777216 < 256" using n by (simp add: less_mult_imp_div_less)
  moreover have "n div 65536 = (n div 16777216) * 256 + n div 65536 mod 256"
    using div_mult_mod_eq [of "n div 65536" 256] by (simp add: div_mult2_eq [symmetric])
  moreover have "n div 256 = (n div 65536) * 256 + n div 256 mod 256"
    using div_mult_mod_eq [of "n div 256" 256] by (simp add: div_mult2_eq [symmetric])
  moreover have "n = (n div 256) * 256 + n mod 256" by simp
  ultimately show ?thesis
    by (simp add: u32_from_be_bytes_def u32_be_bytes_def)
qed

lemma le_bytes_value:
  "foldr (\<lambda>b v. v * 256 + code b) (map (\<lambda>i. char_of (n div 256 ^ i)) [0..<k]) 0 = n mod 256 ^ k"
proof (induction k arbitrary: n)
  case (Suc k)
  have "map (\<lambda>i. char_of (n div 256 ^ i)) [0..<Suc k] =
      char_of n # map (\<lambda>i. char_of (n div 256 div 256 ^ i)) [0..<k]"
    by (simp add: upt_conv_Cons map_Suc_upt [symmetric] div_mult2_eq del: upt_Suc)
  with Suc [of "n div 256"] show ?case
    by (simp add: mod_mult2_eq mult.commute)
qed simp

lemma u64_le_round_trip: "n < 2 ^ 64 \<Longrightarrow> u64_from_le_bytes (u64_le_bytes n) = n"
  unfolding u64_from_le_bytes_def u64_le_bytes_def by (subst le_bytes_value) simp

lemma length_u64_le_bytes [simp]: "length (u64_le_bytes n) = 8"
  by (simp add: u64_le_bytes_def)

lemma read_exact_append [simp]: "length a = n \<Longrightarrow> read_exact n (a @ r) = Ok (a, r)"
  by (auto simp: read_exact_def)

lemma read_byte_Cons [simp]: "read_byte (b # r) = Ok (b, r)"
  by (simp add: read_byte_def read_exact_def)

lemma rdb_loop_Nil [simp]: "rdb_loop cfg clk i [] db exps = Ok (db, exps)"
  by (subst rdb_loop.simps) (simp add: read_byte_def read_exact_def)

text \<open>The first byte of a length is never one of the section markers.\<close>

lemma write_length_Cons:
  obtains b bs where "write_length n = b # bs" "code b < 64 \<or> b = CHR 0x80"
    "\<And>r. n < 2 ^ 32 \<Longrightarrow> read_length_with_first (bs @ r) b = Ok (n, r)"
proof (cases "n < 64")
  case True
  then show ?thesis
    by (intro that [of "char_of n" "[]"]) (simp_all add: write_length_def read_length_with_first_def)
next
  case False
  have "length (u32_be_bytes (n mod 2 ^ 32)) = 4" by (simp add: u32_be_bytes_def)
  with False show ?thesis
    by (intro that [of "CHR 0x80" "u32_be_bytes (n mod 2 ^ 32)"])
      (simp_all add: write_length_def read_length_with_first_def u32_be_round_trip)
qed

lemma read_length_write [simp]: "n < 2 ^ 32 \<Longrightarrow> read_length (write_length n @ r) = Ok (n, r)"
  by (rule write_length_Cons [of n]) (simp add: read_length_def)

definition storable :: "bytes \<Rightarrow> bool" where
  "storable s \<longleftrightarrow> utf8_valid s \<and> length s < 2 ^ 32"

lemma read_string_write [simp]: "storable s \<Longrightarrow> read_string (write_string s @ r) = Ok (s, r)"
  by (simp add: read_string_def write_string_def storable_def)

lemma write_string_Cons:
  obtains b bs where "write_string s = b # bs" "b \<noteq> CHR 0xFE" "b \<noteq> CHR 0xFC" "b \<noteq> CHR 0xFF"
    "storable s \<longrightarrow> (\<forall>r. read_string_with_first_len (bs @ r) b = Ok (s, r))"
proof (rule write_length_Cons [of "length s"])
  fix b bs
  assume "write_length (length s) = b # bs" "code b < 64 \<or> b = CHR 0x80"
    "\<And>r. length s < 2 ^ 32 \<Longrightarrow> read_length_with_first (bs @ r) b = Ok (length s, r)"
  then show ?thesis
    by (intro that [of b "bs @ s"])
      (auto simp: write_string_def read_string_with_first_len_def storable_def)
qed

lemma read_list_items_write:
  assumes "list_all string_object xs" "storable key"
    "\<And>s. RO_String s \<in> set xs \<Longrightarrow> storable s"
  shows "read_list_items (length xs) k vals (write_list_items key xs @ r) =
           Ok ((if k = None \<and> xs \<noteq> [] then Some key else k, vals @ xs), r)"
  using assms
proof (induction xs arbitrary: k vals)
  case (Cons x xs)
  then obtain s where x: "x = RO_String s" by (cases x) auto
  with Cons show ?case by (simp add: write_value_def)
qed simp

lemma upper_string [simp]: "to_ascii_uppercase ''string'' = ''STRING''"
  and upper_list [simp]: "to_ascii_uppercase ''list'' = ''LIST''"
  by code_simp+

lemma storable_tokens [simp]: "storable ''string''" "storable ''list''"
  by (simp_all add: storable_def ascii_utf8_valid is_ascii_def)

text \<open>What the reader makes of an entry: a list without items leaves no trace of its key.\<close>

definition load_entry ::
    "bytes \<Rightarrow> RedisObject \<Rightarrow> (bytes, RedisObject) fmap \<Rightarrow> (bytes, RedisObject) fmap" where
  "load_entry key val db = (if val = RO_List [] then db else fmupd key val db)"

fun storable_object :: "config \<Rightarrow> RedisObject \<Rightarrow> bool" where
  "storable_object cfg (RO_String s) = storable s"
| "storable_object cfg (RO_List xs) \<longleftrightarrow>
     length xs < 2 ^ 32 \<and> length xs \<le> vec_limit cfg \<and> list_all string_object xs \<and>
     (\<forall>s. RO_String s \<in> set xs \<longrightarrow> storable s)"

lemma rdb_loop_entry:
  assumes "storable key" "storable_object cfg val"
  shows "rdb_loop cfg clk i (write_entry key val @ r) db exps =
           rdb_loop cfg clk i r (load_entry key val db) exps"
proof (cases val)
  case (RO_String s)
  obtain b bs where "write_string ''string'' = b # bs" "b \<noteq> CHR 0xFE" "b \<noteq> CHR 0xFC" "b \<noteq> CHR 0xFF"
    "storable ''string'' \<longrightarrow> (\<forall>r. read_string_with_first_len (bs @ r) b = Ok (''string'', r))"
    by (rule write_string_Cons [of "''string''"])
  with RO_String assms show ?thesis
    by (simp add: rdb_loop.simps [of _ _ _ "b # _"] write_value_def load_entry_def)
next
  case (RO_List xs)
  obtain b bs where "write_string ''list'' = b # bs" "b \<noteq> CHR 0xFE" "b \<noteq> CHR 0xFC" "b \<noteq> CHR 0xFF"
    "storable ''list'' \<longrightarrow> (\<forall>r. read_string_with_first_len (bs @ r) b = Ok (''list'', r))"
    by (rule write_string_Cons [of "''list''"])
  with RO_List assms show ?thesis
    by (auto simp: rdb_loop.simps [of _ _ _ "b # _"] load_entry_def read_list_items_write)
qed

fun load_entries ::
    "(bytes, RedisObject) fmap \<Rightarrow> bytes list \<Rightarrow> (bytes, RedisObject) fmap \<Rightarrow>
     (bytes, RedisObject) fmap" where
  "load_entries m [] db = db"
| "load_entries m (key # keys) db =
     load_entries m keys (case fmlookup m key of Some val \<Rightarrow> load_entry key val db | None \<Rightarrow> db)"

lemma rdb_loop_entries:
  assumes "\<And>k v. fmlookup m k = Some v \<Longrightarrow> storable k \<and> storable_object cfg v"
  shows "rdb_loop cfg clk i (write_entries m keys @ r) db exps =
           rdb_loop cfg clk i r (load_entries m keys db) exps"
proof (induction keys arbitrary: db)
  case (Cons key keys)
  then show ?case
    using assms [of key] by (cases "fmlookup m key") (simp_all add: rdb_loop_entry)
qed simp

lemma load_entries_lookup:
  "fmlookup (load_entries m keys db) k =
     (if k \<in> set keys \<and> fmlookup m k \<noteq> None \<and> fmlookup m k \<noteq> Some (RO_List [])
      then fmlookup m k else fmlookup db k)"
  by (induction keys arbitrary: db) (auto simp: load_entry_def split: option.split)

subsection \<open>Deadlines\<close>

text \<open>
  \<open>clock_ok delta horizon clk\<close>: during one save or load the system clock stays \<open>delta\<close> ahead of the
  monotonic clock, is past the Unix epoch and does not pass \<open>horizon\<close>.
\<close>

definition clock_ok :: "int \<Rightarrow> int \<Rightarrow> clocks \<Rightarrow> bool" where
  "clock_ok delta horizon clk \<longleftrightarrow>
     (\<forall>i. snd (clk i) = int (fst (clk i)) + delta \<and> 0 \<le> snd (clk i) \<and> snd (clk i) \<le> horizon)"

text \<open>System times whose milliseconds fit \<open>u64\<close>.\<close>

definition representable :: "int \<Rightarrow> bool" where
  "representable t \<longleftrightarrow> t < 2 ^ 64 * 10 ^ 6"

text \<open>The milliseconds a save records for a deadline, and the deadline a load makes of them.\<close>

definition saved_ms :: "instant \<times> system_time \<Rightarrow> instant \<Rightarrow> nat" where
  "saved_ms now e =
     nat (if fst now < e then snd now + int (e - fst now) else snd now) div 10 ^ 6"

definition loaded_deadline :: "instant \<times> system_time \<Rightarrow> nat \<Rightarrow> instant" where
  "loaded_deadline now ms = fst now + nat (int (from_millis ms) - snd now)"

text \<open>
  How a deadline comes back: on the system clock it moves by less than a millisecond towards the
  past, or to the time of the save or load if that is later.
\<close>

definition reloaded :: "int \<Rightarrow> int \<Rightarrow> int \<Rightarrow> instant \<Rightarrow> instant \<Rightarrow> bool" where
  "reloaded dw dr horizon e e' \<longleftrightarrow>
     int e + dw - 10 ^ 6 < int e' + dr \<and> int e' + dr \<le> max (int e + dw) horizon"

lemma clock_okD:
  assumes "clock_ok delta horizon clk"
  shows "snd (clk i) = int (fst (clk i)) + delta" "0 \<le> snd (clk i)" "snd (clk i) \<le> horizon"
  using assms unfolding clock_ok_def by blast+

lemma saved_ms_bounds:
  assumes "clock_ok dw horizon clk" "representable (int e + dw)" "representable horizon"
  shows "saved_ms (clk i) e < 2 ^ 64"
    and "int e + dw - 10 ^ 6 < int (from_millis (saved_ms (clk i) e))"
    and "int (from_millis (saved_ms (clk i) e)) \<le> max (int e + dw) horizon"
proof -
  note S = clock_okD [OF assms(1), of i]
  define t where "t = max (int e + dw) (snd (clk i))"
  have t: "0 \<le> t" "t < 2 ^ 64 * 10 ^ 6" "t \<le> max (int e + dw) horizon" "int e + dw \<le> t"
    using S assms(2,3) by (auto simp: t_def representable_def)
  have ms: "saved_ms (clk i) e = nat t div 10 ^ 6"
    using S by (auto simp: saved_ms_def t_def of_nat_diff max_def)
  have "nat t < 2 ^ 64 * 10 ^ 6" using t(1,2) by simp
  then show "saved_ms (clk i) e < 2 ^ 64" unfolding ms by (rule less_mult_imp_div_less)
  have "nat t = nat t div 10 ^ 6 * 10 ^ 6 + nat t mod 10 ^ 6" "nat t mod 10 ^ 6 < 10 ^ 6" by simp_all
  then have fm: "from_millis (saved_ms (clk i) e) \<le> nat t"
    "nat t < from_millis (saved_ms (clk i) e) + 10 ^ 6"
    unfolding from_millis_def ms by linarith+
  show "int e + dw - 10 ^ 6 < int (from_millis (saved_ms (clk i) e))"
    using fm(2) t(1,4) by simp
  show "int (from_millis (saved_ms (clk i) e)) \<le> max (int e + dw) horizon"
    using fm(1) t(1,3) by linarith
qed

lemma write_expiry_ok:
  assumes "clock_ok dw horizon clk" "representable (int e + dw)" "representable horizon"
  shows "write_expiry (clk i) key e =
           Ok (write_string key @ [CHR 0xFC] @ u64_le_bytes (saved_ms (clk i) e))"
proof -
  note S = clock_okD [OF assms(1), of i]
  obtain I T where c: "clk i = (I, T)" by (cases "clk i")
  have "T + int (e - I) < system_time_bound" if "I < e"
    using S(1) c that assms(2) by (simp add: representable_def system_time_bound_def)
  then show ?thesis
    using S c saved_ms_bounds(1) [OF assms, of i]
    by (auto simp: write_expiry_def system_time_add_def epoch_millis_def saved_ms_def)
qed

lemma loaded_deadline_bounds:
  assumes "clock_ok dr horizon clk"
  shows "int (from_millis ms) \<le> int (loaded_deadline (clk i) ms) + dr"
    and "int (loaded_deadline (clk i) ms) + dr \<le> max (int (from_millis ms)) horizon"
  using clock_okD [OF assms, of i] by (auto simp: loaded_deadline_def)

text \<open>A key that the reader would take for an entry tag.\<close>

definition reserved :: "bytes \<Rightarrow> bool" where
  "reserved key \<longleftrightarrow> to_ascii_uppercase key = ''STRING'' \<or> to_ascii_uppercase key = ''LIST''"

lemma rdb_loop_expiry:
  assumes "storable key" "\<not> reserved key" "ms < 2 ^ 64"
    and "clock_ok dr horizon clk" "0 \<le> dr" "representable horizon" "representable (int (from_millis ms))"
  shows "rdb_loop cfg clk i (write_string key @ [CHR 0xFC] @ u64_le_bytes ms @ r) db exps =
           rdb_loop cfg clk (i + 1) r db (fmupd key (loaded_deadline (clk i) ms) exps)"
proof -
  obtain b bs where b: "write_string key = b # bs" "b \<noteq> CHR 0xFE" "b \<noteq> CHR 0xFC" "b \<noteq> CHR 0xFF"
    "storable key \<longrightarrow> (\<forall>r. read_string_with_first_len (bs @ r) b = Ok (key, r))"
    by (rule write_string_Cons [of key])
  obtain I T where c: "clk i = (I, T)" by (cases "clk i")
  have "int (loaded_deadline (clk i) ms) < 2 ^ 64 * 10 ^ 6"
    using loaded_deadline_bounds(2) [OF assms(4), where i = i and ms = ms] assms(5-7)
    by (auto simp: representable_def)
  then have "loaded_deadline (clk i) ms < instant_bound" by (simp add: instant_bound_def)
  then have "read_expiry (clk i) (u64_le_bytes ms @ r) = Ok (loaded_deadline (clk i) ms, r)"
    using assms(3) by (simp add: read_expiry_def c u64_le_round_trip instant_add_def loaded_deadline_def)
  then show ?thesis
    using b assms(1,2) by (simp add: rdb_loop.simps [of _ _ _ "b # _"] reserved_def)
qed

text \<open>The assumptions of a faithful save and load, on clocks and deadlines.\<close>

definition deadlines_ok :: "int \<Rightarrow> (bytes, instant) fmap \<Rightarrow> bool" where
  "deadlines_ok dw exps \<longleftrightarrow>
     (\<forall>k e. fmlookup exps k = Some e \<longrightarrow> storable k \<and> \<not> reserved k \<and> representable (int e + dw))"

definition clocks_ok :: "int \<Rightarrow> int \<Rightarrow> int \<Rightarrow> clocks \<Rightarrow> clocks \<Rightarrow> bool" where
  "clocks_ok dw dr horizon wclk rclk \<longleftrightarrow>
     clock_ok dw horizon wclk \<and> clock_ok dr horizon rclk \<and> 0 \<le> dr \<and> representable horizon"

fun load_expirations ::
    "clocks \<Rightarrow> clocks \<Rightarrow> nat \<Rightarrow> (bytes, instant) fmap \<Rightarrow> bytes list \<Rightarrow> (bytes, instant) fmap \<Rightarrow>
     (bytes, instant) fmap" where
  "load_expirations wclk rclk i exps [] acc = acc"
| "load_expirations wclk rclk i exps (key # keys) acc =
     (case fmlookup exps key of
        Some e \<Rightarrow> load_expirations wclk rclk (i + 1) exps keys
                  (fmupd key (loaded_deadline (rclk i) (saved_ms (wclk i) e)) acc)
      | None \<Rightarrow> load_expirations wclk rclk i exps keys acc)"

lemma expirations_round_trip:
  assumes "clocks_ok dw dr horizon wclk rclk" "deadlines_ok dw exps"
  shows "\<exists>bs. write_expirations wclk i exps keys = Ok bs \<and>
     (\<forall>r db acc. \<exists>n. rdb_loop cfg rclk i (bs @ r) db acc =
        rdb_loop cfg rclk n r db (load_expirations wclk rclk i exps keys acc))"
proof (induction keys arbitrary: i)
  case (Cons key keys)
  show ?case
  proof (cases "fmlookup exps key")
    case (Some e)
    from assms(1) have c: "clock_ok dw horizon wclk" "clock_ok dr horizon rclk" "0 \<le> dr"
      "representable horizon"
      by (auto simp: clocks_ok_def)
    from Some assms(2) have key: "storable key" "\<not> reserved key" "representable (int e + dw)"
      by (auto simp: deadlines_ok_def)
    note ms = saved_ms_bounds [OF c(1) key(3) c(4), of i]
    have rep: "representable (int (from_millis (saved_ms (wclk i) e)))"
      using ms(3) key(3) c(4) by (auto simp: representable_def)
    obtain bs where bs: "write_expirations wclk (i + 1) exps keys = Ok bs"
      "\<forall>r db acc. \<exists>n. rdb_loop cfg rclk (i + 1) (bs @ r) db acc =
        rdb_loop cfg rclk n r db (load_expirations wclk rclk (i + 1) exps keys acc)"
      using Cons.IH [of "i + 1"] by blast
    with Some show ?thesis
      using rdb_loop_expiry [OF key(1,2) ms(1) c(2-4) rep, of cfg i]
      by (simp add: write_expiry_ok [OF c(1) key(3) c(4)])
  qed (use Cons.IH [of i] in simp)
qed auto

lemma load_expirations_lookup:
  assumes "clocks_ok dw dr horizon wclk rclk" "deadlines_ok dw exps"
  shows "(k \<notin> set keys \<or> fmlookup exps k = None \<longrightarrow>
            fmlookup (load_expirations wclk rclk i exps keys acc) k = fmlookup acc k) \<and>
         (\<forall>e. k \<in> set keys \<longrightarrow> fmlookup exps k = Some e \<longrightarrow>
            (\<exists>e'. fmlookup (load_expirations wclk rclk i exps keys acc) k = Some e' \<and>
                  reloaded dw dr horizon e e'))"
proof (induction keys arbitrary: i acc)
  case (Cons key keys)
  have "reloaded dw dr horizon e (loaded_deadline (rclk i) (saved_ms (wclk i) e))"
    if "fmlookup exps key = Some e" for e
  proof -
    from assms(1) have c: "clock_ok dw horizon wclk" "clock_ok dr horizon rclk" "representable horizon"
      by (auto simp: clocks_ok_def)
    from that assms(2) have "representable (int e + dw)" by (auto simp: deadlines_ok_def)
    from saved_ms_bounds [OF c(1) this c(3), of i]
      loaded_deadline_bounds [OF c(2), where i = i and ms = "saved_ms (wclk i) e"]
    show ?thesis by (auto simp: reloaded_def)
  qed
  then show ?case
    using Cons.IH by (cases "k \<in> set keys"; cases "fmlookup exps key"; cases "k = key") auto
qed simp

section \<open>Round trip of a snapshot\<close>

definition storable_db :: "config \<Rightarrow> (bytes, RedisObject) fmap \<Rightarrow> bool" where
  "storable_db cfg db \<longleftrightarrow> (\<forall>k v. fmlookup db k = Some v \<longrightarrow> storable k \<and> storable_object cfg v)"

lemma snapshot_round_trip_lemma:
  assumes "enumerates ord_d" "enumerates ord_e" "storable_db cfg db"
    and "clocks_ok dw dr horizon wclk rclk" "deadlines_ok dw exps"
  shows "\<exists>b exps'. snapshot_bytes ord_d ord_e wclk db exps = Ok b \<and>
     rdb_parse cfg rclk b = Ok (fmfilter (\<lambda>k. fmlookup db k \<noteq> Some (RO_List [])) db, exps') \<and>
     fmdom exps' = fmdom exps \<and>
     (\<forall>k e. fmlookup exps k = Some e \<longrightarrow>
        (\<exists>e'. fmlookup exps' k = Some e' \<and> reloaded dw dr horizon e e'))"
proof -
  define exps' where "exps' = load_expirations wclk rclk 0 exps (ord_e exps) fmempty"
  obtain es where es: "write_expirations wclk 0 exps (ord_e exps) = Ok es" and
    loop: "\<forall>r db acc. \<exists>n. rdb_loop cfg rclk 0 (es @ r) db acc =
      rdb_loop cfg rclk n r db (load_expirations wclk rclk 0 exps (ord_e exps) acc)"
    using expirations_round_trip [OF assms(4,5)] by blast
  have sd: "\<And>k v. fmlookup db k = Some v \<Longrightarrow> storable k \<and> storable_object cfg v"
    using assms(3) by (simp add: storable_db_def)
  have "rdb_loop cfg rclk 0 ([CHR 0xFE] @ write_length 0 @ write_entries db (ord_d db) @ es) fmempty fmempty =
      rdb_loop cfg rclk 0 (write_entries db (ord_d db) @ es) fmempty fmempty"
    by (subst rdb_loop.simps) simp
  also have "\<dots> = rdb_loop cfg rclk 0 es (load_entries db (ord_d db) fmempty) fmempty"
    by (rule rdb_loop_entries [OF sd])
  also obtain n where "\<dots> = rdb_loop cfg rclk n [] (load_entries db (ord_d db) fmempty) exps'"
    using loop [rule_format, of "[]"] by (auto simp: exps'_def)
  also have "\<dots> = Ok (load_entries db (ord_d db) fmempty, exps')"
    by simp
  also have "load_entries db (ord_d db) fmempty = fmfilter (\<lambda>k. fmlookup db k \<noteq> Some (RO_List [])) db"
    using enumeratesD(2) [OF assms(1), of db]
    by (intro fmap_ext) (auto simp: load_entries_lookup fmlookup_dom'_iff)
  finally have parsed: "rdb_parse cfg rclk (RDB_HEADER @ [CHR 0xFE] @ write_length 0 @
      write_entries db (ord_d db) @ es) = Ok (fmfilter (\<lambda>k. fmlookup db k \<noteq> Some (RO_List [])) db, exps')"
    by (simp add: rdb_parse_def read_header_def read_exact_def RDB_HEADER_def)
  have look: "(\<forall>e. fmlookup exps k = Some e \<longrightarrow>
        (\<exists>e'. fmlookup exps' k = Some e' \<and> reloaded dw dr horizon e e')) \<and>
      (fmlookup exps k = None \<longrightarrow> fmlookup exps' k = None)" for k
    using load_expirations_lookup [OF assms(4,5), of k "ord_e exps" 0 fmempty]
      enumeratesD(2) [OF assms(2), of exps]
    by (auto simp: exps'_def fmlookup_dom'_iff)
  have "fmdom exps' = fmdom exps"
    using look by (intro fset_eqI) (metis fmdomE fmdomI fmdom_notD option.exhaust)
  with look parsed es show ?thesis
    by (auto simp: snapshot_bytes_def write_db_def)
qed

end
