(* ===== verification/Persistence.thy ===== *)
theory Persistence
  imports Rdb_Reader
begin

text \<open>
  The disk side: \<open>save_rdb\<close> of \<open>src/rdb/writer.rs\<close> (write a temporary file, then rename it),
  \<open>load_rdb\<close> of \<open>src/rdb/reader.rs\<close>, and \<open>DB::new\<close> and \<open>DB::save_rdb\<close> of \<open>src/database/core.rs\<close>.
  A file system is a map from paths to contents.  The environment decides which file operation fails
  (and how much of a failing write reached the file) and how \<open>BufWriter\<close> cuts the stream into writes.
\<close>

section \<open>File operations\<close>

type_synonym fs = "bytes \<rightharpoonup> bytes"

datatype fs_op = Create bytes | Append bytes bytes | Rename bytes bytes

fun fs_step :: "fs_op \<Rightarrow> fs \<Rightarrow> fs" where
  "fs_step (Create p) fs = fs(p \<mapsto> [])"
| "fs_step (Append p b) fs = (case fs p of Some c \<Rightarrow> fs(p \<mapsto> c @ b) | None \<Rightarrow> fs)"
| "fs_step (Rename p q) fs = (case fs p of Some c \<Rightarrow> (fs(p := None))(q \<mapsto> c) | None \<Rightarrow> fs)"

record io_env =
  io_fail :: "nat \<Rightarrow> (nat \<times> bytes) option"
  io_chunks :: "bytes \<Rightarrow> bytes list"
  io_partial :: bytes

text \<open>
  A failing \<open>create\<close> or \<open>rename\<close> changes nothing; a failing write may have written its first bytes.
\<close>

fun fs_partial :: "nat \<Rightarrow> fs_op \<Rightarrow> fs \<Rightarrow> fs" where
  "fs_partial k (Append p b) fs = fs_step (Append p (take k b)) fs"
| "fs_partial k (Create p) fs = fs"
| "fs_partial k (Rename p q) fs = fs"

fun run_ops ::
    "(nat \<Rightarrow> (nat \<times> bytes) option) \<Rightarrow> nat \<Rightarrow> fs_op list \<Rightarrow> fs \<Rightarrow> (bytes, unit) outcome \<times> fs" where
  "run_ops fail i [] fs = (Ok (), fs)"
| "run_ops fail i (op # ops) fs =
     (case fail i of
        None \<Rightarrow> run_ops fail (i + 1) ops (fs_step op fs)
      | Some (k, msg) \<Rightarrow> (Err msg, fs_partial k op fs))"

section \<open>Saving and loading\<close>

definition temp_path :: "bytes \<Rightarrow> bytes" where "temp_path path = path @ ''.tmp''"

definition save_rdb ::
    "io_env \<Rightarrow> RedisObject iter_order \<Rightarrow> instant iter_order \<Rightarrow> clocks \<Rightarrow> bytes \<Rightarrow>
     (bytes, RedisObject) fmap \<Rightarrow> (bytes, instant) fmap \<Rightarrow> fs \<Rightarrow> (bytes, unit) outcome \<times> fs" where
  "save_rdb env ord_d ord_e clk file_path db exps fs =
     (case run_ops (io_fail env) 0 [Create (temp_path file_path)] fs of
        (Ok u, fs1) \<Rightarrow>
          (case snapshot_bytes ord_d ord_e clk db exps of
             Ok b \<Rightarrow> run_ops (io_fail env) 1
                      (map (Append (temp_path file_path)) (io_chunks env b) @
                       [Rename (temp_path file_path) file_path]) fs1
           | Err e \<Rightarrow> (Err e, fs1(temp_path file_path \<mapsto> io_partial env))
           | Panic p \<Rightarrow> (Panic p, fs1(temp_path file_path \<mapsto> io_partial env)))
      | (Err e, fs1) \<Rightarrow> (Err e, fs1)
      | (Panic p, fs1) \<Rightarrow> (Panic p, fs1))"

definition load_rdb :: "config \<Rightarrow> clocks \<Rightarrow> fs \<Rightarrow> bytes \<Rightarrow> (bytes, loaded) outcome" where
  "load_rdb cfg clk fs file_path =
     (case fs file_path of
        None \<Rightarrow> Ok (fmempty, fmempty)
      | Some content \<Rightarrow> rdb_parse cfg clk content)"

definition RDB_FILE :: bytes where "RDB_FILE = ''snapshots/dump.rdb''"

text \<open>\<open>DB::new\<close>: \<open>load_rdb(RDB_FILE).unwrap()\<close>; it also starts the reaper on the new database.\<close>

definition DB_new :: "config \<Rightarrow> clocks \<Rightarrow> fs \<Rightarrow> ('e, DB) outcome" where
  "DB_new cfg clk fs =
     (case load_rdb cfg clk fs RDB_FILE of
        Ok (data_map, exp_map) \<Rightarrow> Ok \<lparr>data = data_map, expirations = exp_map\<rparr>
      | Err e \<Rightarrow> Panic UnwrapOnErr
      | Panic p \<Rightarrow> Panic p)"

text \<open>
  \<open>DB::save_rdb\<close> copies both maps and hands the copy to a background task: it answers \<open>Ok\<close> before
  anything is written.  The task runs \<open>save_rdb\<close> and only prints an error.
\<close>

record snapshot =
  snap_data :: "(bytes, RedisObject) fmap"
  snap_expirations :: "(bytes, instant) fmap"

definition DB_save_rdb :: "DB \<Rightarrow> (bytes, unit) outcome \<times> snapshot" where
  "DB_save_rdb db = (Ok (), \<lparr>snap_data = data db, snap_expirations = expirations db\<rparr>)"

definition run_snapshot_task ::
    "io_env \<Rightarrow> RedisObject iter_order \<Rightarrow> instant iter_order \<Rightarrow> clocks \<Rightarrow> snapshot \<Rightarrow> fs \<Rightarrow> fs" where
  "run_snapshot_task env ord_d ord_e clk snap fs =
     snd (save_rdb env ord_d ord_e clk RDB_FILE (snap_data snap) (snap_expirations snap) fs)"

section \<open>Lemmas\<close>

text \<open>Documented behaviour of \<open>BufWriter\<close>: what it writes is what it was given, in order.\<close>

definition buffered :: "io_env \<Rightarrow> bool" where
  "buffered env \<longleftrightarrow> (\<forall>b. concat (io_chunks env b) = b)"

lemma temp_path_neq [simp]: "temp_path p \<noteq> p" "p \<noteq> temp_path p"
  by (simp_all add: temp_path_def)

lemma fs_step_append: "fs t = Some c \<Longrightarrow> fs_step (Append t b) fs = fs(t \<mapsto> c @ b)"
  by simp

text \<open>
  Appending to one file and then renaming it: the target keeps its contents until everything has
  been written, and no other file changes.
\<close>

lemma run_appends_rename:
  assumes "t \<noteq> p" "fs t = Some c"
    and "run_ops fail i (map (Append t) bs @ [Rename t p]) fs = (r, fs')"
  shows "(r = Ok () \<longrightarrow> fs' p = Some (c @ concat bs)) \<and>
         (r \<noteq> Ok () \<longrightarrow> fs' p = fs p) \<and> \<not> panics r \<and> (\<forall>q. q \<noteq> p \<longrightarrow> q \<noteq> t \<longrightarrow> fs' q = fs q)"
  using assms
proof (induction bs arbitrary: i c fs)
  case Nil
  then show ?case by (auto split: option.splits)
next
  case (Cons b bs)
  show ?case
  proof (cases "fail i")
    case None
    with Cons.prems have
      run: "run_ops fail (i + 1) (map (Append t) bs @ [Rename t p]) (fs(t \<mapsto> c @ b)) = (r, fs')"
      by simp
    from Cons.IH [OF Cons.prems(1) _ run, of "c @ b"] Cons.prems(1) show ?thesis by auto
  next
    case (Some km)
    with Cons.prems show ?thesis by (cases km) auto
  qed
qed

lemma run_ops_no_failure:
  "(\<And>i. fail i = None) \<Longrightarrow> fst (run_ops fail i ops fs) = Ok ()"
  by (induction ops arbitrary: i fs) auto

lemma save_rdb_cases:
  assumes "save_rdb env ord_d ord_e clk p db exps fs = (r, fs')"
  shows "(r = Ok () \<longrightarrow> (\<exists>b. snapshot_bytes ord_d ord_e clk db exps = Ok b \<and>
              fs' p = Some (concat (io_chunks env b)))) \<and>
         (r \<noteq> Ok () \<longrightarrow> fs' p = fs p) \<and>
         (\<forall>q. q \<noteq> p \<longrightarrow> q \<noteq> temp_path p \<longrightarrow> fs' q = fs q)"
proof (cases "io_fail env 0")
  case None
  show ?thesis
  proof (cases "snapshot_bytes ord_d ord_e clk db exps")
    case (Ok b)
    have "run_ops (io_fail env) 1 (map (Append (temp_path p)) (io_chunks env b) @
        [Rename (temp_path p) p]) (fs(temp_path p \<mapsto> [])) = (r, fs')"
      using assms None Ok by (simp add: save_rdb_def)
    from run_appends_rename [OF _ _ this] Ok show ?thesis by auto
  qed (use assms None in \<open>auto simp: save_rdb_def\<close>)
qed (use assms in \<open>auto simp: save_rdb_def split: prod.splits\<close>)

lemma save_restored:
  assumes "save_rdb env ord_d ord_e wclk RDB_FILE (data db) (expirations db) fs = (Ok (), fs')"
    and "buffered env" "enumerates ord_d" "enumerates ord_e"
    and "storable_db cfg (data db)" "deadlines_ok dw (expirations db)"
    and "clocks_ok dw dr horizon wclk rclk"
  shows "\<exists>exps'. DB_new cfg rclk fs' = Ok \<lparr>data = fmfilter (\<lambda>k. fmlookup (data db) k \<noteq> Some (RO_List [])) (data db),
                                         expirations = exps'\<rparr> \<and>
           fmdom exps' = fmdom (expirations db) \<and>
           (\<forall>k e. fmlookup (expirations db) k = Some e \<longrightarrow>
              (\<exists>e'. fmlookup exps' k = Some e' \<and> reloaded dw dr horizon e e'))"
  using save_rdb_cases [OF assms(1)] snapshot_round_trip_lemma [OF assms(3,4,5,7,6)] assms(2)
  by (auto simp: DB_new_def load_rdb_def buffered_def)

section \<open>Properties\<close>


definition quiet_env :: io_env where
  "quiet_env = \<lparr>io_fail = (\<lambda>i. None), io_chunks = (\<lambda>b. [b]), io_partial = []\<rparr>"

definition demo_db :: DB where
  "demo_db = \<lparr>data = fmap_of_list [(''k'', RO_String ''v'')], expirations = fmap_of_list [(''k'', 5000000)]\<rparr>"


text \<open>
  C19. Atomic replacement: wherever the sequence of file operations stops, by an I/O error or by a
  panic, the snapshot path holds either its old contents or one complete new snapshot, and no file
  but the snapshot and its temporary file is touched.
\<close>

theorem save_replaces_atomically:
  assumes "save_rdb env ord_d ord_e clk p db exps fs = (r, fs')" and "buffered env"
  shows "(fs' p = fs p \<or> (\<exists>b. snapshot_bytes ord_d ord_e clk db exps = Ok b \<and> fs' p = Some b)) \<and>
         (r \<noteq> Ok () \<longrightarrow> fs' p = fs p) \<and>
         (\<forall>q. q \<noteq> p \<longrightarrow> q \<noteq> temp_path p \<longrightarrow> fs' q = fs q)"
  using save_rdb_cases [OF assms(1)] assms(2) by (cases "r = Ok ()") (auto simp: buffered_def)

theorem save_replaces_atomically_witness:
  "snd (save_rdb (quiet_env\<lparr>io_fail := (\<lambda>i. if i = 1 then Some (4, ''disk full'') else None)\<rparr>)
     key_order key_order (\<lambda>i. (1, 1)) ''d'' (data demo_db) (expirations demo_db) [''d'' \<mapsto> ''old'']) ''d'' =
   Some ''old''"
proof -
  let ?env = "quiet_env\<lparr>io_fail := (\<lambda>i. if i = 1 then Some (4, ''disk full'') else None)\<rparr>"
  let ?save = "save_rdb ?env key_order key_order (\<lambda>i. (1, 1)) ''d'' (data demo_db) (expirations demo_db)
    [''d'' \<mapsto> ''old'']"
  have err: "fst ?save \<noteq> Ok ()" by code_simp
  have "buffered ?env" by (simp add: buffered_def quiet_env_def)
  then have "fst ?save \<noteq> Ok () \<longrightarrow> snd ?save ''d'' = [''d'' \<mapsto> ''old''] ''d''"
    using save_replaces_atomically [of ?env key_order key_order "\<lambda>i. (1, 1)" "''d''" "data demo_db"
        "expirations demo_db" "[''d'' \<mapsto> ''old'']" "fst ?save" "snd ?save"] by simp
  with err show ?thesis by simp
qed


text \<open>
  An empty list does not survive a restart but its deadline does: the restored database has a
  deadline for a key without a value, a state no sequence of operations reaches.
\<close>

theorem empty_list_restored_out_of_sync:
  "case save_rdb quiet_env key_order key_order (\<lambda>i. (1, 1)) RDB_FILE
       (fmap_of_list [(''l'', RO_List [])]) (fmap_of_list [(''l'', 5000000)]) Map.empty of
     (r, fs') \<Rightarrow> (case DB_new \<lparr>overflow_checks = False, vec_limit = 9\<rparr> (\<lambda>i. (3, 3)) fs' :: (bytes, DB) outcome of
                  Ok db \<Rightarrow> fmdom (data db) = {||} \<and> fmdom (expirations db) = {|''l''|}
                | _ \<Rightarrow> False)"
  by code_simp

end
