(* ===== verification/Dispatcher.thy ===== *)
theory Dispatcher
  imports Command Persistence
begin

text \<open>
  \<open>src/command/dispatcher.rs\<close> with the client state of \<open>src/config/client.rs\<close>: executing commands and
  the \<open>MULTI\<close>/\<open>EXEC\<close>/\<open>DISCARD\<close> state machine.

  The world of a command is the shared database, the snapshot tasks spawned so far and the number of
  clock slots used: the \<open>n\<close>-th executed command reads \<open>clk n\<close>.  \<open>execute_command\<close> calls itself for
  the commands queued by a transaction; its first natural number bounds the depth of those calls and
  stands for the call stack.
\<close>

section \<open>State\<close>

record Client =
  in_transaction :: bool
  queued_commands :: "Command list"

definition Client_new :: Client where
  "Client_new = \<lparr>in_transaction = False, queued_commands = []\<rparr>"

record world =
  w_db :: DB
  w_tasks :: "snapshot list"
  w_ticks :: nat

type_synonym exec_result = "(bytes, RespType) outcome \<times> Client \<times> world"

definition tick :: "world \<Rightarrow> world" where "tick w = w\<lparr>w_ticks := w_ticks w + 1\<rparr>"

section \<open>Executing one command\<close>

definition exec_failed :: "bytes \<Rightarrow> bytes" where
  "exec_failed e = ''Failed to execute command. E: '' @ e"

text \<open>The reply to an operation that returns nothing on success.\<close>

fun unit_reply :: "RespType \<Rightarrow> (bytes, unit) outcome \<Rightarrow> (bytes, RespType) outcome" where
  "unit_reply rep (Ok u) = Ok rep"
| "unit_reply rep (Err e) = Err (exec_failed e)"
| "unit_reply rep (Panic p) = Panic p"

fun get_reply :: "(bytes, RedisObject) outcome \<Rightarrow> (bytes, RespType) outcome" where
  "get_reply (Ok (RO_String s)) = Ok (BulkString s)"
| "get_reply (Ok (RO_List xs)) = Err ''Wrong data type. Expected String, got List.''"
| "get_reply (Err e) = Err (exec_failed e)"
| "get_reply (Panic p) = Panic p"

fun string_items :: "RedisObject list \<Rightarrow> RespType list" where
  "string_items [] = []"
| "string_items (RO_String s # xs) = BulkString s # string_items xs"
| "string_items (RO_List l # xs) = string_items xs"

fun lrange_reply :: "(bytes, RedisObject) outcome \<Rightarrow> (bytes, RespType) outcome" where
  "lrange_reply (Ok (RO_List xs)) = Ok (Array (string_items xs))"
| "lrange_reply (Ok (RO_String s)) = Ok (BulkString s)"
| "lrange_reply (Err e) = Err (exec_failed e)"
| "lrange_reply (Panic p) = Panic p"

text \<open>
  The branches of \<open>execute_command\<close> that only touch the database.  The last equation completes the
  function; \<open>execute_command\<close> handles those four commands itself.
\<close>

fun execute_data :: "config \<Rightarrow> instant \<Rightarrow> DB \<Rightarrow> Command \<Rightarrow> (bytes, RespType) outcome \<times> DB" where
  "execute_data cfg now db PING = (Ok (SimpleString ''Pong''), db)"
| "execute_data cfg now db (ECHO msg) = (Ok (BulkString msg), db)"
| "execute_data cfg now db (SET key val expires_in) =
     map_prod (unit_reply (SimpleString ''Ok'')) id (DB_set db key (RO_String val) expires_in)"
| "execute_data cfg now db (GET key) = map_prod get_reply id (DB_get now db key)"
| "execute_data cfg now db (DELETE key) =
     map_prod (unit_reply (BulkString ''Ok'')) id (DB_delete db key)"
| "execute_data cfg now db (EXPIRE key expires_at opt) =
     map_prod (unit_reply (SimpleString ''Ok'')) id (DB_expire db key expires_at opt)"
| "execute_data cfg now db (LPUSH key vals) =
     map_prod (unit_reply (SimpleString ''Ok'')) id (DB_lpush db key (map RO_String vals))"
| "execute_data cfg now db (RPUSH key vals) =
     map_prod (unit_reply (SimpleString ''Ok'')) id (DB_rpush db key (map RO_String vals))"
| "execute_data cfg now db (LRANGE key start stop) =
     map_prod lrange_reply id (DB_lrange cfg now db key start stop)"
| "execute_data cfg now db _ = (Ok (SimpleString ''Ok''), db)"

definition execute_save :: "world \<Rightarrow> (bytes, RespType) outcome \<times> world" where
  "execute_save w =
     (case DB_save_rdb (w_db w) of
        (Ok u, snap) \<Rightarrow> (Ok (SimpleString ''Ok''), w\<lparr>w_tasks := w_tasks w @ [snap]\<rparr>)
      | (Err e, snap) \<Rightarrow> (Err ''Error while saving rdb snapshot.'', w)
      | (Panic p, snap) \<Rightarrow> (Panic p, w))"

function (sequential) execute_command ::
    "config \<Rightarrow> (nat \<Rightarrow> instant) \<Rightarrow> nat \<Rightarrow> Client \<Rightarrow> world \<Rightarrow> Command \<Rightarrow> exec_result"
  and execute_queue ::
    "config \<Rightarrow> (nat \<Rightarrow> instant) \<Rightarrow> nat \<Rightarrow> Client \<Rightarrow> world \<Rightarrow> Command list \<Rightarrow> RespType list \<Rightarrow>
     (bytes, RespType list) outcome \<times> Client \<times> world" where
  "execute_command cfg clk 0 client w cmd = (Panic StackOverflow, client, w)"
| "execute_command cfg clk (Suc d) client w MULTI =
     (Ok (SimpleString ''Ok''), client\<lparr>in_transaction := True, queued_commands := []\<rparr>, tick w)"
| "execute_command cfg clk (Suc d) client w DISCARD =
     (Ok (SimpleString ''Ok''), client\<lparr>in_transaction := False, queued_commands := []\<rparr>, tick w)"
| "execute_command cfg clk (Suc d) client w EXEC =
     (case execute_queue cfg clk d client (tick w) (queued_commands client) [] of
        (Ok replies, client', w') \<Rightarrow>
          (Ok (Array replies), client'\<lparr>in_transaction := False, queued_commands := []\<rparr>, w')
      | (Err e, client', w') \<Rightarrow> (Err e, client', w')
      | (Panic p, client', w') \<Rightarrow> (Panic p, client', w'))"
| "execute_command cfg clk (Suc d) client w SAVE =
     (case execute_save (tick w) of (r, w') \<Rightarrow> (r, client, w'))"
| "execute_command cfg clk (Suc d) client w cmd =
     (case execute_data cfg (clk (w_ticks w)) (w_db w) cmd of
        (r, db') \<Rightarrow> (r, client, (tick w)\<lparr>w_db := db'\<rparr>))"
| "execute_queue cfg clk d client w [] replies = (Ok replies, client, w)"
| "execute_queue cfg clk d client w (c # cs) replies =
     (case execute_command cfg clk d client w c of
        (Ok rep, client', w') \<Rightarrow> execute_queue cfg clk d client' w' cs (replies @ [rep])
      | (Err e, client', w') \<Rightarrow> (Err (''Failed to execute queued commands. E: '' @ e), client', w')
      | (Panic p, client', w') \<Rightarrow> (Panic p, client', w'))"
  by pat_completeness auto
termination
  by (relation "measures
      [(\<lambda>x. case x of Inl (_, _, d, _) \<Rightarrow> d | Inr (_, _, d, _) \<Rightarrow> d),
       (\<lambda>x. case x of Inl _ \<Rightarrow> 0 | Inr (_, _, _, _, _, cs, _) \<Rightarrow> Suc (length cs))]") auto

lemma execute_command_code [code]:
  "execute_command cfg clk d client w cmd =
     (if d = 0 then (Panic StackOverflow, client, w)
      else
        (case cmd of
           MULTI \<Rightarrow> (Ok (SimpleString ''Ok''), client\<lparr>in_transaction := True, queued_commands := []\<rparr>, tick w)
         | DISCARD \<Rightarrow> (Ok (SimpleString ''Ok''), client\<lparr>in_transaction := False, queued_commands := []\<rparr>, tick w)
         | EXEC \<Rightarrow>
             (case execute_queue cfg clk (d - 1) client (tick w) (queued_commands client) [] of
                (Ok replies, client', w') \<Rightarrow>
                  (Ok (Array replies), client'\<lparr>in_transaction := False, queued_commands := []\<rparr>, w')
              | (Err e, client', w') \<Rightarrow> (Err e, client', w')
              | (Panic p, client', w') \<Rightarrow> (Panic p, client', w'))
         | SAVE \<Rightarrow> (case execute_save (tick w) of (r, w') \<Rightarrow> (r, client, w'))
         | _ \<Rightarrow>
             (case execute_data cfg (clk (w_ticks w)) (w_db w) cmd of
                (r, db') \<Rightarrow> (r, client, (tick w)\<lparr>w_db := db'\<rparr>))))"
  by (cases d; cases cmd) simp_all

section \<open>Dispatch\<close>

definition is_control :: "Command \<Rightarrow> bool" where
  "is_control cmd \<longleftrightarrow> cmd = EXEC \<or> cmd = DISCARD"

definition dispatch ::
    "config \<Rightarrow> (nat \<Rightarrow> instant) \<Rightarrow> nat \<Rightarrow> Client \<Rightarrow> world \<Rightarrow> Command \<Rightarrow> exec_result" where
  "dispatch cfg clk depth client w cmd =
     (if in_transaction client then
        (if cmd = MULTI then (Err ''Can not nest multi'', client, w)
         else if is_control cmd then execute_command cfg clk depth client w cmd
         else (Ok (SimpleString ''QUEUED''),
               client\<lparr>queued_commands := queued_commands client @ [cmd]\<rparr>, w))
      else execute_command cfg clk depth client w cmd)"

section \<open>Commands outside the transaction machinery\<close>

definition is_tx :: "Command \<Rightarrow> bool" where
  "is_tx cmd \<longleftrightarrow> cmd = MULTI \<or> cmd = EXEC \<or> cmd = DISCARD"

definition plain ::
    "config \<Rightarrow> (nat \<Rightarrow> instant) \<Rightarrow> world \<Rightarrow> Command \<Rightarrow> (bytes, RespType) outcome \<times> world" where
  "plain cfg clk w cmd =
     (if cmd = SAVE then execute_save (tick w)
      else (case execute_data cfg (clk (w_ticks w)) (w_db w) cmd of
              (r, db') \<Rightarrow> (r, (tick w)\<lparr>w_db := db'\<rparr>)))"

lemma execute_plain:
  "\<not> is_tx cmd \<Longrightarrow> execute_command cfg clk (Suc d) client w cmd =
     (fst (plain cfg clk w cmd), client, snd (plain cfg clk w cmd))"
  by (cases cmd) (auto simp: is_tx_def plain_def split: prod.split)

text \<open>
  The commands of a transaction one after the other, each seeing the effects of those before; the
  first failure ends the run.
\<close>

fun run_plain ::
    "config \<Rightarrow> (nat \<Rightarrow> instant) \<Rightarrow> world \<Rightarrow> Command list \<Rightarrow> (bytes, RespType list) outcome \<times> world" where
  "run_plain cfg clk w [] = (Ok [], w)"
| "run_plain cfg clk w (c # cs) =
     (case plain cfg clk w c of
        (Ok rep, w') \<Rightarrow>
          (case run_plain cfg clk w' cs of
             (Ok reps, w'') \<Rightarrow> (Ok (rep # reps), w'')
           | (Err e, w'') \<Rightarrow> (Err e, w'')
           | (Panic p, w'') \<Rightarrow> (Panic p, w''))
      | (Err e, w') \<Rightarrow> (Err (''Failed to execute queued commands. E: '' @ e), w')
      | (Panic p, w') \<Rightarrow> (Panic p, w'))"

lemma execute_queue_plain:
  "list_all (\<lambda>c. \<not> is_tx c) cs \<Longrightarrow>
     execute_queue cfg clk (Suc d) client w cs reps =
       (case run_plain cfg clk w cs of
          (Ok rs, w') \<Rightarrow> (Ok (reps @ rs), client, w')
        | (Err e, w') \<Rightarrow> (Err e, client, w')
        | (Panic p, w') \<Rightarrow> (Panic p, client, w'))"
proof (induction cs arbitrary: w reps)
  case (Cons c cs)
  then show ?case
    by (simp add: execute_plain split: prod.split outcome.split)
qed simp

section \<open>The transaction state machine\<close>

definition client_inv :: "Client \<Rightarrow> bool" where
  "client_inv client \<longleftrightarrow>
     list_all (\<lambda>c. \<not> is_tx c) (queued_commands client) \<and>
     (\<not> in_transaction client \<longrightarrow> queued_commands client = [])"

text \<open>Abstractly a connection is idle or collecting the commands of a transaction.\<close>

datatype tx_state = Idle | Collecting "Command list"

definition tx_of :: "Client \<Rightarrow> tx_state" where
  "tx_of client = (if in_transaction client then Collecting (queued_commands client) else Idle)"

text \<open>
  The specification of \<open>dispatch\<close>: what each command does to an idle and to a collecting
  connection.  \<open>EXEC\<close> runs the collected commands in order; only a complete run ends the
  transaction.
\<close>

fun tx_step ::
    "config \<Rightarrow> (nat \<Rightarrow> instant) \<Rightarrow> tx_state \<Rightarrow> world \<Rightarrow> Command \<Rightarrow>
     (bytes, RespType) outcome \<times> tx_state \<times> world" where
  "tx_step cfg clk Idle w cmd =
     (if cmd = MULTI then (Ok (SimpleString ''Ok''), Collecting [], tick w)
      else if cmd = DISCARD then (Ok (SimpleString ''Ok''), Idle, tick w)
      else if cmd = EXEC then (Ok (Array []), Idle, tick w)
      else (fst (plain cfg clk w cmd), Idle, snd (plain cfg clk w cmd)))"
| "tx_step cfg clk (Collecting q) w cmd =
     (if cmd = MULTI then (Err ''Can not nest multi'', Collecting q, w)
      else if cmd = DISCARD then (Ok (SimpleString ''Ok''), Idle, tick w)
      else if cmd = EXEC then
        (case run_plain cfg clk (tick w) q of
           (Ok rs, w') \<Rightarrow> (Ok (Array rs), Idle, w')
         | (Err e, w') \<Rightarrow> (Err e, Collecting q, w')
         | (Panic p, w') \<Rightarrow> (Panic p, Collecting q, w'))
      else (Ok (SimpleString ''QUEUED''), Collecting (q @ [cmd]), w))"

lemma dispatch_EXEC:
  assumes "client_inv client"
  shows "dispatch cfg clk (Suc (Suc d)) client w EXEC =
     (case run_plain cfg clk (tick w) (queued_commands client) of
        (Ok rs, w') \<Rightarrow> (Ok (Array rs), client\<lparr>in_transaction := False, queued_commands := []\<rparr>, w')
      | (Err e, w') \<Rightarrow> (Err e, client, w')
      | (Panic p, w') \<Rightarrow> (Panic p, client, w'))"
  using assms
  by (simp add: dispatch_def is_control_def client_inv_def execute_queue_plain
      split: prod.split outcome.split)

lemma dispatch_refines:
  assumes "client_inv client" "dispatch cfg clk (Suc (Suc d)) client w cmd = (r, client', w')"
  shows "tx_step cfg clk (tx_of client) w cmd = (r, tx_of client', w')"
proof (cases "is_tx cmd")
  case False
  with assms show ?thesis
    by (auto simp: dispatch_def tx_of_def is_control_def is_tx_def execute_plain split: if_splits)
next
  case True
  then consider "cmd = MULTI" | "cmd = DISCARD" | "cmd = EXEC" by (auto simp: is_tx_def)
  then show ?thesis
  proof cases
    case 3
    with assms(2) dispatch_EXEC [OF assms(1), of cfg clk d w] assms(1) show ?thesis
      by (auto simp: tx_of_def client_inv_def split: prod.splits outcome.splits)
  qed (use assms(2) in \<open>auto simp: dispatch_def tx_of_def is_control_def split: if_splits\<close>)
qed

lemma dispatch_client_inv:
  assumes "client_inv client" "dispatch cfg clk (Suc (Suc d)) client w cmd = (r, client', w')"
  shows "client_inv client'"
proof (cases "is_tx cmd")
  case False
  with assms show ?thesis
    by (auto simp: dispatch_def is_control_def is_tx_def client_inv_def execute_plain split: if_splits)
next
  case True
  then consider "cmd = MULTI" | "cmd = DISCARD" | "cmd = EXEC" by (auto simp: is_tx_def)
  then show ?thesis
  proof cases
    case 3
    with assms(2) dispatch_EXEC [OF assms(1), of cfg clk d w] assms(1) show ?thesis
      by (auto simp: client_inv_def split: prod.splits outcome.splits)
  qed (use assms in \<open>auto simp: dispatch_def client_inv_def is_control_def split: if_splits\<close>)
qed

section \<open>Invariants of the database under commands\<close>

lemma string_objects: "list_all utf8_valid vs \<Longrightarrow> list_all string_object (map RO_String vs)"
  by (simp add: list_all_iff)

lemma snd_map_prod_id [simp]: "snd (map_prod f id p) = snd p"
  by (cases p) simp

lemma execute_data_inv:
  "command_wf cmd \<Longrightarrow> db_inv db \<Longrightarrow> db_inv (snd (execute_data cfg now db cmd))"
  by (cases cmd) (simp_all add: db_inv_ops string_objects)

lemma plain_inv:
  assumes "command_wf cmd" "db_inv (w_db w)"
  shows "db_inv (w_db (snd (plain cfg clk w cmd)))"
  using execute_data_inv [OF assms, of cfg "clk (w_ticks w)"] assms(2)
  by (auto simp: plain_def execute_save_def DB_save_rdb_def tick_def split: prod.split)

lemma run_plain_inv:
  "list_all command_wf cs \<Longrightarrow> db_inv (w_db w) \<Longrightarrow> db_inv (w_db (snd (run_plain cfg clk w cs)))"
proof (induction cs arbitrary: w)
  case (Cons c cs)
  obtain r w' where p: "plain cfg clk w c = (r, w')" by fastforce
  with plain_inv [of c w cfg clk] Cons.prems have "db_inv (w_db w')" by simp
  with Cons.IH [of w'] Cons.prems p show ?case by (auto split: prod.split outcome.split)
qed simp

definition session_inv :: "Client \<Rightarrow> world \<Rightarrow> bool" where
  "session_inv client w \<longleftrightarrow>
     client_inv client \<and> list_all command_wf (queued_commands client) \<and> db_inv (w_db w)"

lemma dispatch_session_inv:
  assumes "session_inv client w" "command_wf cmd"
    and "dispatch cfg clk (Suc (Suc d)) client w cmd = (r, client', w')"
  shows "session_inv client' w'"
proof -
  have cl: "client_inv client'"
    using dispatch_client_inv assms(1,3) by (auto simp: session_inv_def)
  show ?thesis
  proof (cases "cmd = EXEC")
    case True
    have "db_inv (w_db (snd (run_plain cfg clk (tick w) (queued_commands client))))"
      using assms(1) by (intro run_plain_inv) (auto simp: session_inv_def tick_def)
    with True cl assms(1,3) dispatch_EXEC [of client cfg clk d w] show ?thesis
      by (auto simp: session_inv_def split: prod.splits outcome.splits)
  next
    case False
    with assms cl plain_inv [of cmd w cfg clk] show ?thesis
      by (cases "is_tx cmd")
        (auto simp: session_inv_def dispatch_def is_control_def is_tx_def execute_plain tick_def
          split: if_splits)
  qed
qed

section \<open>Properties\<close>

text \<open>
  C6. \<open>dispatch\<close> implements the transaction state machine: on every connection whose queue holds no
  transaction command it answers, moves and changes the world exactly as \<open>tx_step\<close> prescribes, and
  the connection stays so.
\<close>

theorem dispatch_implements_transactions:
  assumes "client_inv client"
    and "dispatch cfg clk (Suc (Suc d)) client w cmd = (r, client', w')"
  shows "tx_step cfg clk (tx_of client) w cmd = (r, tx_of client', w') \<and> client_inv client'"
  using dispatch_refines [OF assms] dispatch_client_inv [OF assms] by simp

definition empty_world :: world where
  "empty_world = \<lparr>w_db = new_in_memory, w_tasks = [], w_ticks = 0\<rparr>"

theorem dispatch_implements_transactions_witness:
  "tx_step demo_config (\<lambda>n. n) (Collecting [PING]) empty_world EXEC =
     (Ok (Array [SimpleString ''Pong'']), Idle, empty_world\<lparr>w_ticks := 2\<rparr>)"
proof -
  let ?c = "\<lparr>in_transaction = True, queued_commands = [PING]\<rparr>"
  have inv: "client_inv ?c" by (simp add: client_inv_def is_tx_def)
  have run: "dispatch demo_config (\<lambda>n. n) (Suc (Suc 0)) ?c empty_world EXEC =
      (Ok (Array [SimpleString ''Pong'']), Client_new, empty_world\<lparr>w_ticks := 2\<rparr>)"
    by (simp add: dispatch_def is_control_def Client_new_def empty_world_def tick_def)
  from dispatch_implements_transactions [OF inv run] show ?thesis
    by (simp add: tx_of_def Client_new_def)
qed

text \<open>
  No command sequence makes \<open>EXEC\<close> recurse without bound: on such a connection two nested
  calls of \<open>execute_command\<close> are enough for every command, and a deeper stack changes nothing.
\<close>

theorem dispatch_bounded_stack:
  assumes "client_inv client"
  shows "dispatch cfg clk (Suc (Suc d)) client w cmd = dispatch cfg clk 2 client w cmd"
proof (cases "cmd = EXEC")
  case True
  then show ?thesis
    using dispatch_EXEC [OF assms, of cfg clk d w] dispatch_EXEC [OF assms, of cfg clk 0 w]
    by (simp add: numeral_2_eq_2)
next
  case False
  then show ?thesis
    by (cases cmd) (simp_all add: dispatch_def numeral_2_eq_2)
qed

theorem dispatch_bounded_stack_witness:
  "dispatch demo_config (\<lambda>n. n) (Suc (Suc 7)) \<lparr>in_transaction = True, queued_commands = [PING]\<rparr> empty_world EXEC =
   dispatch demo_config (\<lambda>n. n) 2 \<lparr>in_transaction = True, queued_commands = [PING]\<rparr> empty_world EXEC"
  by (rule dispatch_bounded_stack) (simp add: client_inv_def is_tx_def)

text \<open>
  Isolation of a transaction that is being collected: until \<open>EXEC\<close>, commands are only queued and
  the shared database, its deadlines and the spawned snapshots stay untouched; \<open>DISCARD\<close> forgets
  them without ever running one.
\<close>

theorem queued_commands_have_no_effect:
  assumes "in_transaction client" and "cmd \<noteq> EXEC"
  shows "w_db (snd (snd (dispatch cfg clk (Suc d) client w cmd))) = w_db w \<and>
         w_tasks (snd (snd (dispatch cfg clk (Suc d) client w cmd))) = w_tasks w \<and>
         (cmd = DISCARD \<longrightarrow> tx_of (fst (snd (dispatch cfg clk (Suc d) client w cmd))) = Idle) \<and>
         (\<not> is_tx cmd \<longrightarrow> tx_of (fst (snd (dispatch cfg clk (Suc d) client w cmd))) =
            Collecting (queued_commands client @ [cmd]))"
  using assms by (auto simp: dispatch_def is_control_def is_tx_def tx_of_def tick_def)

theorem queued_commands_have_no_effect_witness:
  "w_db (snd (snd (dispatch demo_config (\<lambda>n. n) (Suc 0) \<lparr>in_transaction = True, queued_commands = []\<rparr> empty_world
     (SET ''k'' ''v'' None)))) = w_db empty_world"
  using queued_commands_have_no_effect [of "\<lparr>in_transaction = True, queued_commands = []\<rparr>"
      "SET ''k'' ''v'' None" demo_config "\<lambda>n. n" 0 empty_world] by simp

text \<open>
  C29. A failing \<open>EXEC\<close> neither rolls back nor ends the transaction: the commands before the failing
  one have taken effect, the queue is still there, and the connection is still collecting, so the
  same commands run again at the next \<open>EXEC\<close>.
\<close>

theorem failed_exec_keeps_transaction:
  assumes "client_inv client" and "in_transaction client"
    and "dispatch cfg clk (Suc (Suc d)) client w EXEC = (Err e, client', w')"
  shows "client' = client \<and> (Err e, w') = run_plain cfg clk (tick w) (queued_commands client)"
  using assms(3) dispatch_EXEC [OF assms(1), of cfg clk d w]
  by (auto split: prod.splits outcome.splits)

theorem failed_exec_keeps_transaction_witness:
  "fst (snd (dispatch demo_config (\<lambda>n. n) (Suc (Suc 0))
      \<lparr>in_transaction = True, queued_commands = [SET ''a'' ''1'' None, LPUSH ''a'' [''x'']]\<rparr> empty_world EXEC)) =
   \<lparr>in_transaction = True, queued_commands = [SET ''a'' ''1'' None, LPUSH ''a'' [''x'']]\<rparr>"
proof -
  let ?c = "\<lparr>in_transaction = True, queued_commands = [SET ''a'' ''1'' None, LPUSH ''a'' [''x'']]\<rparr>"
  let ?d = "dispatch demo_config (\<lambda>n. n) (Suc (Suc 0)) ?c empty_world EXEC"
  have inv: "client_inv ?c" by (simp add: client_inv_def is_tx_def)
  have "\<exists>e. fst ?d = Err e"
    by (simp add: dispatch_def is_control_def empty_world_def tick_def DB_set_def DB_lpush_def
        new_in_memory_def)
  then obtain e where e: "?d = (Err e, fst (snd ?d), snd (snd ?d))" by (metis prod.collapse)
  from failed_exec_keeps_transaction [OF inv _ e] show ?thesis by simp
qed

text \<open>
  Commands keep the database consistent: from a consistent database and a connection with a
  well-formed queue, every well-formed command leads to such a state again, also through \<open>EXEC\<close>.
\<close>

theorem dispatch_keeps_database_consistent:
  assumes "session_inv client w" and "command_wf cmd"
    and "dispatch cfg clk (Suc (Suc d)) client w cmd = (r, client', w')"
  shows "session_inv client' w'"
  using assms by (rule dispatch_session_inv)

theorem dispatch_keeps_database_consistent_witness:
  "session_inv Client_new (empty_world\<lparr>w_db := snd (DB_rpush new_in_memory ''l'' [RO_String ''x'']), w_ticks := 1\<rparr>)"
proof (rule dispatch_keeps_database_consistent)
  show "session_inv Client_new empty_world"
    by (simp add: session_inv_def client_inv_def Client_new_def empty_world_def db_inv_new)
  show "command_wf (RPUSH ''l'' [''x''])" by code_simp
  show "dispatch demo_config (\<lambda>n. n) (Suc (Suc 0)) Client_new empty_world (RPUSH ''l'' [''x'']) =
      (Ok (SimpleString ''Ok''), Client_new,
       empty_world\<lparr>w_db := snd (DB_rpush new_in_memory ''l'' [RO_String ''x'']), w_ticks := 1\<rparr>)"
    by (simp add: dispatch_def Client_new_def empty_world_def tick_def DB_rpush_def new_in_memory_def)
qed

text \<open>
  \<open>GET\<close> on a connection outside a transaction answers with the visible string, with an error
  for a list, and for a missing or expired key with the bulk string \<open>nil\<close>: a client cannot tell a
  missing key from one that holds the three characters \<open>nil\<close>.
\<close>

theorem get_reply_spec:
  assumes "\<not> in_transaction client"
  shows "fst (dispatch cfg clk (Suc d) client w (GET k)) =
     (case live (clk (w_ticks w)) (w_db w) k of
        Some (RO_String s) \<Rightarrow> Ok (BulkString s)
      | Some (RO_List xs) \<Rightarrow> Err ''Wrong data type. Expected String, got List.''
      | None \<Rightarrow> Ok (BulkString ''nil''))"
proof -
  obtain r db' where g: "DB_get (clk (w_ticks w)) (w_db w) k = (r, db')" by fastforce
  with get_result [of "clk (w_ticks w)" "w_db w" k]
  have "r = Ok (or_nil (live (clk (w_ticks w)) (w_db w) k))" by simp
  with g assms show ?thesis
    by (simp add: dispatch_def or_nil_def nil_object_def split: option.split RedisObject.split)
qed

theorem get_reply_spec_witness:
  "fst (dispatch demo_config (\<lambda>n. n) (Suc 0) Client_new empty_world (GET ''missing'')) =
     Ok (BulkString ''nil'')"
  using get_reply_spec [of Client_new demo_config "\<lambda>n. n" 0 empty_world "''missing''"]
  by (simp add: Client_new_def empty_world_def live_def is_expired_def new_in_memory_def)

end
