(* ===== verification/Connection.thy ===== *)
theory Connection
  imports Dispatcher
begin

text \<open>
  The connection handler \<open>Client::handle\<close> of \<open>src/config/client.rs\<close>.

  Buffered output goes through tokio's \<open>BufWriter\<close>, which is a parameter: the environment of a
  connection supplies \<open>write_all\<close>, \<open>flush\<close> and \<open>buffer\<close>, and the locales \<open>buf_writer\<close>,
  \<open>connection\<close> and \<open>reliable_connection\<close> state what the handler relies on.  \<open>tcp_env\<close> is a writer
  over a socket that may fail after any number of bytes, and provides the laws.

  Input is the list of results of the read system calls on the socket.  The handler of a connection
  runs on them as far as they go; the end of the list means that it is waiting.
\<close>

section \<open>Constants\<close>

definition WRITE_BUF_BYTES :: nat where "WRITE_BUF_BYTES = 64 * 1024"
definition MAX_PIPELINE_DEPTH :: nat where "MAX_PIPELINE_DEPTH = 1000"

section \<open>The environment and the state of a connection\<close>

record 'w conn_env =
  e_cfg :: config
  e_clk :: "nat \<Rightarrow> instant"
  e_itoa :: "int \<Rightarrow> bytes"
  e_write_all :: "bytes \<Rightarrow> 'w write_op"
  e_flush :: "'w write_op"
  e_buffer :: "'w \<Rightarrow> bytes"

record 'w conn =
  cn_buf :: bytes
  cn_client :: Client
  cn_writer :: 'w
  cn_world :: world

text \<open>How control leaves a part of the handler.\<close>

datatype flow = Fall_Through | Break_Outer | Return | Crash panic

section \<open>One request\<close>

text \<open>
  \<open>extract_command\<close>, then \<open>dispatch\<close>; both error arms of the source answer with the message and go
  on with the next frame.  Two levels of \<open>execute_command\<close> are all that a connection ever needs
  (\<open>dispatch_EXEC\<close>).
\<close>

definition run_request ::
    "config \<Rightarrow> (nat \<Rightarrow> instant) \<Rightarrow> Client \<Rightarrow> world \<Rightarrow> RespType \<Rightarrow> exec_result" where
  "run_request cfg clk client w resp =
     (case extract_command cfg (clk (w_ticks w)) resp of
        Ok cmd \<Rightarrow> dispatch cfg clk 2 client (tick w) cmd
      | Err e \<Rightarrow> (Err e, client, tick w)
      | Panic p \<Rightarrow> (Panic p, client, tick w))"

definition reply_error :: "'w conn_env \<Rightarrow> bytes \<Rightarrow> 'w conn \<Rightarrow> 'w conn" where
  "reply_error env msg c =
     c\<lparr>cn_writer := snd (write_to (e_write_all env) (e_itoa env) (SimpleError msg) (cn_writer c))\<rparr>"

definition flush_ignored :: "'w conn_env \<Rightarrow> 'w conn \<Rightarrow> 'w conn" where
  "flush_ignored env c = c\<lparr>cn_writer := snd (e_flush env (cn_writer c))\<rparr>"

text \<open>The reply of a successful command, and the flush when the pipeline cap is reached.\<close>

definition send_reply :: "'w conn_env \<Rightarrow> nat \<Rightarrow> RespType \<Rightarrow> 'w conn \<Rightarrow> flow \<times> nat \<times> 'w conn" where
  "send_reply env pipeline_count res c =
     (case write_to (e_write_all env) (e_itoa env) res (cn_writer c) of
        (Err e, wr) \<Rightarrow> (Return, pipeline_count, c\<lparr>cn_writer := wr\<rparr>)
      | (Panic p, wr) \<Rightarrow> (Crash p, pipeline_count, c\<lparr>cn_writer := wr\<rparr>)
      | (Ok u, wr) \<Rightarrow>
          (if MAX_PIPELINE_DEPTH \<le> pipeline_count then
             (case e_flush env wr of
                (Ok u, wr') \<Rightarrow> (Fall_Through, 0, c\<lparr>cn_writer := wr'\<rparr>)
              | (Err e, wr') \<Rightarrow> (Break_Outer, pipeline_count, c\<lparr>cn_writer := wr'\<rparr>)
              | (Panic p, wr') \<Rightarrow> (Crash p, pipeline_count, c\<lparr>cn_writer := wr'\<rparr>))
           else (Fall_Through, pipeline_count, c\<lparr>cn_writer := wr\<rparr>)))"

definition answer ::
    "'w conn_env \<Rightarrow> nat \<Rightarrow> (bytes, RespType) outcome \<Rightarrow> 'w conn \<Rightarrow> flow \<times> nat \<times> 'w conn" where
  "answer env pipeline_count r c =
     (case r of
        Ok res \<Rightarrow> send_reply env pipeline_count res c
      | Err e \<Rightarrow> (Fall_Through, pipeline_count, reply_error env e c)
      | Panic p \<Rightarrow> (Crash p, pipeline_count, c))"

definition one_frame ::
    "'w conn_env \<Rightarrow> nat \<Rightarrow> 'w conn \<Rightarrow> RespType \<Rightarrow> nat \<Rightarrow> flow \<times> nat \<times> 'w conn" where
  "one_frame env pipeline_count c resp consumed =
     (if length (cn_buf c) < consumed then (Crash SliceOutOfRange, pipeline_count, c)
      else
        (case run_request (e_cfg env) (e_clk env) (cn_client c) (cn_world c) resp of
           (r, client', w') \<Rightarrow>
             answer env (pipeline_count + 1) r
               (c\<lparr>cn_buf := drop consumed (cn_buf c), cn_client := client', cn_world := w'\<rparr>)))"

section \<open>The pipeline loop\<close>

lemma send_reply_buf: "send_reply env pc res c = (fl, pc', c') \<Longrightarrow> cn_buf c' = cn_buf c"
  by (auto simp: send_reply_def split: prod.splits outcome.splits if_splits)

lemma answer_buf: "answer env pc r c = (fl, pc', c') \<Longrightarrow> cn_buf c' = cn_buf c"
  by (auto simp: answer_def reply_error_def dest: send_reply_buf split: outcome.splits)

lemma one_frame_buf:
  "one_frame env pc c resp n = (Fall_Through, pc', c') \<Longrightarrow>
     n \<le> length (cn_buf c) \<and> cn_buf c' = drop n (cn_buf c)"
  by (auto simp: one_frame_def dest: answer_buf split: if_splits prod.splits)

lemma one_frame_shrinks:
  assumes "parse (e_cfg env) (cn_buf c) = Ok rn"
    and "(Fall_Through, pc', c') = one_frame env pc c (fst rn) (snd rn)"
  shows "length (cn_buf c') < length (cn_buf c)"
  using one_frame_buf [OF assms(2) [symmetric]] parse_bounds [of "e_cfg env" "cn_buf c" "fst rn" "snd rn"]
    assms(1) by auto

text \<open>
  The inner loop: it ends because every parsed frame takes at least two bytes off the buffer.  The
  Boolean is \<open>made_progress\<close>.
\<close>

function drain :: "'w conn_env \<Rightarrow> nat \<Rightarrow> bool \<Rightarrow> 'w conn \<Rightarrow> flow \<times> bool \<times> 'w conn" where
  "drain env pipeline_count made_progress c =
     (if cn_buf c = [] then (Fall_Through, made_progress, c)
      else
        (case parse (e_cfg env) (cn_buf c) of
           Err Incomplete \<Rightarrow> (Fall_Through, made_progress, c)
         | Err (Invalid msg) \<Rightarrow>
             (Fall_Through, made_progress, (flush_ignored env (reply_error env msg c))\<lparr>cn_buf := []\<rparr>)
         | Panic p \<Rightarrow> (Crash p, made_progress, c)
         | Ok rn \<Rightarrow>
             (case one_frame env pipeline_count c (fst rn) (snd rn) of
                (fl, pc', c') \<Rightarrow>
                  (if fl = Fall_Through then drain env pc' True c' else (fl, True, c')))))"
  by auto
termination
  by (relation "measure (\<lambda>(_, _, _, c). length (cn_buf c))") (auto intro: one_frame_shrinks)

declare drain.simps [simp del]

section \<open>The connection loop\<close>

text \<open>One pass of the outer loop after the read: drain the buffer, then flush what it produced.\<close>

definition end_pass :: "'w conn_env \<Rightarrow> flow \<times> bool \<times> 'w conn \<Rightarrow> flow \<times> 'w conn" where
  "end_pass env drained =
     (case drained of
        (fl, made_progress, c) \<Rightarrow>
          (if fl = Fall_Through \<and> made_progress \<and> e_buffer env (cn_writer c) \<noteq> [] then
             (case e_flush env (cn_writer c) of
                (Ok u, wr) \<Rightarrow> (Fall_Through, c\<lparr>cn_writer := wr\<rparr>)
              | (Err e, wr) \<Rightarrow> (Return, c\<lparr>cn_writer := wr\<rparr>)
              | (Panic p, wr) \<Rightarrow> (Crash p, c\<lparr>cn_writer := wr\<rparr>))
           else (fl, c)))"

definition handle_pass :: "'w conn_env \<Rightarrow> 'w conn \<Rightarrow> flow \<times> 'w conn" where
  "handle_pass env c = end_pass env (drain env 0 False c)"

text \<open>
  A read returns data (none at the end of the stream), would block, or fails.  With an empty buffer
  the handler awaits the read, so that \<open>WouldBlock\<close> only means waiting longer; with a partial frame
  in the buffer it only tries to read and goes on to parse either way.
\<close>

datatype read_event = Data bytes | WouldBlock | ReadError

datatype read_action = Stop | Retry | Parse bytes

definition on_read :: "bytes \<Rightarrow> read_event \<Rightarrow> read_action" where
  "on_read buf ev =
     (case ev of
        Data bs \<Rightarrow> (if bs = [] then Stop else Parse (buf @ bs))
      | WouldBlock \<Rightarrow> (if buf = [] then Retry else Parse buf)
      | ReadError \<Rightarrow> Stop)"

datatype ending = Waiting | Closed | Aborted | Crashed panic

fun handle_loop :: "'w conn_env \<Rightarrow> 'w conn \<Rightarrow> read_event list \<Rightarrow> ending \<times> 'w conn" where
  "handle_loop env c [] = (Waiting, c)"
| "handle_loop env c (ev # evs) =
     (case on_read (cn_buf c) ev of
        Stop \<Rightarrow> (Closed, flush_ignored env c)
      | Retry \<Rightarrow> handle_loop env c evs
      | Parse buf \<Rightarrow>
          (case handle_pass env (c\<lparr>cn_buf := buf\<rparr>) of
             (Fall_Through, c') \<Rightarrow> handle_loop env c' evs
           | (Break_Outer, c') \<Rightarrow> (Closed, flush_ignored env c')
           | (Return, c') \<Rightarrow> (Aborted, c')
           | (Crash p, c') \<Rightarrow> (Crashed p, c')))"

definition handle :: "'w conn_env \<Rightarrow> 'w \<Rightarrow> world \<Rightarrow> read_event list \<Rightarrow> ending \<times> 'w conn" where
  "handle env writer w evs =
     handle_loop env \<lparr>cn_buf = [], cn_client = Client_new, cn_writer = writer, cn_world = w\<rparr> evs"

section \<open>The contract of the buffered writer\<close>

locale buf_writer = async_write write_all accepted
  for write_all :: "bytes \<Rightarrow> 'w write_op" and accepted :: "'w \<Rightarrow> bytes" +
  fixes flush :: "'w write_op"
    and buffer :: "'w \<Rightarrow> bytes"
  assumes flush_keeps: "accepted (snd (flush w)) = accepted w"
    and flush_no_panic: "\<not> panics (fst (flush w))"
    and flush_empties: "fst (flush w) = Ok () \<Longrightarrow> buffer (snd (flush w)) = []"

locale connection = buf_writer "e_write_all env" accepted "e_flush env" "e_buffer env"
  for env :: "'w conn_env" and accepted :: "'w \<Rightarrow> bytes" +
  assumes itoa_ok: "itoa_spec (e_itoa env)"
begin

lemma write_reply: "appends accepted (write_to (e_write_all env) (e_itoa env) r) (to_string r)"
  using itoa_ok by (rule write_to_appends)

lemma write_reply_cases:
  obtains (ok) wr where "write_to (e_write_all env) (e_itoa env) r w = (Ok (), wr)"
      and "accepted wr = accepted w @ to_string r"
  | (failed) e wr p where "write_to (e_write_all env) (e_itoa env) r w = (Err e, wr)"
      and "prefix p (to_string r)" and "accepted wr = accepted w @ p"
proof -
  obtain x wr where x: "write_to (e_write_all env) (e_itoa env) r w = (x, wr)" by (rule prod.exhaust)
  from write_reply [of r] have "case (x, wr) of (Ok u, w') \<Rightarrow> accepted w' = accepted w @ to_string r
      | (Err e, w') \<Rightarrow> (\<exists>p. prefix p (to_string r) \<and> accepted w' = accepted w @ p)
      | (Panic p, w') \<Rightarrow> False"
    unfolding appends_def x [symmetric] by (rule spec)
  with x show ?thesis by (cases x) (auto intro: that)
qed

end

text \<open>A connection whose peer takes everything.\<close>

locale reliable_connection = connection +
  assumes write_ok: "fst (e_write_all env b w) = Ok ()"
    and flush_ok: "fst (e_flush env w) = Ok ()"
begin

lemma write_chunks_ok: "fst (write_chunks (e_write_all env) bs w) = Ok ()"
proof (induction bs arbitrary: w rule: induct_list012)
  case (3 b c bs)
  then show ?case using write_ok [of b w] by (auto simp: write_seq_def split: prod.split)
qed (simp_all add: write_ok)

lemma write_seq_ok:
  "fst (f w) = Ok () \<Longrightarrow> (\<And>v. fst (g v) = Ok ()) \<Longrightarrow> fst (write_seq f g w) = Ok ()"
  by (auto simp: write_seq_def split: prod.split)

lemma write_items_ok:
  "(\<And>r v. r \<in> set rs \<Longrightarrow> fst (write_to (e_write_all env) i r v) = Ok ()) \<Longrightarrow>
     fst (write_items (e_write_all env) i rs w) = Ok ()"
proof (induction rs arbitrary: w)
  case (Cons r rs)
  then show ?case by (simp add: write_seq_ok)
qed simp

lemma write_to_ok: "fst (write_to (e_write_all env) i r w) = Ok ()"
proof (induction r arbitrary: w)
  case (Array rs)
  then show ?case by (simp add: write_seq_ok write_chunks_ok write_items_ok del: write_chunks.simps)
qed (simp_all add: write_ok write_chunks_ok del: write_chunks.simps)

lemma write_reply_exact:
  obtains wr where "write_to (e_write_all env) (e_itoa env) r w = (Ok (), wr)"
    and "accepted wr = accepted w @ to_string r"
proof (cases rule: write_reply_cases [of r w])
  case (failed e wr p)
  with write_to_ok [of "e_itoa env" r w] show ?thesis by simp
qed (rule that)

lemma flush_exact:
  obtains wr where "e_flush env w = (Ok (), wr)" and "accepted wr = accepted w"
    and "e_buffer env wr = []"
  using flush_ok [of w] flush_keeps [of w] flush_empties [of w] by (metis prod.collapse)

end

section \<open>A buffered writer over a socket\<close>

text \<open>
  A socket that takes \<open>limit\<close> bytes in all and then fails (\<open>None\<close>: never), behind a buffer of
  \<open>cap\<close> bytes: a slice that does not fit first pushes the buffer out, and one that is no smaller
  than the buffer goes directly to the socket.
\<close>

record bw =
  bw_sent :: bytes
  bw_buf :: bytes

definition bw_new :: bw where "bw_new = \<lparr>bw_sent = [], bw_buf = []\<rparr>"

definition bw_accepted :: "bw \<Rightarrow> bytes" where
  "bw_accepted s = bw_sent s @ bw_buf s"

definition bw_room :: "nat option \<Rightarrow> bw \<Rightarrow> bytes \<Rightarrow> nat" where
  "bw_room limit s bs =
     (case limit of None \<Rightarrow> length bs | Some n \<Rightarrow> min (length bs) (n - length (bw_sent s)))"

definition bw_flush :: "nat option \<Rightarrow> bw write_op" where
  "bw_flush limit s =
     (let n = bw_room limit s (bw_buf s);
          s' = \<lparr>bw_sent = bw_sent s @ take n (bw_buf s), bw_buf = drop n (bw_buf s)\<rparr>
      in if n = length (bw_buf s) then (Ok (), s') else (Err ''Broken pipe'', s'))"

definition bw_put :: "nat \<Rightarrow> nat option \<Rightarrow> bytes \<Rightarrow> bw write_op" where
  "bw_put cap limit bs s =
     (if length bs < cap then (Ok (), s\<lparr>bw_buf := bw_buf s @ bs\<rparr>)
      else
        (let n = bw_room limit s bs; s' = s\<lparr>bw_sent := bw_sent s @ take n bs\<rparr>
         in if n = length bs then (Ok (), s') else (Err ''Broken pipe'', s')))"

definition bw_write_all :: "nat \<Rightarrow> nat option \<Rightarrow> bytes \<Rightarrow> bw write_op" where
  "bw_write_all cap limit bs s =
     (if cap < length (bw_buf s) + length bs then write_seq (bw_flush limit) (bw_put cap limit bs) s
      else (Ok (), s\<lparr>bw_buf := bw_buf s @ bs\<rparr>))"

definition tcp_env :: "config \<Rightarrow> (nat \<Rightarrow> instant) \<Rightarrow> nat option \<Rightarrow> bw conn_env" where
  "tcp_env cfg clk limit =
     \<lparr>e_cfg = cfg, e_clk = clk, e_itoa = format_int,
      e_write_all = bw_write_all WRITE_BUF_BYTES limit, e_flush = bw_flush limit, e_buffer = bw_buf\<rparr>"

lemma bw_room_le: "bw_room limit s bs \<le> length bs"
  by (simp add: bw_room_def split: option.split)

lemma bw_buffer_accepted: "bw_accepted (s\<lparr>bw_buf := bw_buf s @ bs\<rparr>) = bw_accepted s @ bs"
  by (simp add: bw_accepted_def)

lemma bw_flush_accepted [simp]: "bw_accepted (snd (bw_flush limit s)) = bw_accepted s"
  by (simp add: bw_flush_def bw_accepted_def Let_def)

lemma bw_flush_Ok:
  "bw_flush limit s = (Ok u, s') \<Longrightarrow> bw_buf s' = [] \<and> bw_accepted s' = bw_accepted s"
  by (auto simp: bw_flush_def bw_accepted_def Let_def split: if_splits)

lemma bw_flush_no_panic: "\<not> panics (fst (bw_flush limit s))"
  by (simp add: bw_flush_def Let_def)

lemma bw_put_appends:
  "bw_buf s = [] \<Longrightarrow>
     (case bw_put cap limit bs s of (Ok u, s') \<Rightarrow> bw_accepted s' = bw_accepted s @ bs
        | (Err e, s') \<Rightarrow> (\<exists>p. prefix p bs \<and> bw_accepted s' = bw_accepted s @ p)
        | (Panic p, s') \<Rightarrow> False)"
  by (auto simp: bw_put_def bw_accepted_def Let_def intro: take_is_prefix)

lemma bw_write_all_appends: "appends bw_accepted (bw_write_all cap limit bs) bs"
  unfolding appends_def
proof
  fix s
  obtain r s' where f: "bw_flush limit s = (r, s')" by fastforce
  with bw_flush_no_panic [of limit s] bw_flush_accepted [of limit s]
  have *: "bw_accepted s' = bw_accepted s" "\<not> panics r" by simp_all
  show "case bw_write_all cap limit bs s of (Ok u, s') \<Rightarrow> bw_accepted s' = bw_accepted s @ bs
        | (Err e, s') \<Rightarrow> (\<exists>p. prefix p bs \<and> bw_accepted s' = bw_accepted s @ p)
        | (Panic p, s') \<Rightarrow> False"
  proof (cases r)
    case (Ok u)
    with f bw_flush_Ok [of limit s u s'] have "bw_buf s' = []" by simp
    note bw_put_appends [OF this, where cap = cap and limit = limit and bs = bs, unfolded *]
    with f Ok show ?thesis by (simp add: bw_write_all_def write_seq_def bw_buffer_accepted)
  qed (use f * in \<open>auto simp: bw_write_all_def write_seq_def bw_buffer_accepted\<close>)
qed

lemma bw_reliable:
  "fst (bw_flush None s) = Ok ()" "fst (bw_write_all cap None bs s) = Ok ()"
  by (auto simp: bw_flush_def bw_write_all_def bw_put_def bw_room_def write_seq_def Let_def)

lemma tcp_env_sel [simp]:
  "e_cfg (tcp_env cfg clk limit) = cfg" "e_clk (tcp_env cfg clk limit) = clk"
  "e_itoa (tcp_env cfg clk limit) = format_int"
  "e_write_all (tcp_env cfg clk limit) = bw_write_all WRITE_BUF_BYTES limit"
  "e_flush (tcp_env cfg clk limit) = bw_flush limit" "e_buffer (tcp_env cfg clk limit) = bw_buf"
  by (simp_all add: tcp_env_def)

interpretation tcp: connection "tcp_env cfg clk limit" bw_accepted for cfg clk limit
proof unfold_locales
  fix w assume "fst (e_flush (tcp_env cfg clk limit) w) = Ok ()"
  then show "e_buffer (tcp_env cfg clk limit) (snd (e_flush (tcp_env cfg clk limit) w)) = []"
    using bw_flush_Ok [of limit w] by (metis prod.collapse tcp_env_sel(5,6))
qed (simp_all add: bw_write_all_appends bw_flush_no_panic itoa_spec_def)

interpretation good: reliable_connection "tcp_env cfg clk None" bw_accepted for cfg clk
  by unfold_locales (simp_all add: bw_reliable)

section \<open>Whatever the peer sends, the database stays consistent\<close>

lemma session_inv_tick [simp]: "session_inv client (tick w) = session_inv client w"
  by (simp add: session_inv_def tick_def)

lemma run_request_inv:
  assumes "session_inv client w" "wf_resp resp" "run_request cfg clk client w resp = (r, client', w')"
  shows "session_inv client' w'"
proof (cases "extract_command cfg (clk (w_ticks w)) resp")
  case (Ok cmd)
  with assms have "dispatch cfg clk (Suc (Suc 0)) client (tick w) cmd = (r, client', w')"
    by (simp add: run_request_def numeral_2_eq_2)
  with dispatch_session_inv [of client "tick w" cmd] extract_command_wf [OF assms(2) Ok] assms(1)
  show ?thesis by simp
qed (use assms in \<open>auto simp: run_request_def\<close>)

definition conn_inv :: "'w conn \<Rightarrow> bool" where
  "conn_inv c \<longleftrightarrow> session_inv (cn_client c) (cn_world c)"

lemma send_reply_inv: "send_reply env pc res c = (fl, pc', c') \<Longrightarrow> conn_inv c' = conn_inv c"
  by (auto simp: send_reply_def conn_inv_def split: prod.splits outcome.splits if_splits)

lemma reply_error_inv [simp]: "conn_inv (reply_error env e c) = conn_inv c"
  by (simp add: reply_error_def conn_inv_def)

lemma flush_ignored_inv [simp]: "conn_inv (flush_ignored env c) = conn_inv c"
  by (simp add: flush_ignored_def conn_inv_def)

lemma conn_inv_updates [simp]:
  "conn_inv (c\<lparr>cn_buf := b\<rparr>) = conn_inv c" "conn_inv (c\<lparr>cn_writer := wr\<rparr>) = conn_inv c"
  by (simp_all add: conn_inv_def)

lemma one_frame_inv:
  assumes "one_frame env pc c resp n = (fl, pc', c')" "conn_inv c" "wf_resp resp"
  shows "conn_inv c'"
proof -
  obtain r client' w' where
    run: "run_request (e_cfg env) (e_clk env) (cn_client c) (cn_world c) resp = (r, client', w')"
    by (rule prod_cases3)
  have "conn_inv (c\<lparr>cn_buf := drop n (cn_buf c), cn_client := client', cn_world := w'\<rparr>)"
    using run_request_inv [OF _ assms(3) run] assms(2) by (simp add: conn_inv_def)
  then show ?thesis
    using assms(1,2) run
    by (auto simp: one_frame_def answer_def dest: send_reply_inv split: if_splits outcome.splits)
qed

lemma drain_inv: "drain env pc mp c = (fl, mp', c') \<Longrightarrow> conn_inv c \<Longrightarrow> conn_inv c'"
proof (induction env pc mp c rule: drain.induct)
  case (1 env pc mp c)
  show ?case
  proof (cases "cn_buf c = [] \<or> (\<nexists>rn. parse (e_cfg env) (cn_buf c) = Ok rn)")
    case True
    with "1.prems" show ?thesis
      by (auto simp: drain.simps [of env pc mp c] split: outcome.splits ParseError.splits if_splits)
  next
    case False
    then obtain resp n where p: "parse (e_cfg env) (cn_buf c) = Ok (resp, n)" and ne: "cn_buf c \<noteq> []"
      by fastforce
    obtain fl1 pc1 c1 where one: "one_frame env pc c resp n = (fl1, pc1, c1)" by (rule prod_cases3)
    from one_frame_inv [OF one "1.prems"(2) parse_wf_mutual(1) [OF p]] have "conn_inv c1" .
    with "1.prems"(1) "1.IH" [OF ne p _ refl] one p ne show ?thesis
      by (auto simp: drain.simps [of env pc mp c] split: if_splits)
  qed
qed

lemma handle_pass_inv: "handle_pass env c = (fl, c') \<Longrightarrow> conn_inv c \<Longrightarrow> conn_inv c'"
  by (auto simp: handle_pass_def end_pass_def dest: drain_inv split: prod.splits outcome.splits if_splits)

lemma handle_loop_inv: "handle_loop env c evs = (e, c') \<Longrightarrow> conn_inv c \<Longrightarrow> conn_inv c'"
proof (induction evs arbitrary: c)
  case (Cons ev evs)
  show ?case
  proof (cases "on_read (cn_buf c) ev")
    case (Parse b)
    obtain fl c1 where p: "handle_pass env (c\<lparr>cn_buf := b\<rparr>) = (fl, c1)" by fastforce
    with handle_pass_inv [OF p] Cons.prems have "conn_inv c1" by simp
    with Cons.IH [of c1] Cons.prems p Parse show ?thesis by (cases fl) auto
  qed (use Cons in auto)
qed simp

section \<open>Pipelining and fragmentation are transparent\<close>

text \<open>The specification: the requests of a session one after the other, one reply for each.\<close>

fun reply_of :: "(bytes, RespType) outcome \<Rightarrow> RespType" where
  "reply_of (Ok res) = res"
| "reply_of (Err e) = SimpleError e"
| "reply_of (Panic p) = Null"

fun serve ::
    "config \<Rightarrow> (nat \<Rightarrow> instant) \<Rightarrow> Client \<Rightarrow> world \<Rightarrow> RespType list \<Rightarrow>
     (bytes, RespType list) outcome \<times> Client \<times> world" where
  "serve cfg clk client w [] = (Ok [], client, w)"
| "serve cfg clk client w (req # reqs) =
     (case run_request cfg clk client w req of
        (Panic p, client', w') \<Rightarrow> (Panic p, client', w')
      | (r, client', w') \<Rightarrow>
          (case serve cfg clk client' w' reqs of
             (Ok reps, client'', w'') \<Rightarrow> (Ok (reply_of r # reps), client'', w'')
           | (x, client'', w'') \<Rightarrow> (x, client'', w'')))"

abbreviation encode :: "RespType list \<Rightarrow> bytes" where
  "encode rs \<equiv> concat (map to_string rs)"

lemma encode_Nil_iff [simp]: "encode rs = [] \<longleftrightarrow> rs = []"
  by (cases rs) auto

lemma frame_split:
  assumes "b @ rest = f @ fs"
  obtains (more) us where "b = f @ us" "us @ rest = fs" | (cut) "strict_prefix b f" "rest \<noteq> []"
proof -
  from assms obtain us where "b = f @ us \<and> us @ rest = fs \<or> b @ us = f \<and> rest = us @ fs"
    by (auto simp: append_eq_append_conv2)
  then show ?thesis
    by (cases "us = []") (auto simp: strict_prefix_def intro: more cut)
qed

text \<open>The next frame of an encoded stream of which \<open>b\<close> has been received.\<close>

lemma next_frame:
  assumes "b @ rest = encode reqs" "list_all (wire_safe cfg) reqs" "length (b @ rest) \<le> isize_max"
  obtains (wait) "b = [] \<or> parse cfg b = Err Incomplete \<and> rest \<noteq> []"
  | (frame) r rs us where "reqs = r # rs" and "b = to_string r @ us" and "us @ rest = encode rs"
      and "parse cfg b = Ok (decoded r, length (to_string r))"
proof (cases "b = []")
  case False
  with assms(1) obtain r rs where r: "reqs = r # rs" by (cases reqs) auto
  with assms(1) have "b @ rest = to_string r @ encode rs" by simp
  then show ?thesis
  proof (cases rule: frame_split)
    case cut
    have "length (to_string r) \<le> isize_max" using assms(1,3) r by simp
    with cut assms r parse_cut [of cfg r b] show ?thesis by (intro wait) simp
  next
    case (more us)
    have "length (to_string r @ us) \<le> isize_max" using assms(3) unfolding more(1) by simp
    with more assms(2) r parse_encoded [of cfg r us] show ?thesis by (intro frame [OF r more]) simp
  qed
qed (rule wait, simp)

lemma serve_ConsE:
  assumes "serve cfg clk client w (req # reqs) = (Ok reps, cl, w')"
  obtains r client1 w1 reps1 where "run_request cfg clk client w req = (r, client1, w1)"
    and "\<not> panics r" and "serve cfg clk client1 w1 reqs = (Ok reps1, cl, w')"
    and "reps = reply_of r # reps1"
  using assms by (auto split: prod.splits outcome.splits)

definition delivers :: "read_event list \<Rightarrow> bytes" where
  "delivers evs = concat (map (\<lambda>ev. case ev of Data bs \<Rightarrow> bs | _ \<Rightarrow> []) evs)"

definition calm :: "read_event list \<Rightarrow> bool" where
  "calm evs = list_all (\<lambda>ev. ev \<noteq> ReadError \<and> ev \<noteq> Data []) evs"

context connection
begin

text \<open>
  \<open>rest\<close> is still to arrive, \<open>out\<close> is all the output of the session, \<open>client\<close> and \<open>w\<close> its final
  state.
\<close>

definition on_track :: "'w conn \<Rightarrow> bytes \<Rightarrow> bytes \<Rightarrow> Client \<Rightarrow> world \<Rightarrow> bool" where
  "on_track c rest out client w \<longleftrightarrow>
     (\<exists>reqs reps. cn_buf c @ rest = encode reqs \<and> list_all (wire_safe (e_cfg env)) reqs \<and>
        length (cn_buf c @ rest) \<le> isize_max \<and>
        serve (e_cfg env) (e_clk env) (cn_client c) (cn_world c) (map decoded reqs) = (Ok reps, client, w) \<and>
        accepted (cn_writer c) @ encode reps = out)"

lemma on_track_writer:
  "on_track c rest out client w \<Longrightarrow> accepted wr = accepted (cn_writer c) \<Longrightarrow>
     on_track (c\<lparr>cn_writer := wr\<rparr>) rest out client w"
  by (simp add: on_track_def)

lemma on_track_read:
  "on_track c (bs @ rest) out client w \<Longrightarrow> on_track (c\<lparr>cn_buf := cn_buf c @ bs\<rparr>) rest out client w"
  by (simp add: on_track_def)

text \<open>The session waits for the rest of a frame, or has the next request in its buffer.\<close>

lemma on_track_cases:
  assumes "on_track c rest out client w"
  obtains (wait) "cn_buf c = [] \<or> parse (e_cfg env) (cn_buf c) = Err Incomplete \<and> rest \<noteq> []"
  | (frame) r us x client1 w1 where "cn_buf c = to_string r @ us"
      and "parse (e_cfg env) (cn_buf c) = Ok (decoded r, length (to_string r))"
      and "run_request (e_cfg env) (e_clk env) (cn_client c) (cn_world c) (decoded r) = (x, client1, w1)"
      and "\<not> panics x"
      and "\<And>wr. accepted wr = accepted (cn_writer c) @ to_string (reply_of x) \<Longrightarrow>
        on_track (c\<lparr>cn_buf := us, cn_client := client1, cn_writer := wr, cn_world := w1\<rparr>) rest out client w"
      and "prefix (accepted (cn_writer c) @ to_string (reply_of x)) out"
proof -
  from assms obtain reqs reps where t: "cn_buf c @ rest = encode reqs"
    "list_all (wire_safe (e_cfg env)) reqs" "length (cn_buf c @ rest) \<le> isize_max"
    "serve (e_cfg env) (e_clk env) (cn_client c) (cn_world c) (map decoded reqs) = (Ok reps, client, w)"
    "accepted (cn_writer c) @ encode reps = out"
    unfolding on_track_def by blast
  from t(1-3) show ?thesis
  proof (cases rule: next_frame)
    case (frame r rs us)
    from t(4) frame(1) obtain x client1 w1 reps1 where
      run: "run_request (e_cfg env) (e_clk env) (cn_client c) (cn_world c) (decoded r) = (x, client1, w1)"
      "\<not> panics x"
      and srv: "serve (e_cfg env) (e_clk env) client1 w1 (map decoded rs) = (Ok reps1, client, w)"
      "reps = reply_of x # reps1"
      by (auto elim!: serve_ConsE simp del: serve.simps)
    show ?thesis
    proof (rule that(2) [OF frame(2,4) run])
      fix wr assume "accepted wr = accepted (cn_writer c) @ to_string (reply_of x)"
      with frame t srv
      show "on_track (c\<lparr>cn_buf := us, cn_client := client1, cn_writer := wr, cn_world := w1\<rparr>) rest out client w"
        unfolding on_track_def by (intro exI [of _ rs] exI [of _ reps1]) auto
    qed (use t(5) srv(2) in auto)
  qed (rule that(1))
qed

end

context reliable_connection
begin

lemma send_reply_ok:
  obtains pc' wr where "send_reply env pc res c = (Fall_Through, pc', c\<lparr>cn_writer := wr\<rparr>)"
    and "accepted wr = accepted (cn_writer c) @ to_string res"
proof -
  obtain wr where wr: "write_to (e_write_all env) (e_itoa env) res (cn_writer c) = (Ok (), wr)"
    "accepted wr = accepted (cn_writer c) @ to_string res"
    by (rule write_reply_exact)
  obtain wr' where wr': "e_flush env wr = (Ok (), wr')" "accepted wr' = accepted wr"
    by (rule flush_exact)
  show ?thesis
    by (rule that [of "if MAX_PIPELINE_DEPTH \<le> pc then 0 else pc"
          "if MAX_PIPELINE_DEPTH \<le> pc then wr' else wr"])
      (simp_all add: send_reply_def wr wr')
qed

lemma one_frame_ok:
  assumes "run_request (e_cfg env) (e_clk env) (cn_client c) (cn_world c) resp = (r, client', w')"
    and "\<not> panics r" and "n \<le> length (cn_buf c)"
  obtains pc' wr where "one_frame env pc c resp n = (Fall_Through, pc',
       c\<lparr>cn_buf := drop n (cn_buf c), cn_client := client', cn_writer := wr, cn_world := w'\<rparr>)"
    and "accepted wr = accepted (cn_writer c) @ to_string (reply_of r)"
proof -
  let ?c = "c\<lparr>cn_buf := drop n (cn_buf c), cn_client := client', cn_world := w'\<rparr>"
  show ?thesis
  proof (cases r)
    case (Ok res)
    obtain pc' wr where "send_reply env (pc + 1) res ?c = (Fall_Through, pc', ?c\<lparr>cn_writer := wr\<rparr>)"
      "accepted wr = accepted (cn_writer c) @ to_string res"
      by (rule send_reply_ok [of "pc + 1" res ?c]) simp
    with Ok assms show ?thesis by (intro that) (simp_all add: one_frame_def answer_def)
  next
    case (Err e)
    obtain wr where
      "write_to (e_write_all env) (e_itoa env) (SimpleError e) (cn_writer c) = (Ok (), wr)"
      "accepted wr = accepted (cn_writer c) @ to_string (SimpleError e)"
      by (rule write_reply_exact)
    with Err assms show ?thesis
      by (intro that) (simp_all add: one_frame_def answer_def reply_error_def del: write_to.simps)
  qed (use assms in simp)
qed

lemma drain_on_track:
  "on_track c rest out client w \<Longrightarrow>
     \<exists>mp' c'. drain env pc mp c = (Fall_Through, mp', c') \<and> on_track c' rest out client w \<and>
       (mp' \<or> cn_writer c' = cn_writer c) \<and> (mp \<longrightarrow> mp') \<and> (rest = [] \<longrightarrow> cn_buf c' = [])"
proof (induction "length (cn_buf c)" arbitrary: pc mp c rule: less_induct)
  case less
  from less.prems show ?case
  proof (cases rule: on_track_cases)
    case wait
    with less.prems show ?thesis by (auto simp: drain.simps [of env pc mp c])
  next
    case (frame r us x client1 w1)
    then have ne: "cn_buf c \<noteq> []" and n: "length (to_string r) \<le> length (cn_buf c)" by auto
    from one_frame_ok [OF frame(3,4) n, of pc] frame(1) obtain pc' wr where
      one: "one_frame env pc c (decoded r) (length (to_string r)) = (Fall_Through, pc',
        c\<lparr>cn_buf := us, cn_client := client1, cn_writer := wr, cn_world := w1\<rparr>)"
      (is "_ = (_, _, ?c1)")
      and acc: "accepted wr = accepted (cn_writer c) @ to_string (reply_of x)"
      by auto
    have "length (cn_buf ?c1) < length (cn_buf c)" using frame(1) by simp
    from less.hyps [OF this frame(5) [OF acc], of pc' True] ne frame(2) one show ?thesis
      by (auto simp: drain.simps [of env pc mp c])
  qed
qed

end

context reliable_connection
begin

lemma handle_pass_on_track:
  assumes "on_track c rest out client w" "e_buffer env (cn_writer c) = []"
  obtains c' where "handle_pass env c = (Fall_Through, c')" "on_track c' rest out client w"
    "e_buffer env (cn_writer c') = []" "rest = [] \<Longrightarrow> cn_buf c' = []"
proof -
  from drain_on_track [OF assms(1), of 0 False] obtain mp c1 where
    d: "drain env 0 False c = (Fall_Through, mp, c1)" "on_track c1 rest out client w"
    "mp \<or> cn_writer c1 = cn_writer c" "rest = [] \<longrightarrow> cn_buf c1 = []"
    by blast
  show ?thesis
  proof (cases "e_buffer env (cn_writer c1) = []")
    case True
    with d show ?thesis by (intro that [of c1]) (simp_all add: handle_pass_def end_pass_def)
  next
    case False
    obtain wr where wr: "e_flush env (cn_writer c1) = (Ok (), wr)"
      "accepted wr = accepted (cn_writer c1)" "e_buffer env wr = []"
      by (rule flush_exact)
    with False d assms(2) show ?thesis
      by (intro that [of "c1\<lparr>cn_writer := wr\<rparr>"]) (auto simp: handle_pass_def end_pass_def on_track_writer)
  qed
qed

lemma handle_loop_on_track:
  assumes "calm evs" "on_track c (delivers evs) out client w" "e_buffer env (cn_writer c) = []"
    "delivers evs = [] \<longrightarrow> cn_buf c = []"
  shows "\<exists>c'. handle_loop env c evs = (Waiting, c') \<and> on_track c' [] out client w \<and>
     e_buffer env (cn_writer c') = [] \<and> cn_buf c' = []"
  using assms
proof (induction evs arbitrary: c)
  case Nil
  then show ?case by (auto simp: delivers_def)
next
  case (Cons ev evs)
  have calm: "calm evs" using Cons.prems(1) by (simp add: calm_def)
  show ?case
  proof (cases "on_read (cn_buf c) ev")
    case Stop
    with Cons.prems(1) show ?thesis
      by (auto simp: on_read_def calm_def split: read_event.splits if_splits)
  next
    case Retry
    then have "ev = WouldBlock" by (auto simp: on_read_def split: read_event.splits if_splits)
    with Retry Cons.IH [OF calm, of c] Cons.prems show ?thesis by (simp add: delivers_def)
  next
    case (Parse b)
    then have "\<exists>bs. b = cn_buf c @ bs \<and> delivers (ev # evs) = bs @ delivers evs"
      by (auto simp: on_read_def delivers_def split: read_event.splits if_splits)
    with Cons.prems(2) on_track_read have "on_track (c\<lparr>cn_buf := b\<rparr>) (delivers evs) out client w"
      by auto
    from handle_pass_on_track [OF this] Cons.prems(3) obtain c1 where
      "handle_pass env (c\<lparr>cn_buf := b\<rparr>) = (Fall_Through, c1)" "on_track c1 (delivers evs) out client w"
      "e_buffer env (cn_writer c1) = []" "delivers evs = [] \<longrightarrow> cn_buf c1 = []"
      by auto
    with Cons.IH [OF calm, of c1] Parse show ?thesis by simp
  qed
qed

lemma handle_serves:
  assumes "e_buffer env writer = []" "list_all (wire_safe (e_cfg env)) reqs"
    "length (encode reqs) \<le> isize_max" "calm evs" "delivers evs = encode reqs"
    "serve (e_cfg env) (e_clk env) Client_new w (map decoded reqs) = (Ok reps, client', w')"
  shows "\<exists>writer'. handle env writer w evs =
       (Waiting, \<lparr>cn_buf = [], cn_client = client', cn_writer = writer', cn_world = w'\<rparr>) \<and>
     accepted writer' = accepted writer @ encode reps \<and> e_buffer env writer' = []"
proof -
  let ?c = "\<lparr>cn_buf = [], cn_client = Client_new, cn_writer = writer, cn_world = w\<rparr>"
  have "on_track ?c (delivers evs) (accepted writer @ encode reps) client' w'"
    unfolding on_track_def using assms by (intro exI [of _ reqs] exI [of _ reps]) auto
  from handle_loop_on_track [OF assms(4) this] assms(1) obtain c' where c':
    "handle_loop env ?c evs = (Waiting, c')" "e_buffer env (cn_writer c') = []" "cn_buf c' = []"
    "on_track c' [] (accepted writer @ encode reps) client' w'"
    by auto
  have "c' = \<lparr>cn_buf = [], cn_client = client', cn_writer = cn_writer c', cn_world = w'\<rparr>"
    "accepted (cn_writer c') = accepted writer @ encode reps"
    using c'(3,4) by (auto simp: on_track_def)
  with c' show ?thesis by (auto simp: handle_def)
qed

end

section \<open>Properties\<close>

text \<open>
  C1. Pipelining and fragmentation are transparent: however the encoded requests of a session are cut
  into reads and however often a read would block, a connection whose peer takes its output answers
  exactly as if the requests were executed one by one: one reply per request, in order, byte for
  byte the reference encoding, all of them flushed, and the same final database.
\<close>

theorem handle_serves_pipeline:
  assumes "reliable_connection env accepted" and "e_buffer env writer = []"
    and "list_all (wire_safe (e_cfg env)) reqs" and "length (encode reqs) \<le> isize_max"
    and "calm evs" and "delivers evs = encode reqs"
    and "serve (e_cfg env) (e_clk env) Client_new w (map decoded reqs) = (Ok reps, client', w')"
  shows "\<exists>writer'. handle env writer w evs =
       (Waiting, \<lparr>cn_buf = [], cn_client = client', cn_writer = writer', cn_world = w'\<rparr>) \<and>
     accepted writer' = accepted writer @ encode reps \<and> e_buffer env writer' = []"
  using reliable_connection.handle_serves [OF assms] .

abbreviation demo_env :: "bw conn_env" where
  "demo_env \<equiv> tcp_env demo_config (\<lambda>n. n) None"

theorem handle_serves_pipeline_witness:
  "\<exists>writer' w'. handle demo_env bw_new empty_world
      [Data (''*1'' @ CRLF @ ''$4'' @ CRLF @ ''PI''), WouldBlock,
       Data (''NG'' @ CRLF @ ''*2'' @ CRLF @ ''$3'' @ CRLF @ ''GET'' @ CRLF @ ''$1'' @ CRLF @ ''k'' @ CRLF)] =
       (Waiting, \<lparr>cn_buf = [], cn_client = Client_new, cn_writer = writer', cn_world = w'\<rparr>) \<and>
     bw_accepted writer' = ''+Pong'' @ CRLF @ ''$3'' @ CRLF @ ''nil'' @ CRLF \<and> bw_buf writer' = []"
  (is "\<exists>writer' w'. handle _ _ _ ?evs = _ \<and> _")
proof -
  let ?reqs = "[Array [BulkString ''PING''], Array [BulkString ''GET'', BulkString ''k'']]"
  let ?reps = "[SimpleString ''Pong'', BulkString ''nil'']"
  have srv: "\<exists>w'. serve demo_config (\<lambda>n. n) Client_new empty_world (map decoded ?reqs) =
      (Ok ?reps, Client_new, w')"
    by (simp add: run_request_def extract_command_def parse_command_def dispatch_def Client_new_def
        to_ascii_uppercase_def ascii_upper_def with_key_def numeral_2_eq_2 empty_world_def tick_def
        DB_get_def is_expired_def new_in_memory_def nil_object_def)
  have safe: "list_all (wire_safe demo_config) ?reqs" "length (encode ?reqs) \<le> isize_max"
    by code_simp+
  have evs: "calm ?evs" "delivers ?evs = encode ?reqs" by code_simp+
  have out: "encode ?reps = ''+Pong'' @ CRLF @ ''$3'' @ CRLF @ ''nil'' @ CRLF" by code_simp
  from srv obtain w' where w': "serve demo_config (\<lambda>n. n) Client_new empty_world (map decoded ?reqs) =
      (Ok ?reps, Client_new, w')" by blast
  from handle_serves_pipeline [OF good.reliable_connection_axioms [of demo_config "\<lambda>n. n"],
      where writer = bw_new and reqs = ?reqs and evs = ?evs and w = empty_world and reps = ?reps
        and client' = Client_new and w' = w'] safe evs w' out
  show ?thesis by (simp add: bw_new_def bw_accepted_def del: serve.simps) blast
qed

text \<open>
  C10. No byte stream corrupts the database: whatever a peer sends, however its reads and writes fail
  and wherever its task panics, a handler that runs alone on a consistent database leaves it
  consistent, and the connection's queue holds only well-formed commands.
\<close>

theorem handle_keeps_database_consistent:
  assumes "db_inv (w_db w)" and "handle env writer w evs = (e, c)"
  shows "session_inv (cn_client c) (cn_world c)"
proof -
  have "conn_inv \<lparr>cn_buf = [], cn_client = Client_new, cn_writer = writer, cn_world = w\<rparr>"
    using assms(1) by (simp add: conn_inv_def session_inv_def client_inv_def Client_new_def)
  with handle_loop_inv assms(2) show ?thesis by (fastforce simp: handle_def conn_inv_def)
qed

theorem handle_keeps_database_consistent_witness:
  "db_inv (w_db (cn_world (snd (handle demo_env bw_new empty_world
     [Data (''SET a 1'' @ CRLF), Data (''LPUSH a 2'' @ CRLF), ReadError]))))"
proof -
  let ?h = "handle demo_env bw_new empty_world
     [Data (''SET a 1'' @ CRLF), Data (''LPUSH a 2'' @ CRLF), ReadError]"
  have "db_inv (w_db empty_world)" by (simp add: empty_world_def db_inv_new)
  moreover have "?h = (fst ?h, snd ?h)" by simp
  ultimately have "session_inv (cn_client (snd ?h)) (cn_world (snd ?h))"
    by (rule handle_keeps_database_consistent)
  then show ?thesis by (simp add: session_inv_def)
qed

text \<open>
  C14. \<open>write_to\<close>, with its constant replies and piecewise writes, is equivalent to the reference
  encoding: on every writer that keeps its contract a successful \<open>write_to\<close> appends exactly
  \<open>to_string\<close>, and a failed one a prefix of it.
\<close>

theorem write_to_writes_encoding:
  assumes "async_write write_all accepted" and "itoa_spec itoa"
  shows "case write_to write_all itoa r w of
      (Ok u, w') \<Rightarrow> accepted w' = accepted w @ to_string r
    | (Err e, w') \<Rightarrow> (\<exists>p. prefix p (to_string r) \<and> accepted w' = accepted w @ p)
    | (Panic p, w') \<Rightarrow> False"
  using async_write.write_to_appends [OF assms, of r] unfolding appends_def by (rule spec)

theorem write_to_writes_encoding_witness:
  "case write_to (bw_write_all 4 (Some 9)) format_int (Array [BulkString ''nil'', Integer (-5)]) bw_new of
      (Ok u, w') \<Rightarrow> bw_accepted w' = bw_accepted bw_new @ to_string (Array [BulkString ''nil'', Integer (-5)])
    | (Err e, w') \<Rightarrow> (\<exists>p. prefix p (to_string (Array [BulkString ''nil'', Integer (-5)])) \<and>
                        bw_accepted w' = bw_accepted bw_new @ p)
    | (Panic p, w') \<Rightarrow> False"
  by (rule write_to_writes_encoding)
    (simp_all add: async_write_def bw_write_all_appends itoa_spec_def)

text \<open>
  A malformed frame is answered with its message and everything received behind it is dropped,
  but the connection, its transaction and the database go on unchanged.
\<close>

theorem malformed_frame_recovers:
  assumes "bs \<noteq> []" and "parse (e_cfg env) (cn_buf c @ bs) = Err (Invalid msg)"
  shows "handle_loop env c (Data bs # evs) =
     handle_loop env ((flush_ignored env (reply_error env msg c))\<lparr>cn_buf := []\<rparr>) evs"
proof -
  have "cn_buf c @ bs \<noteq> []" using assms(1) by simp
  with assms show ?thesis
    by (simp add: on_read_def handle_pass_def end_pass_def drain.simps reply_error_def flush_ignored_def)
qed

theorem malformed_frame_recovers_witness:
  "bw_sent (cn_writer (snd (handle demo_env bw_new empty_world [Data ('':x'' @ CRLF @ ''PING'' @ CRLF)]))) =
     ''-Invalid integer value.'' @ CRLF"
proof -
  let ?c = "\<lparr>cn_buf = [], cn_client = Client_new, cn_writer = bw_new, cn_world = empty_world\<rparr>"
  have p: "parse (e_cfg demo_env) (cn_buf ?c @ '':x'' @ CRLF @ ''PING'' @ CRLF) =
      Err (Invalid ''Invalid integer value.'')"
    unfolding tcp_env_sel conn.simps by code_simp
  have o: "bw_sent (cn_writer (flush_ignored demo_env (reply_error demo_env ''Invalid integer value.'' ?c))) =
      ''-Invalid integer value.'' @ CRLF"
    by code_simp
  from malformed_frame_recovers [OF _ p, of "[]"] o show ?thesis by (simp add: handle_def)
qed

text \<open>
  What is dropped behind a malformed frame depends on the segmentation of the stream: the same
  bytes get one reply when they arrive in one read and two when they arrive in two.
\<close>

theorem malformed_frame_segmentation:
  "bw_sent (cn_writer (snd (handle demo_env bw_new empty_world [Data ('':x'' @ CRLF @ ''PING'' @ CRLF)]))) \<noteq>
   bw_sent (cn_writer (snd (handle demo_env bw_new empty_world [Data ('':x'' @ CRLF), Data (''PING'' @ CRLF)])))"
  by code_simp




end
