(* ===== verification/Server.thy ===== *)
theory Server
  imports Connection "HOL-Library.Word"
begin

text \<open>
  \<open>src/server.rs\<close> and \<open>src/main.rs\<close>: the command line, the search for a free port, the listeners of
  the workers and the accept loop.

  The operating system is a parameter: \<open>os n call port\<close> is the error of system call \<open>call\<close> in the
  \<open>n\<close>-th attempt to build a listener, if it fails.  A port is a 16-bit word.  The search for a port
  need not end and is a \<open>partial_function\<close>: \<open>None\<close> means that it runs forever.
\<close>

section \<open>Listeners\<close>

type_synonym u16 = "16 word"

datatype io_kind = AddrInUse | OtherKind

datatype syscall =
    Sys_socket | Sys_reuse_port | Sys_reuse_address | Sys_nonblocking | Sys_bind | Sys_listen
  | Sys_from_std

type_synonym os = "nat \<Rightarrow> syscall \<Rightarrow> u16 \<Rightarrow> io_kind option"

text \<open>An \<open>anyhow\<close> error: the contexts, the outermost first, and the \<open>io::Error\<close> at the root.\<close>

record net_error =
  ne_context :: "bytes list"
  ne_root :: io_kind

definition add_context :: "bytes \<Rightarrow> net_error \<Rightarrow> net_error" where
  "add_context ctx e = e\<lparr>ne_context := ctx # ne_context e\<rparr>"

definition format_addr :: "u16 \<Rightarrow> bytes" where
  "format_addr port = ''127.0.0.1:'' @ format_nat (unat port)"

definition sys :: "os \<Rightarrow> nat \<Rightarrow> u16 \<Rightarrow> syscall \<Rightarrow> bytes \<Rightarrow> (net_error, unit) outcome" where
  "sys os n port call ctx =
     (case os n call port of
        None \<Rightarrow> Ok ()
      | Some k \<Rightarrow> Err \<lparr>ne_context = [ctx], ne_root = k\<rparr>)"

record listener =
  l_port :: u16
  l_backlog :: nat

definition build_listener :: "os \<Rightarrow> nat \<Rightarrow> u16 \<Rightarrow> (net_error, listener) outcome" where
  "build_listener os n port =
     and_then (sys os n port Sys_socket ''socket() failed'') (\<lambda>_.
     and_then (sys os n port Sys_reuse_port ''SO_REUSEPORT not supported on this platform'') (\<lambda>_.
     and_then (sys os n port Sys_reuse_address ''SO_REUSEADDR failed'') (\<lambda>_.
     and_then (sys os n port Sys_nonblocking ''O_NONBLOCK failed'') (\<lambda>_.
     and_then (sys os n port Sys_bind (''bind() to '' @ format_addr port @ '' failed'')) (\<lambda>_.
     and_then (sys os n port Sys_listen ''listen() failed'') (\<lambda>_.
     and_then (sys os n port Sys_from_std ''Tokio TcpListener conversion failed'') (\<lambda>_.
       Ok \<lparr>l_port = port, l_backlog = 1024\<rparr>)))))))"

section \<open>Starting the server\<close>

text \<open>\<open>port += 1\<close> on a \<open>u16\<close>.\<close>

definition next_port :: "config \<Rightarrow> u16 \<Rightarrow> (net_error, u16) outcome" where
  "next_port cfg port =
     (if overflow_checks cfg \<and> port = 65535 then Panic ArithmeticOverflow else Ok (port + 1))"

partial_function (option) bind_loop ::
    "config \<Rightarrow> os \<Rightarrow> nat \<Rightarrow> u16 \<Rightarrow> (net_error, u16) outcome option" where
  "bind_loop cfg os n port =
     (case build_listener os n port of
        Ok l \<Rightarrow> Some (Ok port)
      | Err e \<Rightarrow>
          (if ne_root e = AddrInUse then
             (case next_port cfg port of
                Ok port' \<Rightarrow> bind_loop cfg os (n + 1) port'
              | Err e' \<Rightarrow> Some (Err e')
              | Panic p \<Rightarrow> Some (Panic p))
           else Some (Err (add_context (''failed to bind to port '' @ format_nat (unat port)) e)))
      | Panic p \<Rightarrow> Some (Panic p))"

record Server =
  s_addr :: u16
  s_db :: DB

definition Server_new ::
    "config \<Rightarrow> clocks \<Rightarrow> fs \<Rightarrow> os \<Rightarrow> u16 \<Rightarrow> (net_error, Server) outcome option" where
  "Server_new cfg clk fs os port =
     (case DB_new cfg clk fs of
        Ok db \<Rightarrow>
          map_option (\<lambda>r. and_then r (\<lambda>addr. Ok \<lparr>s_addr = addr, s_db = db\<rparr>)) (bind_loop cfg os 0 port)
      | Err e \<Rightarrow> Some (Err e)
      | Panic p \<Rightarrow> Some (Panic p))"

text \<open>
  \<open>Server::run\<close> builds one listener per worker and stops at the first that fails; the workers
  started before it are running already.  Attempts are counted from \<open>n\<close>.
\<close>

fun start_workers ::
    "os \<Rightarrow> nat \<Rightarrow> u16 \<Rightarrow> nat list \<Rightarrow> (net_error, unit) outcome \<times> (nat \<times> listener) list" where
  "start_workers os n addr [] = (Ok (), [])"
| "start_workers os n addr (worker_id # ids) =
     (case build_listener os n addr of
        Ok l \<Rightarrow> (case start_workers os (n + 1) addr ids of (r, ws) \<Rightarrow> (r, (worker_id, l) # ws))
      | Err e \<Rightarrow>
          (Err (add_context (''worker '' @ format_nat worker_id @ '' failed to bind'') e), [])
      | Panic p \<Rightarrow> (Panic p, []))"

definition Server_run ::
    "os \<Rightarrow> nat \<Rightarrow> nat \<Rightarrow> Server \<Rightarrow> (net_error, unit) outcome \<times> (nat \<times> listener) list" where
  "Server_run os n num_cpus server = start_workers os n (s_addr server) [0..<num_cpus]"

text \<open>
  The accept loop of a worker on the results of its \<open>accept\<close> calls: the sockets for which it spawns
  a handler with a fresh \<open>Client\<close> and the shared database, and the milliseconds it has slept.
\<close>

datatype 's accept_event = Accepted 's | AcceptError

fun accept_loop :: "nat \<Rightarrow> 's accept_event list \<Rightarrow> (nat \<times> 's) list \<times> nat" where
  "accept_loop worker_id [] = ([], 0)"
| "accept_loop worker_id (Accepted socket # evs) =
     (case accept_loop worker_id evs of (spawned, ms) \<Rightarrow> ((worker_id, socket) # spawned, ms))"
| "accept_loop worker_id (AcceptError # evs) =
     (case accept_loop worker_id evs of (spawned, ms) \<Rightarrow> (spawned, 10 + ms))"

section \<open>The command line\<close>

definition DEFAULT_PORT :: u16 where "DEFAULT_PORT = 6379"

definition port_or_default :: "bytes \<Rightarrow> u16" where
  "port_or_default s = (case parse_u16 s of Some n \<Rightarrow> of_nat n | None \<Rightarrow> DEFAULT_PORT)"

function parse_args_from :: "bytes list \<Rightarrow> nat \<Rightarrow> u16 \<Rightarrow> u16" where
  "parse_args_from args i port =
     (if i < length args then
        (if args ! i = ''--port'' then
           (if i + 1 < length args then parse_args_from args (i + 2) (port_or_default (args ! (i + 1)))
            else parse_args_from args (i + 1) port)
         else parse_args_from args (i + 1) port)
      else port)"
  by auto
termination
  by (relation "measure (\<lambda>(args, i, _). length args - i)") auto

declare parse_args_from.simps [simp del]

definition parse_args :: "bytes list \<Rightarrow> u16" where
  "parse_args args = parse_args_from args 1 DEFAULT_PORT"

definition main ::
    "config \<Rightarrow> clocks \<Rightarrow> fs \<Rightarrow> os \<Rightarrow> nat \<Rightarrow> nat \<Rightarrow> bytes list \<Rightarrow>
     ((net_error, unit) outcome \<times> (nat \<times> listener) list) option" where
  "main cfg clk fs os n num_cpus args =
     map_option
       (\<lambda>r. case r of
          Ok server \<Rightarrow> Server_run os n num_cpus server
        | Err e \<Rightarrow> (Err e, [])
        | Panic p \<Rightarrow> (Panic p, []))
       (Server_new cfg clk fs os (parse_args args))"

section \<open>Lemmas\<close>

definition in_use :: "os \<Rightarrow> nat \<Rightarrow> u16 \<Rightarrow> bool" where
  "in_use os n port \<longleftrightarrow>
     os n Sys_socket port = None \<and> os n Sys_reuse_port port = None \<and>
     os n Sys_reuse_address port = None \<and> os n Sys_nonblocking port = None \<and>
     os n Sys_bind port = Some AddrInUse"

lemma build_listener_in_use:
  "in_use os n port \<Longrightarrow> build_listener os n port =
     Err \<lparr>ne_context = [''bind() to '' @ format_addr port @ '' failed''], ne_root = AddrInUse\<rparr>"
  by (simp add: in_use_def build_listener_def sys_def)

lemma build_listener_Ok:
  "build_listener os n port = Ok l \<longleftrightarrow>
     (\<forall>call. os n call port = None) \<and> l = \<lparr>l_port = port, l_backlog = 1024\<rparr>"
proof -
  have "(\<forall>call. os n call port = None) \<longleftrightarrow>
      os n Sys_socket port = None \<and> os n Sys_reuse_port port = None \<and>
      os n Sys_reuse_address port = None \<and> os n Sys_nonblocking port = None \<and>
      os n Sys_bind port = None \<and> os n Sys_listen port = None \<and> os n Sys_from_std port = None"
    by (metis syscall.exhaust)
  then show ?thesis
    by (auto simp: build_listener_def sys_def outcome_simps split: option.splits)
qed

lemma build_listener_no_panic: "\<not> panics (build_listener os n port)"
  by (auto simp: build_listener_def sys_def split: option.split)

text \<open>The search takes one step past a port in use.\<close>

lemma bind_loop_in_use:
  "in_use os n port \<Longrightarrow> bind_loop cfg os n port =
     (case next_port cfg port of Ok port' \<Rightarrow> bind_loop cfg os (n + 1) port'
      | Err e' \<Rightarrow> Some (Err e') | Panic p \<Rightarrow> Some (Panic p))"
  by (subst bind_loop.simps) (simp add: build_listener_in_use)

lemma unat_next_port:
  "unat port + 1 < 2 ^ 16 \<Longrightarrow> next_port cfg port = Ok (port + 1) \<and> unat (port + 1) = unat port + 1"
proof -
  assume *: "unat port + 1 < 2 ^ 16"
  then have "port \<noteq> 65535" by auto
  moreover from * have "unat (port + 1) = unat port + 1"
    by (subst unat_add_lem [THEN iffD1]) simp_all
  ultimately show ?thesis by (simp add: next_port_def)
qed

lemma bind_loop_skips:
  "unat port + k < 2 ^ 16 \<Longrightarrow> (\<forall>j<k. in_use os (n + j) (port + of_nat j)) \<Longrightarrow>
     bind_loop cfg os n port = bind_loop cfg os (n + k) (port + of_nat k)"
proof (induction k arbitrary: n port)
  case (Suc k)
  have u: "in_use os n port" using Suc.prems(2) by fastforce
  have np: "next_port cfg port = Ok (port + 1)" "unat (port + 1) = unat port + 1"
    using unat_next_port [of port] Suc.prems(1) by simp_all
  have "in_use os (n + 1 + j) (port + 1 + of_nat j)" if "j < k" for j
    using Suc.prems(2) that by (auto dest!: spec [of _ "Suc j"] simp: add.assoc)
  with Suc.IH [of "port + 1" "n + 1"] Suc.prems(1) np
  have "bind_loop cfg os (n + 1) (port + 1) = bind_loop cfg os (n + 1 + k) (port + 1 + of_nat k)"
    by simp
  with bind_loop_in_use [OF u, of cfg] np show ?case by (simp add: add.assoc)
qed simp

lemma bind_loop_never:
  assumes "bind_loop cfg os n port = Some y" "\<not> overflow_checks cfg" "\<forall>n port. in_use os n port"
  shows False
proof -
  have "\<not> overflow_checks cfg \<longrightarrow> (\<forall>n port. in_use os n port) \<longrightarrow> False"
  proof (rule bind_loop.raw_induct [OF _ assms(1)])
    fix rec cfg os n port y
    assume IH: "\<And>cfg os n port y. rec cfg os n port = Some y \<Longrightarrow>
          \<not> overflow_checks cfg \<longrightarrow> (\<forall>n port. in_use os n port) \<longrightarrow> False"
      and body: "(case build_listener os n port of Ok l \<Rightarrow> Some (Ok port)
        | Err e \<Rightarrow> (if ne_root e = AddrInUse then
             (case next_port cfg port of Ok port' \<Rightarrow> rec cfg os (n + 1) port'
              | Err e' \<Rightarrow> Some (Err e') | Panic p \<Rightarrow> Some (Panic p))
           else Some (Err (add_context (''failed to bind to port '' @ format_nat (unat port)) e)))
        | Panic p \<Rightarrow> Some (Panic p)) = Some y"
    show "\<not> overflow_checks cfg \<longrightarrow> (\<forall>n port. in_use os n port) \<longrightarrow> False"
    proof (intro impI)
      assume *: "\<not> overflow_checks cfg" "\<forall>n port. in_use os n port"
      with body have "rec cfg os (n + 1) (port + 1) = Some y"
        by (simp add: build_listener_in_use next_port_def)
      with IH * show False by blast
    qed
  qed
  with assms show False by blast
qed

text \<open>The list scan that the index loop of \<open>parse_args\<close> performs.\<close>

fun scan_port :: "u16 \<Rightarrow> bytes list \<Rightarrow> u16" where
  "scan_port port [] = port"
| "scan_port port [a] = port"
| "scan_port port (a # v # args) =
     (if a = ''--port'' then scan_port (port_or_default v) args else scan_port port (v # args))"

lemma parse_args_from_scan: "parse_args_from args i port = scan_port port (drop i args)"
proof (induction args i port rule: parse_args_from.induct)
  case (1 args i port)
  consider "length args \<le> i" | "i + 1 = length args" | "i + 1 < length args" by linarith
  then show ?case
  proof cases
    case 1
    then show ?thesis by (subst parse_args_from.simps) simp
  next
    case 2
    then have "drop i args = [args ! i]"
      by (metis Cons_nth_drop_Suc Suc_eq_plus1 drop_all le_refl lessI)
    with 2 "1.IH" show ?thesis by (subst parse_args_from.simps) auto
  next
    case 3
    then have "drop i args = args ! i # args ! (i + 1) # drop (i + 2) args"
      by (metis Cons_nth_drop_Suc Suc_eq_plus1 Suc_lessD add_2_eq_Suc')
    moreover from this have "drop (i + 1) args = args ! (i + 1) # drop (i + 2) args"
      using 3 by (metis Cons_nth_drop_Suc Suc_eq_plus1 add_2_eq_Suc')
    ultimately show ?thesis
      using 3 "1.IH" by (subst parse_args_from.simps) auto
  qed
qed

section \<open>Properties\<close>

text \<open>
  C31. The server comes up on the first port, from the requested one on, at which a listener can be
  built, provided the ports before it are merely in use, with the database of the snapshot file.
\<close>

theorem server_takes_first_free_port:
  assumes "unat port + k < 2 ^ 16"
    and "\<forall>j<k. in_use os j (port + of_nat j)"
    and "\<forall>call. os k call (port + of_nat k) = None"
    and "DB_new cfg clk fs = (Ok db :: (net_error, DB) outcome)"
  shows "Server_new cfg clk fs os port = Some (Ok \<lparr>s_addr = port + of_nat k, s_db = db\<rparr>)"
proof -
  have "bind_loop cfg os 0 port = bind_loop cfg os k (port + of_nat k)"
    using bind_loop_skips [OF assms(1), of os 0 cfg] assms(2) by simp
  also have "\<dots> = Some (Ok (port + of_nat k))"
    using assms(3) build_listener_Ok [of os k "port + of_nat k" "\<lparr>l_port = port + of_nat k, l_backlog = 1024\<rparr>"]
    by (subst bind_loop.simps) simp
  finally show ?thesis using assms(4) by (simp add: Server_new_def)
qed

definition busy_below :: "u16 \<Rightarrow> os" where
  "busy_below free n call port = (if call = Sys_bind \<and> port < free then Some AddrInUse else None)"

theorem server_takes_first_free_port_witness:
  "Server_new demo_config (\<lambda>n. (0, 0)) Map.empty (busy_below 6381) 6379 =
     Some (Ok \<lparr>s_addr = 6381, s_db = new_in_memory\<rparr>)"
proof -
  have "\<forall>j<2. in_use (busy_below 6381) j (6379 + of_nat j)"
    by (auto simp: in_use_def busy_below_def less_2_cases_iff)
  moreover have "\<forall>call. busy_below 6381 2 call (6379 + of_nat 2) = None"
    by (simp add: busy_below_def)
  moreover have "DB_new demo_config (\<lambda>n. (0, 0)) Map.empty = (Ok new_in_memory :: (net_error, DB) outcome)"
    by (simp add: DB_new_def load_rdb_def new_in_memory_def)
  ultimately show ?thesis
    using server_takes_first_free_port [of 6379 2 "busy_below 6381" demo_config "\<lambda>n. (0, 0)" Map.empty
        new_in_memory] by simp
qed

text \<open>
  C32. When every port from the requested one on is in use, the search does not end with an error: a
  build with overflow checks panics at the end of the port range, and one without wraps around to
  port 0 and, as long as no port becomes free, searches forever.
\<close>

theorem port_search_has_no_error_exit:
  assumes "\<forall>n port. in_use os n port"
  shows "bind_loop cfg os n port =
     (if overflow_checks cfg then Some (Panic ArithmeticOverflow) else None)"
proof (cases "overflow_checks cfg")
  case True
  let ?k = "65535 - unat port"
  have "unat port < 2 ^ 16" using unsigned_less [of port, where ?'a = nat] by simp
  then have le: "unat port \<le> 65535" by simp
  then have "port + of_nat ?k = 65535" by (simp add: of_nat_diff)
  with bind_loop_skips [of port ?k os n cfg] assms le
  have "bind_loop cfg os n port = bind_loop cfg os (n + ?k) 65535" by simp
  with True bind_loop_in_use [of os "n + ?k" 65535 cfg] assms show ?thesis
    by (simp add: next_port_def)
next
  case False
  with assms bind_loop_never [of cfg os n port] show ?thesis by (cases "bind_loop cfg os n port") auto
qed

theorem port_search_has_no_error_exit_witness:
  "bind_loop demo_config (\<lambda>n call port. if call = Sys_bind then Some AddrInUse else None) 0 6379 =
     (if overflow_checks demo_config then Some (Panic ArithmeticOverflow) else None)"
  by (rule port_search_has_no_error_exit) (simp add: in_use_def)

text \<open>
  The command line: scanning the arguments behind the program name from the left, each \<open>--port\<close>
  that has a successor sets the port and consumes it, the last one wins, and a value that is not a
  \<open>u16\<close> silently selects the default port.
\<close>

theorem parse_args_scans:
  "parse_args args = scan_port DEFAULT_PORT (drop 1 args)"
  by (simp add: parse_args_def parse_args_from_scan)

end
