(* ===== verification/Concurrency.thy ===== *)
theory Concurrency
  imports Dispatcher
begin

text \<open>
  The operations of \<open>src/database/core.rs\<close> under concurrency.  Every access to one of the two
  \<open>DashMap\<close>s holds its shard lock only for that access, so that the handlers of several connections
  and the reaper interleave between accesses.  Here an operation is a program of atomic map
  accesses; a schedule says which thread performs its next access.

  Run alone, the programs are the operations of \<open>Database\<close>.  Interleaved, they keep every value
  well typed and leave foreign keys alone; they do not keep the two maps in sync, and acknowledged
  writes can get lost.
\<close>

section \<open>Programs of atomic accesses\<close>

datatype (results: 'r) prog = Done 'r | Step "DB \<Rightarrow> DB \<times> 'r prog"

type_synonym reply_prog = "(bytes, RespType) outcome prog"

primrec run :: "'r prog \<Rightarrow> DB \<Rightarrow> 'r \<times> DB" where
  "run (Done r) = (\<lambda>db. (r, db))"
| "run (Step f) = (\<lambda>db. case (map_prod id run \<circ> f) db of (db', g) \<Rightarrow> g db')"

definition data_insert :: "bytes \<Rightarrow> RedisObject \<Rightarrow> 'r prog \<Rightarrow> 'r prog" where
  "data_insert key val p = Step (\<lambda>db. (db\<lparr>data := fmupd key val (data db)\<rparr>, p))"

definition data_remove :: "bytes \<Rightarrow> 'r prog \<Rightarrow> 'r prog" where
  "data_remove key p = Step (\<lambda>db. (db\<lparr>data := fmdrop key (data db)\<rparr>, p))"

definition exp_insert :: "bytes \<Rightarrow> instant \<Rightarrow> 'r prog \<Rightarrow> 'r prog" where
  "exp_insert key t p = Step (\<lambda>db. (db\<lparr>expirations := fmupd key t (expirations db)\<rparr>, p))"

definition exp_remove :: "bytes \<Rightarrow> 'r prog \<Rightarrow> 'r prog" where
  "exp_remove key p = Step (\<lambda>db. (db\<lparr>expirations := fmdrop key (expirations db)\<rparr>, p))"

definition done_ok :: reply_prog where "done_ok = Done (Ok (SimpleString ''Ok''))"

section \<open>The operations\<close>

definition set_prog :: "bytes \<Rightarrow> RedisObject \<Rightarrow> instant option \<Rightarrow> reply_prog" where
  "set_prog key val expires_at =
     exp_remove key (data_insert key val
       (case expires_at of Some exp \<Rightarrow> exp_insert key exp done_ok | None \<Rightarrow> done_ok))"

definition delete_prog :: "bytes \<Rightarrow> reply_prog" where
  "delete_prog key = data_remove key (exp_remove key (Done (Ok (BulkString ''Ok''))))"

text \<open>
  The lazy expiry check: \<open>is_expired\<close> looks the key up again while the guard of the first lookup
  keeps the entry from changing, so both lookups are one access.
\<close>

definition lazy_check :: "instant \<Rightarrow> bytes \<Rightarrow> (bytes, RespType) outcome \<Rightarrow> reply_prog \<Rightarrow> reply_prog" where
  "lazy_check now key gone p =
     Step (\<lambda>db. (db, if fmlookup (expirations db) key \<noteq> None \<and> is_expired now db key
                     then data_remove key (exp_remove key (Done gone)) else p))"

definition get_prog :: "instant \<Rightarrow> bytes \<Rightarrow> reply_prog" where
  "get_prog now key =
     lazy_check now key (get_reply (Ok nil_object))
       (Step (\<lambda>db. (db, Done (get_reply
          (case fmlookup (data db) key of Some ro \<Rightarrow> Ok ro | None \<Rightarrow> Ok nil_object)))))"

definition lrange_prog :: "config \<Rightarrow> instant \<Rightarrow> bytes \<Rightarrow> int \<Rightarrow> int \<Rightarrow> reply_prog" where
  "lrange_prog cfg now key start stop =
     lazy_check now key (lrange_reply (Ok nil_object))
       (Step (\<lambda>db. (db, Done (lrange_reply
          (case fmlookup (data db) key of
             None \<Rightarrow> Ok nil_object
           | Some (RO_List xs) \<Rightarrow> and_then (list_range cfg xs start stop) (\<lambda>vals. Ok (RO_List vals))
           | Some (RO_String s) \<Rightarrow> Err ''Wrong type. Expected list.'')))))"

text \<open>
  \<open>get_mut\<close> updates an existing list under its lock; for a missing key the lock is gone before the
  new list is inserted.
\<close>

definition push_prog :: "bytes \<Rightarrow> RedisObject list \<Rightarrow> (RedisObject list \<Rightarrow> RedisObject list) \<Rightarrow> reply_prog" where
  "push_prog key fresh grow =
     Step (\<lambda>db.
       (case fmlookup (data db) key of
          None \<Rightarrow> (db, data_insert key (RO_List fresh) done_ok)
        | Some (RO_List xs) \<Rightarrow> (db\<lparr>data := fmupd key (RO_List (grow xs)) (data db)\<rparr>, done_ok)
        | Some (RO_String s) \<Rightarrow>
            (db, Done (Err (exec_failed ''Wrong data type. Expected List, got String.'')))))"

definition lpush_prog :: "bytes \<Rightarrow> RedisObject list \<Rightarrow> reply_prog" where
  "lpush_prog key vals = push_prog key (rev vals) (\<lambda>xs. vals @ xs)"

definition rpush_prog :: "bytes \<Rightarrow> RedisObject list \<Rightarrow> reply_prog" where
  "rpush_prog key vals = push_prog key vals (\<lambda>xs. xs @ vals)"

definition expire_if :: "bytes \<Rightarrow> instant \<Rightarrow> (instant option \<Rightarrow> bool) \<Rightarrow> reply_prog" where
  "expire_if key expires_at cond =
     Step (\<lambda>db. (db, if cond (fmlookup (expirations db) key) then exp_insert key expires_at done_ok
                     else done_ok))"

definition expire_prog :: "bytes \<Rightarrow> instant \<Rightarrow> bytes option \<Rightarrow> reply_prog" where
  "expire_prog key expires_at opt =
     Step (\<lambda>db. (db,
       if key |\<notin>| fmdom (data db) then Done (Err (exec_failed ''Entry not found.''))
       else
         (case opt of
            None \<Rightarrow> exp_insert key expires_at done_ok
          | Some o' \<Rightarrow>
              (if o' = ''NX'' then expire_if key expires_at (\<lambda>cur. cur = None)
               else if o' = ''XX'' then expire_if key expires_at (\<lambda>cur. cur \<noteq> None)
               else if o' = ''GT'' then
                 expire_if key expires_at (\<lambda>cur. case cur of Some e \<Rightarrow> expires_at > e | None \<Rightarrow> False)
               else if o' = ''LT'' then
                 expire_if key expires_at (\<lambda>cur. case cur of Some e \<Rightarrow> expires_at < e | None \<Rightarrow> False)
               else Done (Err (exec_failed ''Invalid option for expire command.''))))))"

text \<open>What the reaper does to one sampled key, and whether it removed it.\<close>

definition purge_prog :: "instant \<Rightarrow> bytes \<Rightarrow> bool prog" where
  "purge_prog now key =
     Step (\<lambda>db. (db,
       case fmlookup (expirations db) key of
         Some exp \<Rightarrow> (if exp < now then data_remove key (exp_remove key (Done True)) else Done False)
       | None \<Rightarrow> Done False))"

fun prog_of :: "config \<Rightarrow> instant \<Rightarrow> Command \<Rightarrow> reply_prog" where
  "prog_of cfg now PING = Done (Ok (SimpleString ''Pong''))"
| "prog_of cfg now (ECHO msg) = Done (Ok (BulkString msg))"
| "prog_of cfg now (SET key val expires_in) = set_prog key (RO_String val) expires_in"
| "prog_of cfg now (GET key) = get_prog now key"
| "prog_of cfg now (DELETE key) = delete_prog key"
| "prog_of cfg now (EXPIRE key expires_at opt) = expire_prog key expires_at opt"
| "prog_of cfg now (LPUSH key vals) = lpush_prog key (map RO_String vals)"
| "prog_of cfg now (RPUSH key vals) = rpush_prog key (map RO_String vals)"
| "prog_of cfg now (LRANGE key start stop) = lrange_prog cfg now key start stop"
| "prog_of cfg now _ = done_ok"

section \<open>Threads and schedules\<close>

text \<open>A schedule is the sequence of the threads that perform an access; a finished thread ignores it.\<close>

fun sched :: "nat list \<Rightarrow> DB \<times> 'r prog list \<Rightarrow> DB \<times> 'r prog list" where
  "sched [] st = st"
| "sched (i # is) (db, ts) =
     (if i < length ts then
        (case ts ! i of
           Done r \<Rightarrow> sched is (db, ts)
         | Step f \<Rightarrow> (case f db of (db', p') \<Rightarrow> sched is (db', ts[i := p'])))
      else sched is (db, ts))"

text \<open>
  Programs all of whose accesses keep an invariant \<open>P\<close>, and whose result satisfies \<open>Q\<close> whatever
  the others do between the accesses, as long as they keep \<open>P\<close> too.
\<close>

inductive keeps :: "(DB \<Rightarrow> bool) \<Rightarrow> ('r \<Rightarrow> bool) \<Rightarrow> 'r prog \<Rightarrow> bool"
  for P :: "DB \<Rightarrow> bool" and Q :: "'r \<Rightarrow> bool" where
  keeps_Done: "Q r \<Longrightarrow> keeps P Q (Done r)"
| keeps_Step: "(\<forall>db. P db \<longrightarrow> P (fst (f db)) \<and> keeps P Q (snd (f db))) \<Longrightarrow> keeps P Q (Step f)"

inductive_simps keeps_simps [simp]: "keeps P Q (Done r)" "keeps P Q (Step f)"

abbreviation keeps_inv :: "(DB \<Rightarrow> bool) \<Rightarrow> 'r prog \<Rightarrow> bool" where
  "keeps_inv P \<equiv> keeps P (\<lambda>_. True)"

lemma sched_idle: "\<not> (i < length ts \<and> (\<exists>f. ts ! i = Step f)) \<Longrightarrow> sched (i # is) (db, ts) = sched is (db, ts)"
  by (auto split: prog.split)

lemma sched_step:
  "i < length ts \<Longrightarrow> ts ! i = Step f \<Longrightarrow> sched (i # is) (db, ts) = sched is (fst (f db), ts[i := snd (f db)])"
  by (simp split: prod.split)

lemma sched_keeps_all:
  "P db \<Longrightarrow> list_all (keeps P Q) ts \<Longrightarrow>
     P (fst (sched is (db, ts))) \<and> list_all (keeps P Q) (snd (sched is (db, ts)))"
proof (induction "is" arbitrary: db ts)
  case (Cons i "is")
  show ?case
  proof (cases "i < length ts \<and> (\<exists>f. ts ! i = Step f)")
    case True
    then obtain f where i: "i < length ts" and f: "ts ! i = Step f" by blast
    have "keeps P Q (Step f)" using Cons.prems(2) i f by (metis list_all_length)
    with Cons.prems(1) have "P (fst (f db))" and p: "keeps P Q (snd (f db))" by simp_all
    moreover from p Cons.prems(2) have "list_all (keeps P Q) (ts[i := snd (f db)])"
      by (auto simp: list_all_iff dest!: set_update_subset_insert [THEN subsetD])
    ultimately show ?thesis using Cons.IH sched_step [OF i f] by simp
  next
    case False
    with Cons sched_idle [OF False] show ?thesis by simp
  qed
qed simp

lemma sched_keeps:
  "P db \<Longrightarrow> list_all (keeps P Q) ts \<Longrightarrow> P (fst (sched is (db, ts)))"
  using sched_keeps_all by blast

text \<open>Sequencing.\<close>

primrec prog_bind :: "'a prog \<Rightarrow> ('a \<Rightarrow> 'b prog) \<Rightarrow> 'b prog" where
  "prog_bind (Done r) = (\<lambda>k. k r)"
| "prog_bind (Step f) = (\<lambda>k. Step (\<lambda>db. case (map_prod id prog_bind \<circ> f) db of (db', g) \<Rightarrow> (db', g k)))"

lemma prog_bind_simps [simp]:
  "prog_bind (Done r) k = k r"
  "prog_bind (Step f) k = Step (\<lambda>db. (fst (f db), prog_bind (snd (f db)) k))"
  by (simp_all add: case_prod_beta)

declare prog_bind.simps [simp del]

lemma run_Step [simp]: "run (Step f) db = run (snd (f db)) (fst (f db))"
  by (simp add: case_prod_beta)

declare run.simps(2) [simp del]

lemma prog_induct [case_names Done Step]:
  assumes "\<And>r. S (Done r)" and "\<And>f. (\<And>db. S (snd (f db))) \<Longrightarrow> S (Step f)"
  shows "S p"
proof (induction p)
  case (Step f)
  show ?case
  proof (rule assms(2))
    fix db
    have "snd (f db) \<in> Basic_BNFs.snds (f db)" by (cases "f db") (simp add: snds.intros)
    with Step show "S (snd (f db))" by blast
  qed
qed (rule assms(1))

lemma run_bind: "run (prog_bind p k) db = run (k (fst (run p db))) (snd (run p db))"
  by (induction p arbitrary: db rule: prog_induct) simp_all

text \<open>\<open>results\<close> are the values a program can return, whatever it finds in the database.\<close>

lemma results_Step [simp]: "results (Step f) = (\<Union>db. results (snd (f db)))"
  by (auto simp: snds.simps)

declare prog.set(2) [simp del]

lemma results_bind [simp]: "results (prog_bind p k) = (\<Union>r \<in> results p. results (k r))"
  by (induction p rule: prog_induct) auto

lemma prog_bind_cong [fundef_cong]:
  assumes "p = p'" and "\<And>r. r \<in> results p' \<Longrightarrow> k r = k' r"
  shows "prog_bind p k = prog_bind p' k'"
  unfolding assms(1) using assms(2)
proof (induction p' rule: prog_induct)
  case (Step f)
  then show ?case by auto
qed simp

lemma keeps_bind:
  assumes "keeps P Q p" "\<And>r. Q r \<Longrightarrow> keeps P R (k r)"
  shows "keeps P R (prog_bind p k)"
  using assms(1)
proof (induction p rule: keeps.induct)
  case (keeps_Done r)
  then show ?case by (simp add: assms(2))
qed simp

section \<open>Run alone, a program is the operation\<close>

lemma run_writes [simp]:
  "run (data_insert key val p) db = run p (db\<lparr>data := fmupd key val (data db)\<rparr>)"
  "run (data_remove key p) db = run p (db\<lparr>data := fmdrop key (data db)\<rparr>)"
  "run (exp_insert key t p) db = run p (db\<lparr>expirations := fmupd key t (expirations db)\<rparr>)"
  "run (exp_remove key p) db = run p (db\<lparr>expirations := fmdrop key (expirations db)\<rparr>)"
  "run done_ok db = (Ok (SimpleString ''Ok''), db)"
  by (simp_all add: data_insert_def data_remove_def exp_insert_def exp_remove_def done_ok_def)

lemma run_lazy_check:
  "run (lazy_check now key gone p) db =
     (if fmlookup (expirations db) key \<noteq> None \<and> is_expired now db key then (gone, remove_key db key)
      else run p db)"
  by (simp add: lazy_check_def remove_key_def)

lemma run_set_prog:
  "run (set_prog key val e) db = map_prod (unit_reply (SimpleString ''Ok'')) id (DB_set db key val e)"
  by (cases e) (simp_all add: set_prog_def DB_set_def)

lemma run_get_prog: "run (get_prog now key) db = map_prod get_reply id (DB_get now db key)"
  by (cases "fmlookup (data db) key") (simp_all add: get_prog_def run_lazy_check DB_get_def)

lemma run_delete_prog:
  "run (delete_prog key) db = map_prod (unit_reply (BulkString ''Ok'')) id (DB_delete db key)"
  by (simp add: delete_prog_def DB_delete_def remove_key_def)

lemma run_push_progs:
  "run (lpush_prog key vals) db = map_prod (unit_reply (SimpleString ''Ok'')) id (DB_lpush db key vals)"
  "run (rpush_prog key vals) db = map_prod (unit_reply (SimpleString ''Ok'')) id (DB_rpush db key vals)"
  by (simp_all add: lpush_prog_def rpush_prog_def push_prog_def DB_lpush_def DB_rpush_def
      split: option.split RedisObject.split)

lemma run_lrange_prog:
  "run (lrange_prog cfg now key start stop) db =
     map_prod lrange_reply id (DB_lrange cfg now db key start stop)"
  by (simp add: lrange_prog_def run_lazy_check DB_lrange_def split: option.split RedisObject.split)

lemma run_expire_if:
  "run (expire_if key t cond) db =
     (if cond (fmlookup (expirations db) key)
      then (Ok (SimpleString ''Ok''), db\<lparr>expirations := fmupd key t (expirations db)\<rparr>)
      else (Ok (SimpleString ''Ok''), db))"
  by (simp add: expire_if_def)

lemma run_expire_prog:
  "run (expire_prog key t opt) db = map_prod (unit_reply (SimpleString ''Ok'')) id (DB_expire db key t opt)"
proof (cases opt)
  case (Some o')
  consider "o' = ''NX''" | "o' = ''XX''" | "o' = ''GT''" | "o' = ''LT''"
    | "o' \<notin> {''NX'', ''XX'', ''GT'', ''LT''}" by blast
  then show ?thesis
    by cases (simp_all add: Some expire_prog_def run_expire_if DB_expire_def Let_def split: bool.split)
qed (simp add: expire_prog_def DB_expire_def)

lemma run_prog_of: "run (prog_of cfg now cmd) db = execute_data cfg now db cmd"
  by (cases cmd)
    (simp_all add: run_set_prog run_get_prog run_delete_prog run_push_progs run_lrange_prog
      run_expire_prog)

lemma run_purge_prog:
  "run (purge_prog now key) db =
     (case fmlookup (expirations db) key of
        Some exp \<Rightarrow> (if exp < now then (True, remove_key db key) else (False, db))
      | None \<Rightarrow> (False, db))"
  by (simp add: purge_prog_def remove_key_def split: option.split)

section \<open>Invariants under every schedule\<close>

text \<open>
  An invariant that the four kinds of write on the keys of \<open>K\<close> respect is kept by every program on
  such a key.
\<close>

locale key_invariant =
  fixes P :: "DB \<Rightarrow> bool"
    and K :: "bytes set"
  assumes rem_data: "key \<in> K \<Longrightarrow> P db \<Longrightarrow> P (db\<lparr>data := fmdrop key (data db)\<rparr>)"
    and rem_exp: "key \<in> K \<Longrightarrow> P db \<Longrightarrow> P (db\<lparr>expirations := fmdrop key (expirations db)\<rparr>)"
    and ins_exp: "key \<in> K \<Longrightarrow> P db \<Longrightarrow> P (db\<lparr>expirations := fmupd key t (expirations db)\<rparr>)"
    and ins_data: "key \<in> K \<Longrightarrow> P db \<Longrightarrow> flat_object val \<Longrightarrow> P (db\<lparr>data := fmupd key val (data db)\<rparr>)"
    and push_data: "key \<in> K \<Longrightarrow> P db \<Longrightarrow> fmlookup (data db) key = Some (RO_List xs) \<Longrightarrow>
      list_all string_object vals \<Longrightarrow>
      P (db\<lparr>data := fmupd key (RO_List (vals @ xs)) (data db)\<rparr>) \<and>
      P (db\<lparr>data := fmupd key (RO_List (xs @ vals)) (data db)\<rparr>)"
begin

lemma keeps_done_ok: "keeps_inv P done_ok"
  by (simp add: done_ok_def)

lemma keeps_writes:
  "key \<in> K \<Longrightarrow> keeps P Q p \<Longrightarrow> keeps P Q (data_remove key p)"
  "key \<in> K \<Longrightarrow> keeps P Q p \<Longrightarrow> keeps P Q (exp_remove key p)"
  "key \<in> K \<Longrightarrow> keeps P Q p \<Longrightarrow> keeps P Q (exp_insert key t p)"
  "key \<in> K \<Longrightarrow> keeps P Q p \<Longrightarrow> flat_object val \<Longrightarrow> keeps P Q (data_insert key val p)"
  by (simp_all add: data_remove_def exp_remove_def exp_insert_def data_insert_def
      rem_data rem_exp ins_exp ins_data)

lemma keeps_lazy_check: "key \<in> K \<Longrightarrow> keeps_inv P p \<Longrightarrow> keeps_inv P (lazy_check now key gone p)"
  by (simp add: lazy_check_def keeps_writes)

lemma keeps_push:
  assumes "key \<in> K" "list_all string_object vals"
  shows "keeps_inv P (lpush_prog key vals)" "keeps_inv P (rpush_prog key vals)"
  using assms push_data [OF assms(1) _ _ assms(2)]
  by (auto simp: lpush_prog_def rpush_prog_def push_prog_def keeps_done_ok list_all_rev
      split: option.split RedisObject.split intro!: keeps_writes)

lemma keeps_expire: "key \<in> K \<Longrightarrow> keeps_inv P (expire_prog key t opt)"
  by (auto simp: expire_prog_def expire_if_def keeps_done_ok keeps_writes split: option.split)

lemma keeps_purge: "key \<in> K \<Longrightarrow> keeps_inv P (purge_prog now key)"
  by (auto simp: purge_prog_def keeps_done_ok keeps_writes split: option.split)

lemma keeps_delete: "key \<in> K \<Longrightarrow> keeps_inv P (delete_prog key)"
  by (simp add: delete_prog_def keeps_writes)

lemma keeps_reads: "key \<in> K \<Longrightarrow> keeps_inv P (get_prog now key)"
  "key \<in> K \<Longrightarrow> keeps_inv P (lrange_prog cfg now key start stop)"
  by (simp_all add: get_prog_def lrange_prog_def keeps_lazy_check)

lemma keeps_set: "key \<in> K \<Longrightarrow> flat_object val \<Longrightarrow> keeps_inv P (set_prog key val e)"
  by (auto simp: set_prog_def keeps_done_ok split: option.split intro!: keeps_writes)

end

definition command_keys :: "Command \<Rightarrow> bytes set" where
  "command_keys cmd =
     (case cmd of
        SET k v e \<Rightarrow> {k} | GET k \<Rightarrow> {k} | DELETE k \<Rightarrow> {k} | LPUSH k vs \<Rightarrow> {k} | RPUSH k vs \<Rightarrow> {k}
      | LRANGE k s e \<Rightarrow> {k} | EXPIRE k t opt \<Rightarrow> {k} | _ \<Rightarrow> {})"

context key_invariant
begin

lemma keeps_command:
  "command_wf cmd \<Longrightarrow> command_keys cmd \<subseteq> K \<Longrightarrow> keeps_inv P (prog_of cfg now cmd)"
  by (cases cmd)
    (simp_all add: command_keys_def keeps_set keeps_push keeps_expire keeps_done_ok string_objects
      keeps_delete keeps_reads)

lemma sched_commands:
  assumes "P db" "\<forall>(now, c) \<in> set reqs. command_wf c \<and> command_keys c \<subseteq> K"
  shows "P (fst (sched is (db, map (\<lambda>(now, c). prog_of cfg now c) reqs)))"
proof (rule sched_keeps [of P, OF assms(1)])
  show "list_all (keeps_inv P) (map (\<lambda>(now, c). prog_of cfg now c) reqs)"
    using assms(2) by (force simp: list_all_iff intro: keeps_command)
qed

end

lemma well_typed_list:
  "well_typed db \<Longrightarrow> fmlookup (data db) key = Some (RO_List xs) \<Longrightarrow> list_all string_object xs"
  by (fastforce simp: well_typed_def)

lemma well_typed_insert:
  "well_typed db \<Longrightarrow> utf8_valid key \<Longrightarrow> flat_object val \<Longrightarrow>
     well_typed (db\<lparr>data := fmupd key val (data db)\<rparr>)"
  by (auto simp: well_typed_def split: if_splits)

interpretation typed: key_invariant well_typed "Collect utf8_valid"
proof (unfold_locales, goal_cases)
  case (5 key db xs vals)
  then show ?case using well_typed_list [of db key xs] by (simp add: well_typed_insert)
qed (auto simp: well_typed_def split: if_splits)

interpretation frame: key_invariant
    "\<lambda>db. fmlookup (data db) k = v \<and> fmlookup (expirations db) k = e" "- {k}" for k v e
  by unfold_locales auto

lemma command_keys_valid: "command_wf cmd \<Longrightarrow> command_keys cmd \<subseteq> Collect utf8_valid"
  by (cases cmd) (auto simp: command_keys_def)

section \<open>Pushes to an existing list\<close>

text \<open>A push from the left (\<open>True\<close>) or from the right.\<close>

definition push_of :: "bytes \<Rightarrow> bool \<times> RedisObject list \<Rightarrow> reply_prog" where
  "push_of key push = (if fst push then lpush_prog key (snd push) else rpush_prog key (snd push))"

text \<open>
  \<open>pushed key xs pushes ls rs db ts\<close>: the pushes of the threads \<open>ls\<close> and \<open>rs\<close> have taken effect, the
  latest one outermost, and the other threads have not started.
\<close>

definition pushed ::
    "bytes \<Rightarrow> RedisObject list \<Rightarrow> (bool \<times> RedisObject list) list \<Rightarrow> nat list \<Rightarrow> nat list \<Rightarrow> DB \<Rightarrow> reply_prog list \<Rightarrow> bool" where
  "pushed key xs pushes ls rs db ts \<longleftrightarrow>
     length ts = length pushes \<and> distinct (ls @ rs) \<and>
     (\<forall>i < length pushes. ts ! i = (if i \<in> set (ls @ rs) then done_ok else push_of key (pushes ! i))) \<and>
     (\<forall>i \<in> set ls. i < length pushes \<and> fst (pushes ! i)) \<and>
     (\<forall>i \<in> set rs. i < length pushes \<and> \<not> fst (pushes ! i)) \<and>
     fmlookup (data db) key =
       Some (RO_List (concat (map (\<lambda>i. snd (pushes ! i)) ls) @ xs @ concat (map (\<lambda>i. snd (pushes ! i)) rs)))"

lemma push_of_step:
  assumes "fmlookup (data db) key = Some (RO_List xs)"
  obtains f where "push_of key (left, vs) = Step f" and "snd (f db) = done_ok"
    and "fmlookup (data (fst (f db))) key = Some (RO_List (if left then vs @ xs else xs @ vs))"
  using assms by (cases left) (auto simp: push_of_def lpush_prog_def rpush_prog_def push_prog_def)

lemma pushed_sched:
  "pushed key xs pushes ls rs db ts \<Longrightarrow> sched is (db, ts) = (db', ts') \<Longrightarrow>
     \<exists>ls' rs'. pushed key xs pushes ls' rs' db' ts'"
proof (induction "is" arbitrary: db ts ls rs)
  case Nil
  then show ?case by auto
next
  case (Cons i "is")
  note p = Cons.prems(1) [unfolded pushed_def]
  show ?case
  proof (cases "i < length pushes \<and> i \<notin> set (ls @ rs)")
    case False
    with p have "\<not> (i < length ts \<and> (\<exists>f. ts ! i = Step f))" by (auto simp: done_ok_def)
    from Cons.IH [OF Cons.prems(1)] Cons.prems(2) sched_idle [OF this] show ?thesis by simp
  next
    case True
    obtain left vs where lv: "pushes ! i = (left, vs)" by fastforce
    from p obtain f where f: "push_of key (left, vs) = Step f" "snd (f db) = done_ok"
      and upd: "fmlookup (data (fst (f db))) key = Some (RO_List
        (if left then vs @ concat (map (\<lambda>i. snd (pushes ! i)) ls) @ xs @ concat (map (\<lambda>i. snd (pushes ! i)) rs)
         else (concat (map (\<lambda>i. snd (pushes ! i)) ls) @ xs @ concat (map (\<lambda>i. snd (pushes ! i)) rs)) @ vs))"
      by (meson push_of_step)
    have i: "i < length ts" "ts ! i = Step f" using True p f(1) lv by auto
    have "sched is (fst (f db), ts[i := done_ok]) = (db', ts')"
      using Cons.prems(2) sched_step [OF i] f(2) by simp
    moreover have "pushed key xs pushes (if left then i # ls else ls) (if left then rs else rs @ [i])
        (fst (f db)) (ts[i := done_ok])"
      using True p lv upd unfolding pushed_def by (auto simp: nth_list_update)
    ultimately show ?thesis using Cons.IH by blast
  qed
qed

section \<open>Properties\<close>

text \<open>
  The programs are the operations: a command whose accesses are not interrupted replies and
  changes the database exactly as the sequential \<open>execute_data\<close>.
\<close>

theorem uninterrupted_command_is_sequential:
  "run (prog_of cfg now cmd) db = execute_data cfg now db cmd"
  by (rule run_prog_of)

text \<open>
  Under every interleaving of the accesses of any commands, the database stays well typed and
  no key changes that none of the commands names.
\<close>

theorem concurrent_commands_safe:
  assumes "well_typed db" and "\<forall>(now, c) \<in> set reqs. command_wf c"
    and "sched is (db, map (\<lambda>(now, c). prog_of cfg now c) reqs) = (db', ts)"
  shows "well_typed db' \<and>
    (\<forall>k. (\<forall>(now, c) \<in> set reqs. k \<notin> command_keys c) \<longrightarrow>
       fmlookup (data db') k = fmlookup (data db) k \<and>
       fmlookup (expirations db') k = fmlookup (expirations db) k)"
proof -
  have db': "fst (sched is (db, map (\<lambda>(now, c). prog_of cfg now c) reqs)) = db'"
    using assms(3) by simp
  have "well_typed db'"
    using typed.sched_commands [of db reqs "is" cfg] assms(1,2) command_keys_valid
    unfolding db' by fast
  moreover have "fmlookup (data db') k = fmlookup (data db) k \<and>
       fmlookup (expirations db') k = fmlookup (expirations db) k"
    if "\<forall>(now, c) \<in> set reqs. k \<notin> command_keys c" for k
    using frame.sched_commands [of db k _ _ reqs "is" cfg] assms(2) that
    unfolding db' by fast
  ultimately show ?thesis by blast
qed

theorem concurrent_commands_safe_witness:
  "well_typed (fst (sched [0, 1, 0, 1, 0] (new_in_memory,
     map (\<lambda>(now, c). prog_of demo_config now c) [(0, SET ''a'' ''x'' (Some 5)), (7, DELETE ''a'')])))"
proof -
  let ?s = "sched [0, 1, 0, 1, 0] (new_in_memory,
     map (\<lambda>(now, c). prog_of demo_config now c) [(0, SET ''a'' ''x'' (Some 5)), (7, DELETE ''a'')])"
  have "well_typed new_in_memory" using db_inv_new by (simp add: db_inv_def)
  moreover have "\<forall>(now, c) \<in> set [(0, SET ''a'' ''x'' (Some 5)), (7, DELETE ''a'')]. command_wf c"
    by code_simp
  moreover have "?s = (fst ?s, snd ?s)" by simp
  ultimately show ?thesis using concurrent_commands_safe by blast
qed



text \<open>
  C12. Pushes to an existing list are atomic: however any number of \<open>LPUSH\<close> and \<open>RPUSH\<close> to it are
  interleaved, the list then consists of what it held and the values of exactly the pushes that
  have been acknowledged, each push in one piece, those from the left before it and those from the
  right behind it.
\<close>

theorem concurrent_pushes_lose_nothing:
  assumes "fmlookup (data db) key = Some (RO_List xs)"
    and "sched is (db, map (push_of key) pushes) = (db', ts)"
  shows "\<exists>ls rs. distinct (ls @ rs) \<and> set (ls @ rs) = {i. i < length pushes \<and> ts ! i = done_ok} \<and>
    list_all (\<lambda>i. fst (pushes ! i)) ls \<and> list_all (\<lambda>i. \<not> fst (pushes ! i)) rs \<and>
    fmlookup (data db') key =
      Some (RO_List (concat (map (\<lambda>i. snd (pushes ! i)) ls) @ xs @ concat (map (\<lambda>i. snd (pushes ! i)) rs)))"
proof -
  have "pushed key xs pushes [] [] db (map (push_of key) pushes)" using assms(1) by (simp add: pushed_def)
  from pushed_sched [OF this assms(2)] obtain ls rs where p: "pushed key xs pushes ls rs db' ts" by blast
  have "push_of key push \<noteq> done_ok" for push
    by (simp add: push_of_def lpush_prog_def rpush_prog_def push_prog_def done_ok_def)
  with p have "ts ! i = done_ok \<longleftrightarrow> i \<in> set (ls @ rs)" if "i < length pushes" for i
    using that by (simp add: pushed_def)
  moreover have "\<forall>i \<in> set (ls @ rs). i < length pushes" using p by (auto simp: pushed_def)
  ultimately have "set (ls @ rs) = {i. i < length pushes \<and> ts ! i = done_ok}" by blast
  with p show ?thesis unfolding pushed_def by (intro exI [of _ ls] exI [of _ rs]) (auto simp: list_all_iff)
qed

theorem concurrent_pushes_lose_nothing_witness:
  "\<exists>ls rs. set (ls @ rs) = {i. i < 2 \<and> snd (sched [1, 0] (\<lparr>data = fmap_of_list [(''l'', RO_List [RO_String ''x''])],
       expirations = fmempty\<rparr>, map (push_of ''l'') [(True, [RO_String ''a'']), (False, [RO_String ''b''])])) ! i = done_ok}"
proof -
  let ?db = "\<lparr>data = fmap_of_list [(''l'', RO_List [RO_String ''x''])], expirations = fmempty\<rparr>"
  let ?pushes = "[(True, [RO_String ''a'']), (False, [RO_String ''b''])]"
  let ?r = "sched [1, 0] (?db, map (push_of ''l'') ?pushes)"
  have l: "fmlookup (data ?db) ''l'' = Some (RO_List [RO_String ''x''])" by simp
  have run: "?r = (fst ?r, snd ?r)" by simp
  from concurrent_pushes_lose_nothing [OF l run] show ?thesis by (simp only: list.size) (auto simp: numeral_2_eq_2)
qed

end
