(* ===== verification/Sessions.thy ===== *)
theory Sessions
  imports Concurrency Connection
begin

text \<open>
  Whole connections, transactions, snapshots and the reaper as programs of atomic map accesses: the
  handlers of \<open>src/config/client.rs\<close>, \<open>dispatch\<close> and \<open>execute_command\<close> of
  \<open>src/command/dispatcher.rs\<close>, and \<open>save_rdb\<close> and \<open>active_expiration_cycle\<close> of
  \<open>src/database/core.rs\<close> as they run in parallel on one database.

  Parsing and writing are local to a connection and cause no access, so that a session is given by
  its requests; run alone it is \<open>serve\<close>, which the handler implements.  A \<open>DashMap\<close> is divided into
  shards; iteration and \<open>len\<close> lock one shard after the other.  The number of shards and the shard of
  a key are a parameter.
\<close>

section \<open>Snapshots\<close>

type_synonym sharding = "nat \<times> (bytes \<Rightarrow> nat)"

definition sharded :: "sharding \<Rightarrow> bool" where
  "sharded sh \<longleftrightarrow> (\<forall>key. snd sh key < fst sh)"

definition shard_of :: "sharding \<Rightarrow> nat \<Rightarrow> (bytes, 'v) fmap \<Rightarrow> (bytes, 'v) fmap" where
  "shard_of sh i m = fmfilter (\<lambda>key. snd sh key = i) m"

text \<open>\<open>iter().map(...).collect()\<close>: one access per shard, the entries collected in a map.\<close>

primrec collect_prog ::
    "sharding \<Rightarrow> (DB \<Rightarrow> (bytes, 'v) fmap) \<Rightarrow> nat list \<Rightarrow> (bytes, 'v) fmap \<Rightarrow> (bytes, 'v) fmap prog" where
  "collect_prog sh sel [] acc = Done acc"
| "collect_prog sh sel (i # is) acc =
     Step (\<lambda>db. (db, collect_prog sh sel is (acc ++\<^sub>f shard_of sh i (sel db))))"

definition save_prog :: "sharding \<Rightarrow> snapshot prog" where
  "save_prog sh =
     prog_bind (collect_prog sh data [0..<fst sh] fmempty) (\<lambda>data_snapshot.
     prog_bind (collect_prog sh expirations [0..<fst sh] fmempty) (\<lambda>exp_snapshot.
     Done \<lparr>snap_data = data_snapshot, snap_expirations = exp_snapshot\<rparr>))"

section \<open>Commands and transactions\<close>

text \<open>
  A program returns its reply, the snapshots it hands to background tasks and the number of clock
  slots used, counted per connection as in \<open>world\<close>.
\<close>

definition plain_prog ::
    "sharding \<Rightarrow> config \<Rightarrow> (nat \<Rightarrow> instant) \<Rightarrow> nat \<Rightarrow> Command \<Rightarrow>
     ((bytes, RespType) outcome \<times> snapshot list \<times> nat) prog" where
  "plain_prog sh cfg clk n cmd =
     (if cmd = SAVE
      then prog_bind (save_prog sh) (\<lambda>snap. Done (Ok (SimpleString ''Ok''), [snap], n + 1))
      else prog_bind (prog_of cfg (clk n) cmd) (\<lambda>r. Done (r, [], n + 1)))"

primrec queue_prog ::
    "sharding \<Rightarrow> config \<Rightarrow> (nat \<Rightarrow> instant) \<Rightarrow> Command list \<Rightarrow> nat \<Rightarrow>
     ((bytes, RespType list) outcome \<times> snapshot list \<times> nat) prog" where
  "queue_prog sh cfg clk [] n = Done (Ok [], [], n)"
| "queue_prog sh cfg clk (c # cs) n =
     prog_bind (plain_prog sh cfg clk n c) (\<lambda>(r, snaps, n').
       case r of
         Ok rep \<Rightarrow>
           prog_bind (queue_prog sh cfg clk cs n') (\<lambda>(rs, snaps', n'').
             Done ((case rs of Ok reps \<Rightarrow> Ok (rep # reps) | Err e \<Rightarrow> Err e | Panic p \<Rightarrow> Panic p),
                   snaps @ snaps', n''))
       | Err e \<Rightarrow> Done (Err (''Failed to execute queued commands. E: '' @ e), snaps, n')
       | Panic p \<Rightarrow> Done (Panic p, snaps, n'))"

type_synonym request_result = "(bytes, RespType) outcome \<times> Client \<times> snapshot list \<times> nat"

definition exec_prog ::
    "sharding \<Rightarrow> config \<Rightarrow> (nat \<Rightarrow> instant) \<Rightarrow> nat \<Rightarrow> Client \<Rightarrow> request_result prog" where
  "exec_prog sh cfg clk n client =
     prog_bind (queue_prog sh cfg clk (queued_commands client) (n + 1)) (\<lambda>(rs, snaps, n').
       Done (case rs of
               Ok reps \<Rightarrow> (Ok (Array reps), client\<lparr>in_transaction := False, queued_commands := []\<rparr>, snaps, n')
             | Err e \<Rightarrow> (Err e, client, snaps, n')
             | Panic p \<Rightarrow> (Panic p, client, snaps, n')))"

definition dispatch_prog ::
    "sharding \<Rightarrow> config \<Rightarrow> (nat \<Rightarrow> instant) \<Rightarrow> nat \<Rightarrow> Client \<Rightarrow> Command \<Rightarrow> request_result prog" where
  "dispatch_prog sh cfg clk n client cmd =
     (if in_transaction client \<and> cmd = MULTI then Done (Err ''Can not nest multi'', client, [], n)
      else if in_transaction client \<and> \<not> is_control cmd
      then Done (Ok (SimpleString ''QUEUED''),
                 client\<lparr>queued_commands := queued_commands client @ [cmd]\<rparr>, [], n)
      else if cmd = MULTI
      then Done (Ok (SimpleString ''Ok''), client\<lparr>in_transaction := True, queued_commands := []\<rparr>, [], n + 1)
      else if cmd = DISCARD
      then Done (Ok (SimpleString ''Ok''), client\<lparr>in_transaction := False, queued_commands := []\<rparr>, [], n + 1)
      else if cmd = EXEC then exec_prog sh cfg clk n client
      else prog_bind (plain_prog sh cfg clk n cmd) (\<lambda>(r, snaps, n'). Done (r, client, snaps, n')))"

section \<open>Sessions\<close>

definition request_prog ::
    "sharding \<Rightarrow> config \<Rightarrow> (nat \<Rightarrow> instant) \<Rightarrow> nat \<Rightarrow> Client \<Rightarrow> RespType \<Rightarrow> request_result prog" where
  "request_prog sh cfg clk n client resp =
     (case extract_command cfg (clk n) resp of
        Ok cmd \<Rightarrow> dispatch_prog sh cfg clk (n + 1) client cmd
      | Err e \<Rightarrow> Done (Err e, client, [], n + 1)
      | Panic p \<Rightarrow> Done (Panic p, client, [], n + 1))"

type_synonym session_result = "(bytes, RespType list) outcome \<times> Client \<times> snapshot list \<times> nat"

primrec session_prog ::
    "sharding \<Rightarrow> config \<Rightarrow> (nat \<Rightarrow> instant) \<Rightarrow> RespType list \<Rightarrow> nat \<Rightarrow> Client \<Rightarrow> session_result prog" where
  "session_prog sh cfg clk [] n client = Done (Ok [], client, [], n)"
| "session_prog sh cfg clk (req # reqs) n client =
     prog_bind (request_prog sh cfg clk n client req) (\<lambda>(r, client', snaps, n').
       case r of
         Panic p \<Rightarrow> Done (Panic p, client', snaps, n')
       | _ \<Rightarrow>
           prog_bind (session_prog sh cfg clk reqs n' client') (\<lambda>(rs, client'', snaps', n'').
             Done ((case rs of Ok reps \<Rightarrow> Ok (reply_of r # reps) | Err e \<Rightarrow> Err e | Panic p \<Rightarrow> Panic p),
                   client'', snaps @ snaps', n'')))"

section \<open>Run alone, a session is served\<close>

lemma collect_keys:
  assumes "sharded sh"
  shows "fmlookup (fst (run (collect_prog sh sel is acc) db)) key =
     (if snd sh key \<in> set is \<and> fmlookup (sel db) key \<noteq> None then fmlookup (sel db) key else fmlookup acc key)"
  by (induction "is" arbitrary: acc) (auto simp: shard_of_def)

lemma run_collect_state [simp]: "snd (run (collect_prog sh sel is acc) db) = db"
  by (induction "is" arbitrary: acc) simp_all

lemma run_collect:
  assumes "sharded sh"
  shows "run (collect_prog sh sel [0..<fst sh] fmempty) db = (sel db, db)"
  using assms by (intro prod_eqI fmap_ext) (auto simp: collect_keys sharded_def)

lemma run_save:
  "sharded sh \<Longrightarrow> run (save_prog sh) db = (\<lparr>snap_data = data db, snap_expirations = expirations db\<rparr>, db)"
  by (simp add: save_prog_def run_bind run_collect)

text \<open>What a program has done, seen in the world in which it started.\<close>

definition in_world :: "world \<Rightarrow> ('r \<times> snapshot list \<times> nat) \<times> DB \<Rightarrow> 'r \<times> world" where
  "in_world w res = (fst (fst res),
     \<lparr>w_db = snd res, w_tasks = w_tasks w @ fst (snd (fst res)), w_ticks = snd (snd (fst res))\<rparr>)"

definition in_session :: "world \<Rightarrow> ('r \<times> Client \<times> snapshot list \<times> nat) \<times> DB \<Rightarrow> 'r \<times> Client \<times> world" where
  "in_session w res = (fst (fst res), fst (snd (fst res)),
     \<lparr>w_db = snd res, w_tasks = w_tasks w @ fst (snd (snd (fst res))),
      w_ticks = snd (snd (snd (fst res)))\<rparr>)"

lemma run_plain_prog:
  assumes "sharded sh"
  shows "plain cfg clk w cmd = in_world w (run (plain_prog sh cfg clk (w_ticks w) cmd) (w_db w))"
  using assms
  by (cases "execute_data cfg (clk (w_ticks w)) (w_db w) cmd")
    (simp add: plain_def plain_prog_def execute_save_def DB_save_rdb_def run_bind run_save run_prog_of
      tick_def in_world_def)

lemma run_queue_prog:
  assumes "sharded sh"
  shows "run_plain cfg clk w cs = in_world w (run (queue_prog sh cfg clk cs (w_ticks w)) (w_db w))"
proof (induction cs arbitrary: w)
  case Nil
  then show ?case by (simp add: in_world_def)
next
  case (Cons c cs)
  obtain r snaps n db where p: "run (plain_prog sh cfg clk (w_ticks w) c) (w_db w) = ((r, snaps, n), db)"
    by (metis prod.collapse)
  let ?w = "\<lparr>w_db = db, w_tasks = w_tasks w @ snaps, w_ticks = n\<rparr>"
  have "plain cfg clk w c = (r, ?w)"
    using run_plain_prog [OF assms, of cfg clk w c] p by (simp add: in_world_def)
  then show ?case
    using Cons.IH [of ?w] p
    by (simp add: run_bind in_world_def case_prod_beta split: outcome.split)
qed

lemma run_exec_prog:
  assumes "sharded sh" "client_inv client"
  shows "dispatch cfg clk 2 client w EXEC = in_session w (run (exec_prog sh cfg clk (w_ticks w) client) (w_db w))"
proof -
  obtain rs snaps n db where
    q: "run (queue_prog sh cfg clk (queued_commands client) (w_ticks w + 1)) (w_db w) = ((rs, snaps, n), db)"
    by (metis prod.collapse)
  have "run_plain cfg clk (tick w) (queued_commands client) =
      (rs, \<lparr>w_db = db, w_tasks = w_tasks w @ snaps, w_ticks = n\<rparr>)"
    using run_queue_prog [OF assms(1), of cfg clk "tick w"] q by (simp add: in_world_def tick_def)
  with dispatch_EXEC [OF assms(2), of cfg clk 0 w] q show ?thesis
    by (simp add: numeral_2_eq_2 exec_prog_def run_bind in_session_def split: outcome.split)
qed

lemma run_dispatch_prog:
  assumes "sharded sh" "client_inv client"
  shows "dispatch cfg clk 2 client w cmd =
     in_session w (run (dispatch_prog sh cfg clk (w_ticks w) client cmd) (w_db w))"
proof (cases "cmd = EXEC")
  case True
  with run_exec_prog [OF assms] show ?thesis by (simp add: dispatch_prog_def is_control_def)
next
  case False
  show ?thesis
  proof (cases "is_tx cmd \<or> in_transaction client")
    case True
    with False show ?thesis
      by (auto simp: dispatch_prog_def dispatch_def is_control_def is_tx_def in_session_def
          numeral_2_eq_2 tick_def)
  next
    case False
    with run_plain_prog [OF assms(1), of cfg clk w cmd] show ?thesis
      by (auto simp: dispatch_prog_def dispatch_def is_control_def is_tx_def in_session_def in_world_def
          numeral_2_eq_2 execute_plain run_bind case_prod_beta)
  qed
qed

lemma run_request_prog:
  assumes "sharded sh" "client_inv client"
  shows "run_request cfg clk client w resp =
     in_session w (run (request_prog sh cfg clk (w_ticks w) client resp) (w_db w))"
  using run_dispatch_prog [OF assms, of cfg clk "tick w"]
  by (auto simp: run_request_def request_prog_def in_session_def tick_def split: outcome.split)

lemma run_request_client_inv:
  "client_inv client \<Longrightarrow> run_request cfg clk client w resp = (r, client', w') \<Longrightarrow> client_inv client'"
  by (auto simp: run_request_def numeral_2_eq_2 split: outcome.splits dest: dispatch_client_inv)

lemma run_session_prog:
  assumes "sharded sh" "client_inv client"
  shows "serve cfg clk client w reqs =
     in_session w (run (session_prog sh cfg clk reqs (w_ticks w) client) (w_db w))"
  using assms(2)
proof (induction reqs arbitrary: client w)
  case Nil
  then show ?case by (simp add: in_session_def)
next
  case (Cons req reqs)
  obtain r client1 snaps n db where
    p: "run (request_prog sh cfg clk (w_ticks w) client req) (w_db w) = ((r, client1, snaps, n), db)"
    by (metis prod.collapse)
  let ?w = "\<lparr>w_db = db, w_tasks = w_tasks w @ snaps, w_ticks = n\<rparr>"
  have req: "run_request cfg clk client w req = (r, client1, ?w)"
    using run_request_prog [OF assms(1) Cons.prems, of cfg clk w req] p by (simp add: in_session_def)
  with Cons.prems run_request_client_inv have "client_inv client1" by blast
  from Cons.IH [OF this, of ?w] req p show ?case
    by (simp add: run_bind in_session_def case_prod_beta split: outcome.split)
qed

section \<open>The reaper\<close>

text \<open>\<open>len\<close> adds up the sizes of the shards; the iterator visits their keys in the order \<open>ord\<close>.\<close>

primrec len_prog :: "sharding \<Rightarrow> nat list \<Rightarrow> nat \<Rightarrow> nat prog" where
  "len_prog sh [] acc = Done acc"
| "len_prog sh (i # is) acc =
     Step (\<lambda>db. (db, len_prog sh is (acc + fcard (fmdom (shard_of sh i (expirations db))))))"

primrec keys_prog :: "sharding \<Rightarrow> instant iter_order \<Rightarrow> nat list \<Rightarrow> bytes list \<Rightarrow> bytes list prog" where
  "keys_prog sh ord [] acc = Done acc"
| "keys_prog sh ord (i # is) acc =
     Step (\<lambda>db. (db, keys_prog sh ord is (acc @ ord (shard_of sh i (expirations db)))))"

primrec sweep_prog :: "instant \<Rightarrow> bytes list \<Rightarrow> nat \<Rightarrow> nat prog" where
  "sweep_prog now [] expired = Done expired"
| "sweep_prog now (key # keys) expired =
     prog_bind (purge_prog now key) (\<lambda>removed.
       sweep_prog now keys (if removed then expired + 1 else expired))"

text \<open>
  The first \<open>runs\<close> runs of a cycle.  A run that finds many expired keys starts the next one; while
  other threads add deadlines, there is no bound on their number.
\<close>

primrec cycle_prog ::
    "sharding \<Rightarrow> instant iter_order \<Rightarrow> (nat \<Rightarrow> nat \<Rightarrow> nat) \<Rightarrow> (nat \<Rightarrow> instant) \<Rightarrow> nat \<Rightarrow> nat \<Rightarrow> unit prog" where
  "cycle_prog sh ord rnd clk 0 i = Done ()"
| "cycle_prog sh ord rnd clk (Suc runs) i =
     prog_bind (len_prog sh [0..<fst sh] 0) (\<lambda>total.
       if total = 0 then Done ()
       else
         prog_bind (keys_prog sh ord [0..<fst sh] []) (\<lambda>keys.
           let sampled = take SAMPLE_SIZE (drop (rnd i total) keys) in
           prog_bind (sweep_prog (clk i) sampled 0) (\<lambda>expired.
             if max (length sampled) 1 < 4 * expired then cycle_prog sh ord rnd clk runs (i + 1)
             else Done ())))"

text \<open>The iteration order of a whole map is that of its shards, one after the other.\<close>

definition shard_order :: "sharding \<Rightarrow> instant iter_order \<Rightarrow> bool" where
  "shard_order sh ord \<longleftrightarrow> (\<forall>m. concat (map (\<lambda>i. ord (shard_of sh i m)) [0..<fst sh]) = ord m)"

lemma run_len_state [simp]: "snd (run (len_prog sh is acc) db) = db"
  by (induction "is" arbitrary: acc) simp_all

lemma run_keys_state [simp]: "snd (run (keys_prog sh ord is acc) db) = db"
  by (induction "is" arbitrary: acc) simp_all

lemma run_keys:
  "fst (run (keys_prog sh ord is acc) db) = acc @ concat (map (\<lambda>i. ord (shard_of sh i (expirations db))) is)"
  by (induction "is" arbitrary: acc) simp_all

lemma run_len:
  "distinct is \<Longrightarrow> fst (run (len_prog sh is acc) db) =
     acc + fcard (fmdom (fmfilter (\<lambda>key. snd sh key \<in> set is) (expirations db)))"
proof (induction "is" arbitrary: acc)
  case Nil
  then show ?case by (simp add: fmfilter_alt_defs(1))
next
  case (Cons i "is")
  let ?m = "expirations db"
  have "fmdom (fmfilter (\<lambda>key. snd sh key \<in> set (i # is)) ?m) =
      fmdom (shard_of sh i ?m) |\<union>| fmdom (fmfilter (\<lambda>key. snd sh key \<in> set is) ?m)"
    by (auto simp: shard_of_def)
  moreover have "fmdom (shard_of sh i ?m) |\<inter>| fmdom (fmfilter (\<lambda>key. snd sh key \<in> set is) ?m) = {||}"
    using Cons.prems by (auto simp: shard_of_def)
  ultimately show ?case using Cons by (simp add: fcard_funion_fsubset fcard_funion_disjoint)
qed

lemma run_sweep:
  "run (sweep_prog now keys n) db = (case purge_sampled now keys db n of (db', n') \<Rightarrow> (n', db'))"
proof (induction keys arbitrary: db n)
  case (Cons key keys)
  then show ?case by (simp add: run_bind run_purge_prog split: option.split)
qed simp

text \<open>Alone, one run more than there are deadlines is always enough: the cycle of \<open>Database\<close>.\<close>

lemma run_cycle:
  assumes "sharded sh" "shard_order sh ord" "fcard (fmdom (expirations db)) < runs"
  shows "snd (run (cycle_prog sh ord rnd clk runs i) db) = active_expiration_cycle ord rnd clk i db"
  using assms(3)
proof (induction runs arbitrary: i db)
  case (Suc runs)
  let ?total = "fcard (fmdom (expirations db))"
  have "fmfilter (\<lambda>key. snd sh key \<in> set [0..<fst sh]) (expirations db) = expirations db"
    using assms(1) by (intro fmap_ext) (simp add: sharded_def)
  then have len: "fst (run (len_prog sh [0..<fst sh] 0) db) = ?total" by (simp add: run_len)
  have keys: "fst (run (keys_prog sh ord [0..<fst sh] []) db) = ord (expirations db)"
    using assms(2) by (simp add: run_keys shard_order_def)
  let ?sampled = "take SAMPLE_SIZE (drop (rnd i ?total) (ord (expirations db)))"
  obtain db' n where purge: "purge_sampled (clk i) ?sampled db 0 = (db', n)" by fastforce
  have count: "fcard (fmdom (expirations db')) + n = ?total"
    using purge_sampled_count [OF purge] by simp
  show ?case
    using Suc.IH [of db' "i + 1"] Suc.prems count purge
    by (subst active_expiration_cycle.simps)
      (simp add: run_bind len keys run_sweep Let_def)
qed simp

section \<open>Sessions on separate keys\<close>

definition agree :: "bytes set \<Rightarrow> DB \<Rightarrow> DB \<Rightarrow> bool" where
  "agree K db db' \<longleftrightarrow> (\<forall>k \<in> K. fmlookup (data db) k = fmlookup (data db') k \<and>
     fmlookup (expirations db) k = fmlookup (expirations db') k)"

lemma agree_refl [simp]: "agree K db db"
  by (simp add: agree_def)

lemma agree_sym: "agree K db db' \<Longrightarrow> agree K db' db"
  by (simp add: agree_def)

lemma agree_trans: "agree K a b \<Longrightarrow> agree K b c \<Longrightarrow> agree K a c"
  by (simp add: agree_def)

lemma agree_mono: "agree K a b \<Longrightarrow> L \<subseteq> K \<Longrightarrow> agree L a b"
  by (auto simp: agree_def)

text \<open>
  Programs that read and write the keys of \<open>K\<close> only, and whose result satisfies \<open>Q\<close>.
\<close>

inductive confined :: "bytes set \<Rightarrow> ('r \<Rightarrow> bool) \<Rightarrow> 'r prog \<Rightarrow> bool"
  for K :: "bytes set" and Q :: "'r \<Rightarrow> bool" where
  confined_Done: "Q r \<Longrightarrow> confined K Q (Done r)"
| confined_Step: "(\<forall>db. agree (- K) (fst (f db)) db \<and> confined K Q (snd (f db))) \<Longrightarrow>
     (\<forall>db db'. agree K db db' \<longrightarrow> snd (f db) = snd (f db') \<and> agree K (fst (f db)) (fst (f db'))) \<Longrightarrow>
     confined K Q (Step f)"

inductive_simps confined_simps [simp]: "confined K Q (Done r)" "confined K Q (Step f)"

lemma confined_run:
  assumes "confined K Q p" "agree K db db'"
  shows "fst (run p db) = fst (run p db') \<and> agree K (snd (run p db)) (snd (run p db'))"
  using assms
proof (induction arbitrary: db db' rule: confined.induct)
  case (confined_Step f)
  from confined_Step(2,3) have eq: "snd (f db) = snd (f db')" "agree K (fst (f db)) (fst (f db'))"
    by blast+
  from confined_Step(1) eq(2) have "fst (run (snd (f db)) (fst (f db))) = fst (run (snd (f db)) (fst (f db'))) \<and>
      agree K (snd (run (snd (f db)) (fst (f db)))) (snd (run (snd (f db)) (fst (f db'))))"
    by blast
  with eq(1) show ?case by simp
qed simp

lemma confined_bind:
  assumes "confined K Q p" "\<And>r. Q r \<Longrightarrow> confined K R (k r)"
  shows "confined K R (prog_bind p k)"
  using assms(1)
proof (induction rule: confined.induct)
  case (confined_Step f)
  then show ?case by simp
qed (simp add: assms(2))

text \<open>
  The steps of the others do not touch the keys of a thread, so that what is left of it leads to
  the same result as the whole thread did on the initial database.
\<close>

lemma sched_confined:
  assumes "\<And>i. i < length ts \<Longrightarrow> confined (K i) Q (ts ! i)"
    and "\<And>i j. i < length ts \<Longrightarrow> j < length ts \<Longrightarrow> i \<noteq> j \<Longrightarrow> K i \<inter> K j = {}"
    and "sched is (db, ts) = (db', ts')" and "i < length ts"
  shows "length ts' = length ts \<and> fst (run (ts' ! i) db') = fst (run (ts ! i) db) \<and>
     agree (K i) (snd (run (ts' ! i) db')) (snd (run (ts ! i) db))"
  using assms
proof (induction "is" arbitrary: db ts)
  case (Cons j "is")
  show ?case
  proof (cases "j < length ts \<and> (\<exists>f. ts ! j = Step f)")
    case True
    then obtain f where j: "j < length ts" and f: "ts ! j = Step f" by blast
    let ?ts = "ts[j := snd (f db)]"
    have cf: "agree (- K j) (fst (f db)) db" "confined (K j) Q (snd (f db))"
      using Cons.prems(1) [OF j] f by simp_all
    have 1: "confined (K i) Q (?ts ! i)" if "i < length ?ts" for i
      using Cons.prems(1) that cf(2) by (cases "i = j") auto
    have "sched is (fst (f db), ?ts) = (db', ts')"
      using Cons.prems(3) sched_step [OF j f] by simp
    from Cons.IH [OF 1 _ this] Cons.prems(2,4)
    have IH: "length ts' = length ts \<and> fst (run (ts' ! i) db') = fst (run (?ts ! i) (fst (f db))) \<and>
        agree (K i) (snd (run (ts' ! i) db')) (snd (run (?ts ! i) (fst (f db))))"
      by simp
    show ?thesis
    proof (cases "i = j")
      case True
      with IH f j show ?thesis by simp
    next
      case False
      with Cons.prems(2) [OF Cons.prems(4) j] cf(1) have "agree (K i) (fst (f db)) db"
        by (auto intro: agree_mono)
      from confined_run [OF Cons.prems(1) [OF Cons.prems(4)] this] IH False show ?thesis
        by (auto intro: agree_trans)
    qed
  next
    case False
    then have "sched is (db, ts) = (db', ts')" using Cons.prems(3) sched_idle [OF False] by simp
    with Cons show ?thesis by blast
  qed
qed simp

lemma confined_accesses:
  "key \<in> K \<Longrightarrow> confined K Q p \<Longrightarrow> confined K Q (data_insert key val p)"
  "key \<in> K \<Longrightarrow> confined K Q p \<Longrightarrow> confined K Q (data_remove key p)"
  "key \<in> K \<Longrightarrow> confined K Q p \<Longrightarrow> confined K Q (exp_insert key t p)"
  "key \<in> K \<Longrightarrow> confined K Q p \<Longrightarrow> confined K Q (exp_remove key p)"
  "confined K (\<lambda>_. True) done_ok"
  by (auto simp: data_insert_def data_remove_def exp_insert_def exp_remove_def done_ok_def agree_def)

lemma confined_lazy_check:
  "key \<in> K \<Longrightarrow> confined K (\<lambda>_. True) p \<Longrightarrow> confined K (\<lambda>_. True) (lazy_check now key gone p)"
  by (auto simp: lazy_check_def agree_def is_expired_def intro!: confined_accesses)

lemma confined_reads:
  "key \<in> K \<Longrightarrow> confined K (\<lambda>_. True) (get_prog now key)" "key \<in> K \<Longrightarrow> confined K (\<lambda>_. True) (lrange_prog cfg now key start stop)"
  by (auto simp: get_prog_def lrange_prog_def agree_def intro!: confined_lazy_check)

lemma confined_push: "key \<in> K \<Longrightarrow> confined K (\<lambda>_. True) (push_prog key fresh grow)"
  by (auto simp: push_prog_def agree_def confined_accesses split: option.splits RedisObject.splits)

lemma confined_expire: "key \<in> K \<Longrightarrow> confined K (\<lambda>_. True) (expire_prog key t opt)"
proof -
  assume k: "key \<in> K"
  have "confined K (\<lambda>_. True) (expire_if key t cond)" for cond
    using k by (auto simp: expire_if_def agree_def confined_accesses)
  moreover have "key |\<in>| fmdom (data db) \<longleftrightarrow> key |\<in>| fmdom (data db')" if "agree K db db'" for db db'
    using that k by (simp add: agree_def fmlookup_dom_iff)
  ultimately show ?thesis
    using k by (auto simp: expire_prog_def confined_accesses split: option.split)
qed

lemma confined_command: "command_keys cmd \<subseteq> K \<Longrightarrow> confined K (\<lambda>_. True) (prog_of cfg now cmd)"
  by (cases cmd)
    (auto simp: command_keys_def set_prog_def delete_prog_def lpush_prog_def rpush_prog_def
      confined_reads confined_push confined_expire split: option.split intro!: confined_accesses)

text \<open>The key a request names, and whether it asks for a snapshot.\<close>

fun request_keys :: "RespType \<Rightarrow> bytes set" where
  "request_keys (Array (c # arg # args)) = (case as_bulk arg of Some k \<Rightarrow> {k} | None \<Rightarrow> {})"
| "request_keys req = {}"

fun is_save :: "RespType \<Rightarrow> bool" where
  "is_save (Array (c # args)) \<longleftrightarrow>
     (case as_bulk c of Some s \<Rightarrow> to_ascii_uppercase s = ''SAVE'' | None \<Rightarrow> False)"
| "is_save req \<longleftrightarrow> False"

definition plain_on :: "bytes set \<Rightarrow> Command \<Rightarrow> bool" where
  "plain_on K cmd \<longleftrightarrow> command_keys cmd \<subseteq> K \<and> cmd \<noteq> SAVE"

lemma with_key_keys:
  assumes "with_key args msg f = Ok cmd"
    and "f = ECHO \<or> f = GET \<or> f = DELETE \<or> f = (\<lambda>k. LPUSH k vs) \<or> f = (\<lambda>k. RPUSH k vs)"
  shows "plain_on (request_keys (Array (c # args))) cmd"
  using assms
  by (cases args)
    (auto simp: with_key_def plain_on_def command_keys_def outcome_simps split: option.splits)

lemma plain_on_control:
  "plain_on K PING" "plain_on K MULTI" "plain_on K EXEC" "plain_on K DISCARD"
  by (simp_all add: plain_on_def command_keys_def)

lemma parse_set_keys:
  assumes "parse_set cfg now args = Ok cmd"
  shows "plain_on (request_keys (Array (c # args))) cmd"
proof -
  from assms obtain a b rest where "args = a # b # rest"
    by (cases args; cases "tl args") (auto simp: parse_set_def)
  with assms show ?thesis
    by (auto simp: parse_set_def plain_on_def command_keys_def outcome_simps split: if_splits option.splits)
qed

lemma parse_expire_keys:
  "parse_expire now args = Ok cmd \<Longrightarrow> plain_on (request_keys (Array (c # args))) cmd"
  by (cases args)
    (auto simp: parse_expire_def plain_on_def command_keys_def outcome_simps index_Ok_iff
      split: if_splits option.splits)

lemma parse_lrange_keys:
  "parse_lrange args = Ok cmd \<Longrightarrow> plain_on (request_keys (Array (c # args))) cmd"
  by (cases args)
    (auto simp: parse_lrange_def plain_on_def command_keys_def outcome_simps index_Ok_iff
      split: option.splits)

lemma extract_keys:
  assumes "extract_command cfg now req = Ok cmd" "\<not> is_save req"
  shows "plain_on (request_keys req) cmd"
proof -
  from assms(1) obtain c args s where req: "req = Array (c # args)" and c: "as_bulk c = Some s" and
    p: "parse_command cfg now (to_ascii_uppercase s) args = Ok cmd"
    by (auto simp: extract_command_def split: RespType.splits list.splits option.splits)
  show ?thesis
    using p assms(2) c unfolding req parse_command_def
    by (auto simp: plain_on_control split: if_splits intro: parse_set_keys parse_expire_keys
        parse_lrange_keys with_key_keys [where vs = "bulk_strings (drop (Suc 0) args)"])
qed

definition queue_on :: "bytes set \<Rightarrow> Client \<Rightarrow> bool" where
  "queue_on K client \<longleftrightarrow> list_all (plain_on K) (queued_commands client)"

lemma confined_plain:
  "plain_on K cmd \<Longrightarrow> confined K (\<lambda>_. True) (plain_prog sh cfg clk n cmd)"
  by (auto simp: plain_prog_def plain_on_def intro: confined_bind confined_command)

lemma confined_queue:
  "list_all (plain_on K) cs \<Longrightarrow> confined K (\<lambda>_. True) (queue_prog sh cfg clk cs n)"
proof (induction cs arbitrary: n)
  case (Cons c cs)
  then show ?case
    by (auto simp: case_prod_beta confined_plain split: outcome.split
        intro!: confined_bind [where Q = "\<lambda>_. True"])
qed simp

lemma confined_dispatch:
  assumes "plain_on K cmd" "queue_on K client"
  shows "confined K (\<lambda>(r, client', _). queue_on K client') (dispatch_prog sh cfg clk n client cmd)"
  using assms confined_queue [of K "queued_commands client" sh cfg clk "n + 1"]
  by (auto simp: dispatch_prog_def exec_prog_def queue_on_def case_prod_beta confined_plain
      split: outcome.split intro!: confined_bind [where Q = "\<lambda>_. True"])

lemma confined_request:
  assumes "request_keys req \<subseteq> K" "\<not> is_save req" "queue_on K client"
  shows "confined K (\<lambda>(r, client', _). queue_on K client') (request_prog sh cfg clk n client req)"
proof (cases "extract_command cfg (clk n) req")
  case (Ok cmd)
  from extract_keys [OF Ok assms(2)] assms(1) have "plain_on K cmd" by (auto simp: plain_on_def)
  with Ok assms(3) show ?thesis by (simp add: request_prog_def confined_dispatch)
qed (use assms(3) in \<open>auto simp: request_prog_def\<close>)

lemma confined_session:
  assumes "\<forall>req \<in> set reqs. request_keys req \<subseteq> K \<and> \<not> is_save req" "queue_on K client"
  shows "confined K (\<lambda>_. True) (session_prog sh cfg clk reqs n client)"
  using assms
proof (induction reqs arbitrary: n client)
  case (Cons req reqs)
  have "confined K (\<lambda>(r, client', _). queue_on K client') (request_prog sh cfg clk n client req)"
    using Cons.prems by (intro confined_request) auto
  then show ?case unfolding session_prog.simps
  proof (rule confined_bind)
    fix r :: request_result assume q: "case r of (r, client', _) \<Rightarrow> queue_on K client'"
    obtain x client' snaps n' where r: "r = (x, client', snaps, n')" by (rule prod_cases4)
    have "confined K (\<lambda>_. True) (session_prog sh cfg clk reqs n' client')"
      using Cons q r by simp
    then show "confined K (\<lambda>_. True) (case r of (r, client', snaps, n') \<Rightarrow> case r of
         Panic p \<Rightarrow> Done (Panic p, client', snaps, n')
       | _ \<Rightarrow> prog_bind (session_prog sh cfg clk reqs n' client') (\<lambda>(rs, client'', snaps', n'').
             Done ((case rs of Ok reps \<Rightarrow> Ok (reply_of r # reps) | Err e \<Rightarrow> Err e | Panic p \<Rightarrow> Panic p),
                   client'', snaps @ snaps', n'')))"
      by (auto simp: r split: outcome.split intro!: confined_bind [where Q = "\<lambda>_. True"])
  qed
qed simp

section \<open>Sessions keep every value well typed\<close>

definition snapshot_typed :: "snapshot \<Rightarrow> bool" where
  "snapshot_typed snap \<longleftrightarrow>
     well_typed \<lparr>data = snap_data snap, expirations = snap_expirations snap\<rparr>"

lemma keeps_collect_data:
  "well_typed \<lparr>data = acc, expirations = fmempty\<rparr> \<Longrightarrow>
     keeps well_typed (\<lambda>m. well_typed \<lparr>data = m, expirations = fmempty\<rparr>) (collect_prog sh data is acc)"
proof (induction "is" arbitrary: acc)
  case (Cons i "is")
  then show ?case by (auto simp: well_typed_def shard_of_def split: if_splits intro!: Cons.IH)
qed simp

lemma keeps_collect_expirations:
  "well_typed \<lparr>data = d, expirations = acc\<rparr> \<Longrightarrow>
     keeps well_typed (\<lambda>m. well_typed \<lparr>data = d, expirations = m\<rparr>) (collect_prog sh expirations is acc)"
proof (induction "is" arbitrary: acc)
  case (Cons i "is")
  then show ?case by (auto simp: well_typed_def shard_of_def split: if_splits intro!: Cons.IH)
qed simp

lemma keeps_save: "keeps well_typed snapshot_typed (save_prog sh)"
  unfolding save_prog_def
  by (rule keeps_bind [OF keeps_collect_data], simp add: well_typed_def)
    (rule keeps_bind [OF keeps_collect_expirations], auto simp: snapshot_typed_def)

definition queue_wf :: "Client \<Rightarrow> bool" where
  "queue_wf client \<longleftrightarrow> list_all command_wf (queued_commands client)"

lemma keeps_plain:
  "command_wf cmd \<Longrightarrow> keeps well_typed (\<lambda>(_, snaps, _). list_all snapshot_typed snaps) (plain_prog sh cfg clk n cmd)"
  using command_keys_valid [of cmd] typed.keeps_command [of cmd cfg "clk n"]
  by (auto simp: plain_prog_def intro: keeps_bind [OF keeps_save] keeps_bind [where Q = "\<lambda>_. True"])

lemma keeps_queue:
  "list_all command_wf cs \<Longrightarrow>
     keeps well_typed (\<lambda>(_, snaps, _). list_all snapshot_typed snaps) (queue_prog sh cfg clk cs n)"
proof (induction cs arbitrary: n)
  case (Cons c cs)
  show ?case unfolding queue_prog.simps
  proof (rule keeps_bind [OF keeps_plain])
    show "command_wf c" using Cons.prems by simp
    fix r :: "(bytes, RespType) outcome \<times> snapshot list \<times> nat"
    assume s: "case r of (_, snaps, _) \<Rightarrow> list_all snapshot_typed snaps"
    obtain x snaps n' where r: "r = (x, snaps, n')" by (rule prod_cases3)
    have "keeps well_typed (\<lambda>(_, snaps, _). list_all snapshot_typed snaps) (queue_prog sh cfg clk cs n')"
      using Cons by simp
    then show "keeps well_typed (\<lambda>(_, snaps, _). list_all snapshot_typed snaps)
      (case r of (r, snaps, n') \<Rightarrow> case r of
         Ok rep \<Rightarrow> prog_bind (queue_prog sh cfg clk cs n') (\<lambda>(rs, snaps', n'').
             Done ((case rs of Ok reps \<Rightarrow> Ok (rep # reps) | Err e \<Rightarrow> Err e | Panic p \<Rightarrow> Panic p),
                   snaps @ snaps', n''))
       | Err e \<Rightarrow> Done (Err (''Failed to execute queued commands. E: '' @ e), snaps, n')
       | Panic p \<Rightarrow> Done (Panic p, snaps, n'))"
      using s by (auto simp: r split: outcome.split intro!: keeps_bind)
  qed
qed simp

definition served_ok :: "'r \<times> Client \<times> snapshot list \<times> nat \<Rightarrow> bool" where
  "served_ok res \<longleftrightarrow> queue_wf (fst (snd res)) \<and> list_all snapshot_typed (fst (snd (snd res)))"

lemma keeps_dispatch:
  assumes "command_wf cmd" "queue_wf client"
  shows "keeps well_typed served_ok (dispatch_prog sh cfg clk n client cmd)"
  using assms keeps_queue [of "queued_commands client" sh cfg clk "n + 1"] keeps_plain [OF assms(1), of sh cfg clk n]
  by (auto simp: dispatch_prog_def exec_prog_def queue_wf_def served_ok_def split: outcome.split
      intro!: keeps_bind [where P = well_typed and Q = "\<lambda>(_, snaps, _). list_all snapshot_typed snaps"])

lemma keeps_request:
  assumes "wf_resp req" "queue_wf client"
  shows "keeps well_typed served_ok (request_prog sh cfg clk n client req)"
proof (cases "extract_command cfg (clk n) req")
  case (Ok cmd)
  with extract_command_wf [OF assms(1) Ok] assms(2) show ?thesis
    by (simp add: request_prog_def keeps_dispatch)
qed (use assms(2) in \<open>auto simp: request_prog_def served_ok_def\<close>)

subsection \<open>The reaper\<close>

lemma keeps_len: "keeps_inv P (len_prog sh is acc)"
  by (induction "is" arbitrary: acc) simp_all

lemma keeps_keys:
  assumes "enumerates ord"
  shows "list_all utf8_valid acc \<Longrightarrow> keeps well_typed (list_all utf8_valid) (keys_prog sh ord is acc)"
proof (induction "is" arbitrary: acc)
  case (Cons i "is")
  have "list_all utf8_valid (ord (shard_of sh i (expirations db)))" if "well_typed db" for db
    using that enumeratesD(2) [OF assms, of "shard_of sh i (expirations db)"]
    by (auto simp: list_all_iff well_typed_def shard_of_def fmlookup_dom'_iff)
  with Cons show ?case by simp
qed simp

lemma keeps_sweep:
  "list_all utf8_valid keys \<Longrightarrow> keeps_inv well_typed (sweep_prog now keys n)"
  by (induction keys arbitrary: n)
    (auto intro!: keeps_bind [OF typed.keeps_purge])

lemma keeps_cycle:
  assumes "enumerates ord"
  shows "keeps_inv well_typed (cycle_prog sh ord rnd clk runs i)"
proof (induction runs arbitrary: i)
  case (Suc runs)
  have "list_all utf8_valid (take m (drop n keys))" if "list_all utf8_valid keys" for m n keys
    using that by (auto simp: list_all_iff dest!: in_set_takeD in_set_dropD)
  with Suc show ?case
    by (auto simp: Let_def intro!: keeps_bind [OF keeps_len] keeps_bind [OF keeps_keys [OF assms]]
        keeps_bind [OF keeps_sweep])
qed simp

section \<open>Properties\<close>

text \<open>
  A connection is served as if it were alone: however the accesses of any number of sessions are
  interleaved, transactions included, a session that shares no key with the others gets exactly the
  replies of \<open>serve\<close> on the initial database and leaves its keys as \<open>serve\<close> does.
\<close>

theorem separate_sessions_isolated:
  assumes "sharded sh"
    and "\<forall>i < length sessions. \<forall>j < length sessions. i \<noteq> j \<longrightarrow>
      (\<Union>req \<in> set (snd (sessions ! i)). request_keys req) \<inter>
      (\<Union>req \<in> set (snd (sessions ! j)). request_keys req) = {}"
    and "\<forall>(clk, reqs) \<in> set sessions. \<forall>req \<in> set reqs. \<not> is_save req"
    and "sched is (db, map (\<lambda>(clk, reqs). session_prog sh cfg clk reqs 0 Client_new) sessions) = (db', ts)"
    and "i < length sessions" and "sessions ! i = (clk, reqs)" and "ts ! i = Done (rs, client, snaps, n)"
  shows "\<exists>w'. serve cfg clk Client_new \<lparr>w_db = db, w_tasks = [], w_ticks = 0\<rparr> reqs = (rs, client, w') \<and>
     agree (\<Union>req \<in> set reqs. request_keys req) db' (w_db w')"
proof -
  let ?K = "\<lambda>i. \<Union>req \<in> set (snd (sessions ! i)). request_keys req"
  let ?p = "session_prog sh cfg clk reqs 0 Client_new"
  let ?ts = "map (\<lambda>(clk, reqs). session_prog sh cfg clk reqs 0 Client_new) sessions"
  have cf: "confined (?K j) (\<lambda>_. True) (?ts ! j)" if "j < length ?ts" for j
  proof -
    obtain clk' reqs' where j: "sessions ! j = (clk', reqs')" by fastforce
    with that assms(3) have "\<forall>req \<in> set reqs'. \<not> is_save req"
      by (metis (no_types, lifting) case_prodD length_map nth_mem)
    with that j show ?thesis
      by (auto simp: queue_on_def Client_new_def intro!: confined_session)
  qed
  have ts: "?ts ! i = ?p" using assms(5,6) by simp
  have "fst (run (ts ! i) db') = fst (run ?p db) \<and> agree (?K i) (snd (run (ts ! i) db')) (snd (run ?p db))"
    using sched_confined [OF cf _ assms(4), of i] assms(2,5) ts by simp
  with assms(6,7) have r: "fst (run ?p db) = (rs, client, snaps, n)"
    and "agree (\<Union>req \<in> set reqs. request_keys req) db' (snd (run ?p db))" by simp_all
  moreover have "client_inv Client_new" by (simp add: client_inv_def Client_new_def)
  ultimately show ?thesis
    using run_session_prog [OF assms(1), of Client_new cfg clk "\<lparr>w_db = db, w_tasks = [], w_ticks = 0\<rparr>" reqs]
    by (simp add: in_session_def)
qed

abbreviation bulk :: "bytes list \<Rightarrow> RespType" where
  "bulk ws \<equiv> Array (map BulkString ws)"

theorem separate_sessions_isolated_witness:
  "\<exists>w'. serve demo_config (\<lambda>n. n) Client_new \<lparr>w_db = new_in_memory, w_tasks = [], w_ticks = 0\<rparr>
      [bulk [''SET'', ''a'', ''1''], bulk [''GET'', ''a'']] =
      (Ok [SimpleString ''Ok'', BulkString ''1''], Client_new, w')"
proof -
  let ?reqs = "[bulk [''SET'', ''a'', ''1''], bulk [''GET'', ''a'']]"
  let ?ss = "[((\<lambda>n. n), ?reqs), ((\<lambda>n. n), [bulk [''DELETE'', ''b'']])]"
  let ?r = "sched [0, 1, 0, 1, 0, 0] (new_in_memory,
      map (\<lambda>(clk, reqs). session_prog (1, \<lambda>_. 0) demo_config clk reqs 0 Client_new) ?ss)"
  have sh: "sharded (1, \<lambda>_. 0)" by (simp add: sharded_def)
  have keys: "\<forall>i < length ?ss. \<forall>j < length ?ss. i \<noteq> j \<longrightarrow>
      (\<Union>req \<in> set (snd (?ss ! i)). request_keys req) \<inter> (\<Union>req \<in> set (snd (?ss ! j)). request_keys req) = {}"
    by (auto simp: less_Suc_eq)
  have saves: "\<forall>(clk, reqs) \<in> set ?ss. \<forall>req \<in> set reqs. \<not> is_save req"
    by (simp add: to_ascii_uppercase_def ascii_upper_def)
  have run: "?r = (fst ?r, snd ?r)" by simp
  have res: "snd ?r ! 0 = Done (Ok [SimpleString ''Ok'', BulkString ''1''], Client_new, [], 4)"
    by (simp add: request_prog_def extract_command_def parse_command_def parse_set_def with_key_def
        to_ascii_uppercase_def ascii_upper_def dispatch_prog_def plain_prog_def Client_new_def
        set_prog_def get_prog_def delete_prog_def lazy_check_def data_insert_def data_remove_def
        exp_remove_def done_ok_def new_in_memory_def is_control_def)
  have "\<exists>w'. serve demo_config (\<lambda>n. n) Client_new \<lparr>w_db = new_in_memory, w_tasks = [], w_ticks = 0\<rparr> ?reqs =
      (Ok [SimpleString ''Ok'', BulkString ''1''], Client_new, w') \<and>
      agree (\<Union>req \<in> set ?reqs. request_keys req) (fst ?r) (w_db w')"
    by (rule separate_sessions_isolated [OF sh keys saves run _ _ res]) simp_all
  then show ?thesis by blast
qed

text \<open>
  Run alone, the program of a session is \<open>serve\<close>: the decomposition into map accesses, with
  transactions and snapshots, changes nothing for a connection that has the database to itself.
\<close>

theorem session_alone_is_served:
  assumes "sharded sh" and "client_inv client"
  shows "serve cfg clk client w reqs =
     in_session w (run (session_prog sh cfg clk reqs (w_ticks w) client) (w_db w))"
  using assms by (rule run_session_prog)

theorem session_alone_is_served_witness:
  "serve demo_config (\<lambda>n. n) Client_new empty_world [bulk [''SAVE'']] =
     in_session empty_world (run (session_prog (1, \<lambda>_. 0) demo_config (\<lambda>n. n) [bulk [''SAVE'']]
       (w_ticks empty_world) Client_new) (w_db empty_world))"
  by (rule session_alone_is_served) (simp_all add: sharded_def client_inv_def Client_new_def)





end
