(* ===== verification/Network.thy ===== *)
theory Network
  imports Sessions
begin

text \<open>
  Whole connections in parallel: \<open>Client::handle\<close> of \<open>src/config/client.rs\<close>, from the bytes that
  arrive to the bytes that leave, as a program of atomic map accesses, next to other connections and
  the reaper.  The buffer, the transaction and the writer belong to the connection; only \<open>dispatch\<close>
  accesses the database.  In the local state the database component of \<open>cn_world\<close> is not used, and
  \<open>on_db db c\<close> puts a database there.

  Run alone, \<open>handle_prog\<close> is \<open>handle\<close>.  Among others, a connection that shares no key with them
  gets the replies of \<open>serve\<close>, and whatever the peers send the stored data stays well typed.
\<close>

section \<open>The handler as a program\<close>

definition on_db :: "DB \<Rightarrow> 'w conn \<Rightarrow> 'w conn" where
  "on_db db c = c\<lparr>cn_world := (cn_world c)\<lparr>w_db := db\<rparr>\<rparr>"

definition one_frame_prog ::
    "sharding \<Rightarrow> 'w conn_env \<Rightarrow> nat \<Rightarrow> 'w conn \<Rightarrow> RespType \<Rightarrow> nat \<Rightarrow> (flow \<times> nat \<times> 'w conn) prog" where
  "one_frame_prog sh env pipeline_count c resp consumed =
     (if length (cn_buf c) < consumed then Done (Crash SliceOutOfRange, pipeline_count, c)
      else
        prog_bind (request_prog sh (e_cfg env) (e_clk env) (w_ticks (cn_world c)) (cn_client c) resp)
          (\<lambda>(r, client', snaps, n').
             Done (answer env (pipeline_count + 1) r
               (c\<lparr>cn_buf := drop consumed (cn_buf c), cn_client := client',
                  cn_world := (cn_world c)\<lparr>w_tasks := w_tasks (cn_world c) @ snaps, w_ticks := n'\<rparr>\<rparr>))))"

lemma one_frame_prog_buf:
  "(Fall_Through, pc', c') \<in> results (one_frame_prog sh env pc c resp n) \<Longrightarrow>
     n \<le> length (cn_buf c) \<and> cn_buf c' = drop n (cn_buf c)"
  by (auto simp: one_frame_prog_def split: if_splits dest!: sym [of _ "answer _ _ _ _"] answer_buf)

function drain_prog ::
    "sharding \<Rightarrow> 'w conn_env \<Rightarrow> nat \<Rightarrow> bool \<Rightarrow> 'w conn \<Rightarrow> (flow \<times> bool \<times> 'w conn) prog" where
  "drain_prog sh env pipeline_count made_progress c =
     (if cn_buf c = [] then Done (Fall_Through, made_progress, c)
      else
        (case parse (e_cfg env) (cn_buf c) of
           Err Incomplete \<Rightarrow> Done (Fall_Through, made_progress, c)
         | Err (Invalid msg) \<Rightarrow>
             Done (Fall_Through, made_progress, (flush_ignored env (reply_error env msg c))\<lparr>cn_buf := []\<rparr>)
         | Panic p \<Rightarrow> Done (Crash p, made_progress, c)
         | Ok rn \<Rightarrow>
             prog_bind (one_frame_prog sh env pipeline_count c (fst rn) (snd rn)) (\<lambda>(fl, pc', c').
               if fl = Fall_Through then drain_prog sh env pc' True c' else Done (fl, True, c'))))"
  by auto
termination
proof (relation "measure (\<lambda>(_, _, _, _, c). length (cn_buf c))", goal_cases)
  case (2 sh env pc mp c rn r fl y pc' c')
  then have "(Fall_Through, pc', c') \<in> results (one_frame_prog sh env pc c (fst rn) (snd rn))" by simp
  from one_frame_prog_buf [OF this] parse_bounds [of "e_cfg env" "cn_buf c" "fst rn" "snd rn"] 2(2)
  show ?case by auto
qed simp

declare drain_prog.simps [simp del]

definition handle_pass_prog :: "sharding \<Rightarrow> 'w conn_env \<Rightarrow> 'w conn \<Rightarrow> (flow \<times> 'w conn) prog" where
  "handle_pass_prog sh env c =
     prog_bind (drain_prog sh env 0 False c) (\<lambda>drained. Done (end_pass env drained))"

primrec handle_loop_prog ::
    "sharding \<Rightarrow> 'w conn_env \<Rightarrow> read_event list \<Rightarrow> 'w conn \<Rightarrow> (ending \<times> 'w conn) prog" where
  "handle_loop_prog sh env [] c = Done (Waiting, c)"
| "handle_loop_prog sh env (ev # evs) c =
     (case on_read (cn_buf c) ev of
        Stop \<Rightarrow> Done (Closed, flush_ignored env c)
      | Retry \<Rightarrow> handle_loop_prog sh env evs c
      | Parse buf \<Rightarrow>
          prog_bind (handle_pass_prog sh env (c\<lparr>cn_buf := buf\<rparr>)) (\<lambda>(fl, c').
            case fl of
              Fall_Through \<Rightarrow> handle_loop_prog sh env evs c'
            | Break_Outer \<Rightarrow> Done (Closed, flush_ignored env c')
            | Return \<Rightarrow> Done (Aborted, c')
            | Crash p \<Rightarrow> Done (Crashed p, c')))"

definition conn_new :: "'w \<Rightarrow> 'w conn" where
  "conn_new writer = \<lparr>cn_buf = [], cn_client = Client_new, cn_writer = writer,
     cn_world = \<lparr>w_db = new_in_memory, w_tasks = [], w_ticks = 0\<rparr>\<rparr>"

definition handle_prog ::
    "sharding \<Rightarrow> 'w conn_env \<Rightarrow> 'w \<Rightarrow> read_event list \<Rightarrow> (ending \<times> 'w conn) prog" where
  "handle_prog sh env writer evs = handle_loop_prog sh env evs (conn_new writer)"

section \<open>Run alone, it is the handler\<close>

lemma on_db_sel [simp]:
  "cn_buf (on_db db c) = cn_buf c" "cn_client (on_db db c) = cn_client c" "cn_writer (on_db db c) = cn_writer c"
  "cn_world (on_db db c) = (cn_world c)\<lparr>w_db := db\<rparr>"
  by (simp_all add: on_db_def)

lemma on_db_updates:
  "(on_db db c)\<lparr>cn_buf := b\<rparr> = on_db db (c\<lparr>cn_buf := b\<rparr>)"
  "(on_db db c)\<lparr>cn_writer := wr\<rparr> = on_db db (c\<lparr>cn_writer := wr\<rparr>)"
  by (simp_all add: on_db_def)

lemma on_db_effects:
  "reply_error env e (on_db db c) = on_db db (reply_error env e c)"
  "flush_ignored env (on_db db c) = on_db db (flush_ignored env c)"
  by (simp_all add: reply_error_def flush_ignored_def on_db_def)

lemma answer_on_db:
  "answer env pc r (on_db db c) = (case answer env pc r c of (fl, pc', c') \<Rightarrow> (fl, pc', on_db db c'))"
  by (simp add: answer_def send_reply_def on_db_effects on_db_updates split: outcome.split prod.split)

lemma end_pass_on_db:
  "end_pass env (fl, mp, on_db db c) = (case end_pass env (fl, mp, c) of (fl', c') \<Rightarrow> (fl', on_db db c'))"
  by (simp add: end_pass_def on_db_updates split: outcome.split prod.split)

lemma answer_keeps:
  "answer env pc r c = (fl, pc', c') \<Longrightarrow> cn_client c' = cn_client c \<and> cn_world c' = cn_world c"
  by (auto simp: answer_def send_reply_def reply_error_def split: outcome.splits prod.splits if_splits)

lemma end_pass_keeps:
  "end_pass env (fl, mp, c) = (fl', c') \<Longrightarrow>
     cn_buf c' = cn_buf c \<and> cn_client c' = cn_client c \<and> cn_world c' = cn_world c \<and>
     (fl' = Fall_Through \<longrightarrow> fl = Fall_Through)"
  by (auto simp: end_pass_def split: outcome.splits prod.splits if_splits)

lemma run_one_frame_prog:
  assumes "sharded sh" "client_inv (cn_client c)"
    and "run (one_frame_prog sh env pc c resp n) db = ((fl, pc', c'), db')"
  shows "one_frame env pc (on_db db c) resp n = (fl, pc', on_db db' c') \<and> client_inv (cn_client c')"
proof (cases "length (cn_buf c) < n")
  case True
  with assms show ?thesis by (auto simp: one_frame_prog_def one_frame_def)
next
  case False
  let ?w = "(cn_world c)\<lparr>w_db := db\<rparr>"
  obtain r client' snaps n' db1 where
    p: "run (request_prog sh (e_cfg env) (e_clk env) (w_ticks (cn_world c)) (cn_client c) resp) db =
      ((r, client', snaps, n'), db1)"
    by (metis prod.collapse)
  let ?c = "c\<lparr>cn_buf := drop n (cn_buf c), cn_client := client',
      cn_world := (cn_world c)\<lparr>w_tasks := w_tasks (cn_world c) @ snaps, w_ticks := n'\<rparr>\<rparr>"
  have req: "run_request (e_cfg env) (e_clk env) (cn_client c) ?w resp =
      (r, client', \<lparr>w_db = db1, w_tasks = w_tasks (cn_world c) @ snaps, w_ticks = n'\<rparr>)"
    using run_request_prog [OF assms(1,2), of "e_cfg env" "e_clk env" ?w resp] p by (simp add: in_session_def)
  have c: "(on_db db c)\<lparr>cn_buf := drop n (cn_buf c), cn_client := client',
      cn_world := \<lparr>w_db = db1, w_tasks = w_tasks (cn_world c) @ snaps, w_ticks = n'\<rparr>\<rparr> = on_db db1 ?c"
    by (cases "cn_world c") (simp add: on_db_def)
  from assms(3) p False have a: "answer env (pc + 1) r ?c = (fl, pc', c')" "db' = db1"
    by (simp_all add: one_frame_prog_def run_bind)
  have "answer env (pc + 1) r ((on_db db c)\<lparr>cn_buf := drop n (cn_buf c), cn_client := client',
      cn_world := \<lparr>w_db = db1, w_tasks = w_tasks (cn_world c) @ snaps, w_ticks = n'\<rparr>\<rparr>) = (fl, pc', on_db db' c')"
    unfolding c using a answer_on_db [of env "pc + 1" r db1 ?c] by simp
  with req False
  have "one_frame env pc (on_db db c) resp n = (fl, pc', on_db db' c')" by (simp add: one_frame_def)
  moreover have "cn_client c' = client'" using answer_keeps [OF a(1)] by simp
  ultimately show ?thesis using run_request_client_inv [OF assms(2) req] by simp
qed

lemma run_drain_prog:
  assumes "sharded sh"
  shows "client_inv (cn_client c) \<Longrightarrow> run (drain_prog sh env pc mp c) db = ((fl, mp', c'), db') \<Longrightarrow>
     drain env pc mp (on_db db c) = (fl, mp', on_db db' c') \<and> client_inv (cn_client c')"
proof (induction "length (cn_buf c)" arbitrary: pc mp c db rule: less_induct)
  case less
  show ?case
  proof (cases "cn_buf c = [] \<or> (\<nexists>rn. parse (e_cfg env) (cn_buf c) = Ok rn)")
    case True
    with less.prems show ?thesis
      by (auto simp: drain.simps [of env pc mp "on_db db c"] drain_prog.simps [of sh env pc mp c]
          on_db_effects on_db_updates flush_ignored_def reply_error_def
          split: outcome.splits ParseError.splits if_splits)
  next
    case False
    then obtain rn where p: "parse (e_cfg env) (cn_buf c) = Ok rn" and ne: "cn_buf c \<noteq> []" by blast
    obtain fl1 pc1 c1 db1 where
      one: "run (one_frame_prog sh env pc c (fst rn) (snd rn)) db = ((fl1, pc1, c1), db1)"
      by (metis prod.collapse)
    from run_one_frame_prog [OF assms less.prems(1) one]
    have o: "one_frame env pc (on_db db c) (fst rn) (snd rn) = (fl1, pc1, on_db db1 c1)"
      and inv: "client_inv (cn_client c1)" by simp_all
    show ?thesis
    proof (cases "fl1 = Fall_Through")
      case True
      then have "length (cn_buf c1) < length (cn_buf c)"
        using one_frame_shrinks [of env "on_db db c" rn pc1 "on_db db1 c1" pc] o p by simp
      from less.hyps [OF this inv, of pc1 True db1] less.prems(2) True one o p ne show ?thesis
        by (simp add: drain.simps [of env pc mp "on_db db c"] drain_prog.simps [of sh env pc mp c] run_bind)
    next
      case False
      with less.prems(2) one o p ne inv show ?thesis
        by (simp add: drain.simps [of env pc mp "on_db db c"] drain_prog.simps [of sh env pc mp c] run_bind)
    qed
  qed
qed

lemma run_handle_pass_prog:
  assumes "sharded sh" "client_inv (cn_client c)" "run (handle_pass_prog sh env c) db = ((fl, c'), db')"
  shows "handle_pass env (on_db db c) = (fl, on_db db' c') \<and> client_inv (cn_client c')"
proof -
  obtain fl1 mp c1 db1 where d: "run (drain_prog sh env 0 False c) db = ((fl1, mp, c1), db1)"
    by (metis prod.collapse)
  with assms(3) have e: "end_pass env (fl1, mp, c1) = (fl, c')" "db1 = db'"
    by (simp_all add: handle_pass_prog_def run_bind)
  from run_drain_prog [OF assms(1,2) d] e end_pass_keeps [OF e(1)] show ?thesis
    by (simp add: handle_pass_def end_pass_on_db)
qed

lemma run_handle_loop_prog:
  assumes "sharded sh"
  shows "client_inv (cn_client c) \<Longrightarrow> run (handle_loop_prog sh env evs c) db = ((e, c'), db') \<Longrightarrow>
     handle_loop env (on_db db c) evs = (e, on_db db' c')"
proof (induction evs arbitrary: c db)
  case (Cons ev evs)
  show ?case
  proof (cases "on_read (cn_buf c) ev")
    case (Parse b)
    obtain fl c1 db1 where p: "run (handle_pass_prog sh env (c\<lparr>cn_buf := b\<rparr>)) db = ((fl, c1), db1)"
      by (metis prod.collapse)
    from run_handle_pass_prog [OF assms _ p] Cons.prems(1)
    have "handle_pass env (on_db db (c\<lparr>cn_buf := b\<rparr>)) = (fl, on_db db1 c1)" "client_inv (cn_client c1)"
      by simp_all
    with Cons.IH [of c1 db1] Cons.prems(2) Parse p show ?thesis
      by (cases fl) (auto simp: run_bind on_db_updates on_db_effects)
  qed (use Cons in \<open>auto simp: on_db_effects\<close>)
qed simp

lemma run_handle_prog:
  assumes "sharded sh" "run (handle_prog sh env writer evs) db = ((e, c), db')"
  shows "handle env writer \<lparr>w_db = db, w_tasks = [], w_ticks = 0\<rparr> evs = (e, on_db db' c)"
proof -
  have "client_inv (cn_client (conn_new writer))" by (simp add: conn_new_def client_inv_def Client_new_def)
  from run_handle_loop_prog [OF assms(1) this, of env evs db] assms(2) show ?thesis
    by (simp add: handle_prog_def handle_def conn_new_def on_db_def)
qed

section \<open>Whatever the peers send, the data stays well typed\<close>

text \<open>What holds of every possible result may be added to a postcondition.\<close>

lemma keeps_results:
  "keeps P Q p \<Longrightarrow> (\<And>r. r \<in> results p \<Longrightarrow> R r) \<Longrightarrow> keeps P (\<lambda>r. Q r \<and> R r) p"
proof (induction p rule: keeps.induct)
  case (keeps_Step f)
  then show ?case by (auto intro!: keeps.keeps_Step)
qed simp

lemma confined_results:
  "confined K Q p \<Longrightarrow> (\<And>r. r \<in> results p \<Longrightarrow> R r) \<Longrightarrow> confined K (\<lambda>r. Q r \<and> R r) p"
proof (induction p rule: confined.induct)
  case (confined_Step f)
  have "confined K (\<lambda>r. Q r \<and> R r) (snd (f db))" for db
    using confined_Step(1) confined_Step(3) by simp blast
  with confined_Step(1,2) show ?case by simp
qed simp

definition shrinks :: "'w conn \<Rightarrow> flow \<times> nat \<times> 'w conn \<Rightarrow> bool" where
  "shrinks c r \<longleftrightarrow> (fst r = Fall_Through \<longrightarrow> length (cn_buf (snd (snd r))) < length (cn_buf c))"

lemma one_frame_prog_shrinks:
  assumes "parse (e_cfg env) (cn_buf c) = Ok rn"
    and "r \<in> results (one_frame_prog sh env pc c (fst rn) (snd rn))"
  shows "shrinks c r"
proof (cases r)
  case (fields fl pc' c')
  with assms one_frame_prog_buf [of pc' c' sh env pc c "fst rn" "snd rn"]
    parse_bounds [of "e_cfg env" "cn_buf c" "fst rn" "snd rn"]
  show ?thesis by (auto simp: shrinks_def)
qed

definition conn_typed :: "'w conn \<Rightarrow> bool" where
  "conn_typed c \<longleftrightarrow> queue_wf (cn_client c) \<and> list_all snapshot_typed (w_tasks (cn_world c))"

lemma conn_typed_local [simp]:
  "conn_typed (c\<lparr>cn_buf := b\<rparr>) = conn_typed c" "conn_typed (flush_ignored env c) = conn_typed c"
  "conn_typed (reply_error env e c) = conn_typed c"
  by (simp_all add: conn_typed_def flush_ignored_def reply_error_def)

lemma conn_typed_end_pass:
  assumes "conn_typed (snd (snd r))"
  shows "conn_typed (snd (end_pass env r))"
proof -
  obtain fl mp c where r: "r = (fl, mp, c)" by (rule prod_cases3)
  obtain fl' c' where e: "end_pass env (fl, mp, c) = (fl', c')" by fastforce
  from end_pass_keeps [OF e] have "cn_client c' = cn_client c" "cn_world c' = cn_world c" by simp_all
  with assms r e show ?thesis by (simp add: conn_typed_def)
qed

lemma conn_typed_answer: "conn_typed c \<Longrightarrow> answer env pc r c = (fl, pc', c') \<Longrightarrow> conn_typed c'"
  using answer_keeps [of env pc r c] by (simp add: conn_typed_def)

lemma keeps_one_frame:
  assumes "wf_resp resp" "conn_typed c"
  shows "keeps well_typed (\<lambda>(fl, pc', c'). conn_typed c') (one_frame_prog sh env pc c resp n)"
proof (cases "length (cn_buf c) < n")
  case False
  have "queue_wf (cn_client c)" using assms(2) by (simp add: conn_typed_def)
  note req = keeps_request [OF assms(1) this, of sh "e_cfg env" "e_clk env" "w_ticks (cn_world c)"]
  from False show ?thesis unfolding one_frame_prog_def
  proof (simp, intro keeps_bind [OF req])
    fix r :: request_result assume s: "served_ok r"
    obtain x client' snaps n' where r: "r = (x, client', snaps, n')" by (rule prod_cases4)
    let ?c = "c\<lparr>cn_buf := drop n (cn_buf c), cn_client := client',
      cn_world := (cn_world c)\<lparr>w_tasks := w_tasks (cn_world c) @ snaps, w_ticks := n'\<rparr>\<rparr>"
    have "conn_typed ?c" using s r assms(2) by (simp add: conn_typed_def served_ok_def)
    then show "keeps well_typed (\<lambda>(fl, pc', c'). conn_typed c') (case r of (r, client', snaps, n') \<Rightarrow>
        Done (answer env (Suc pc) r (c\<lparr>cn_buf := drop n (cn_buf c), cn_client := client',
          cn_world := (cn_world c)\<lparr>w_tasks := w_tasks (cn_world c) @ snaps, w_ticks := n'\<rparr>\<rparr>)))"
      by (auto simp: r dest: conn_typed_answer)
  qed
qed (use assms(2) in \<open>simp add: one_frame_prog_def\<close>)

lemma keeps_drain:
  "conn_typed c \<Longrightarrow> keeps well_typed (\<lambda>(fl, mp', c'). conn_typed c') (drain_prog sh env pc mp c)"
proof (induction "length (cn_buf c)" arbitrary: pc mp c rule: less_induct)
  case less
  show ?case
  proof (cases "cn_buf c = [] \<or> (\<nexists>rn. parse (e_cfg env) (cn_buf c) = Ok rn)")
    case True
    with less.prems show ?thesis
      by (auto simp: drain_prog.simps [of sh env pc mp c] split: outcome.split ParseError.split)
  next
    case False
    then obtain rn where p: "parse (e_cfg env) (cn_buf c) = Ok rn" and ne: "cn_buf c \<noteq> []" by blast
    have "wf_resp (fst rn)" using parse_wf_mutual(1) [of "e_cfg env" "cn_buf c" "fst rn" "snd rn"] p by simp
    note one = keeps_results [OF keeps_one_frame [OF this less.prems] one_frame_prog_shrinks [OF p]]
    have "keeps well_typed (\<lambda>(fl, mp', c'). conn_typed c')
        (prog_bind (one_frame_prog sh env pc c (fst rn) (snd rn)) (\<lambda>(fl, pc', c').
           if fl = Fall_Through then drain_prog sh env pc' True c' else Done (fl, True, c')))"
    proof (rule keeps_bind [OF one])
      fix r :: "flow \<times> nat \<times> 'a conn"
      assume q: "(case r of (fl, pc', c') \<Rightarrow> conn_typed c') \<and> shrinks c r"
      obtain fl pc' c' where r: "r = (fl, pc', c')" by (rule prod_cases3)
      show "keeps well_typed (\<lambda>(fl, mp', c'). conn_typed c') (case r of (fl, pc', c') \<Rightarrow>
          if fl = Fall_Through then drain_prog sh env pc' True c' else Done (fl, True, c'))"
      proof (cases "fl = Fall_Through")
        case True
        with q r less.hyps [of c' pc' True] show ?thesis by (simp add: shrinks_def)
      qed (use q r in simp)
    qed
    with ne p show ?thesis by (simp add: drain_prog.simps [of sh env pc mp c])
  qed
qed

lemma keeps_handle_loop:
  "conn_typed c \<Longrightarrow> keeps well_typed (\<lambda>(e, c'). conn_typed c') (handle_loop_prog sh env evs c)"
proof (induction evs arbitrary: c)
  case (Cons ev evs)
  show ?case
  proof (cases "on_read (cn_buf c) ev")
    case (Parse b)
    have pass: "keeps well_typed (\<lambda>(fl, c'). conn_typed c') (handle_pass_prog sh env (c\<lparr>cn_buf := b\<rparr>))"
      unfolding handle_pass_prog_def
    proof (rule keeps_bind [OF keeps_drain])
      show "conn_typed (c\<lparr>cn_buf := b\<rparr>)" using Cons.prems by simp
      fix r :: "flow \<times> bool \<times> 'a conn" assume "case r of (fl, mp', c') \<Rightarrow> conn_typed c'"
      then have "conn_typed (snd (end_pass env r))" by (intro conn_typed_end_pass) (simp add: case_prod_beta)
      then show "keeps well_typed (\<lambda>(fl, c'). conn_typed c') (Done (end_pass env r))"
        by (simp add: case_prod_beta)
    qed
    have "keeps well_typed (\<lambda>(e, c'). conn_typed c')
        (prog_bind (handle_pass_prog sh env (c\<lparr>cn_buf := b\<rparr>)) (\<lambda>(fl, c').
            case fl of
              Fall_Through \<Rightarrow> handle_loop_prog sh env evs c'
            | Break_Outer \<Rightarrow> Done (Closed, flush_ignored env c')
            | Return \<Rightarrow> Done (Aborted, c')
            | Crash p \<Rightarrow> Done (Crashed p, c')))"
    proof (rule keeps_bind [OF pass])
      fix r :: "flow \<times> 'a conn" assume "case r of (fl, c') \<Rightarrow> conn_typed c'"
      with Cons.IH [of "snd r"] show "keeps well_typed (\<lambda>(e, c'). conn_typed c')
        (case r of (fl, c') \<Rightarrow> case fl of
              Fall_Through \<Rightarrow> handle_loop_prog sh env evs c'
            | Break_Outer \<Rightarrow> Done (Closed, flush_ignored env c')
            | Return \<Rightarrow> Done (Aborted, c')
            | Crash p \<Rightarrow> Done (Crashed p, c'))"
        by (cases r; cases "fst r") simp_all
    qed
    with Parse show ?thesis by simp
  qed (use Cons in auto)
qed simp

section \<open>Connections on separate keys\<close>

text \<open>What a connection has still to receive is the encoding of requests on the keys of \<open>K\<close>.\<close>

definition stream_on :: "bytes set \<Rightarrow> config \<Rightarrow> bytes \<Rightarrow> 'w conn \<Rightarrow> bool" where
  "stream_on K cfg rest c \<longleftrightarrow>
     (\<exists>reqs. cn_buf c @ rest = encode reqs \<and> list_all (wire_safe cfg) reqs \<and>
        length (cn_buf c @ rest) \<le> isize_max \<and>
        (\<forall>req \<in> set reqs. request_keys (decoded req) \<subseteq> K \<and> \<not> is_save (decoded req)) \<and>
        queue_on K (cn_client c))"

lemma stream_on_cases:
  fixes c :: "'w conn"
  assumes "stream_on K cfg rest c"
  obtains (wait) "cn_buf c = [] \<or> parse cfg (cn_buf c) = Err Incomplete"
  | (frame) r us where "parse cfg (cn_buf c) = Ok (decoded r, length (to_string r))"
      and "cn_buf c = to_string r @ us"
      and "request_keys (decoded r) \<subseteq> K" "\<not> is_save (decoded r)" "queue_on K (cn_client c)"
      and "\<And>c' :: 'w conn. cn_buf c' = us \<Longrightarrow> queue_on K (cn_client c') \<Longrightarrow> stream_on K cfg rest c'"
proof -
  from assms obtain reqs where t: "cn_buf c @ rest = encode reqs" "list_all (wire_safe cfg) reqs"
    "length (cn_buf c @ rest) \<le> isize_max" "queue_on K (cn_client c)"
    "\<forall>req \<in> set reqs. request_keys (decoded req) \<subseteq> K \<and> \<not> is_save (decoded req)"
    unfolding stream_on_def by blast
  from t(1-3) show ?thesis
  proof (cases rule: next_frame)
    case (frame r rs us)
    show ?thesis
    proof (rule that(2) [OF frame(4,2)])
      fix c' :: "'w conn" assume "cn_buf c' = us" "queue_on K (cn_client c')"
      with frame t show "stream_on K cfg rest c'" unfolding stream_on_def by (intro exI [of _ rs]) auto
    qed (use frame(1) t in auto)
  qed (auto intro: that(1))
qed

lemma confined_one_frame:
  assumes "request_keys resp \<subseteq> K" "\<not> is_save resp" "queue_on K (cn_client c)" "n \<le> length (cn_buf c)"
  shows "confined K (\<lambda>(fl, pc', c'). queue_on K (cn_client c') \<and> cn_buf c' = drop n (cn_buf c))
     (one_frame_prog sh env pc c resp n)"
proof -
  note req = confined_request [OF assms(1-3), of sh "e_cfg env" "e_clk env" "w_ticks (cn_world c)"]
  have "confined K (\<lambda>(fl, pc', c'). queue_on K (cn_client c') \<and> cn_buf c' = drop n (cn_buf c))
     (prog_bind (request_prog sh (e_cfg env) (e_clk env) (w_ticks (cn_world c)) (cn_client c) resp)
       (\<lambda>(r, client', snaps, n').
          Done (answer env (pc + 1) r (c\<lparr>cn_buf := drop n (cn_buf c), cn_client := client',
            cn_world := (cn_world c)\<lparr>w_tasks := w_tasks (cn_world c) @ snaps, w_ticks := n'\<rparr>\<rparr>))))"
  proof (rule confined_bind [OF req])
    fix r :: request_result assume q: "case r of (r, client', _) \<Rightarrow> queue_on K client'"
    obtain x client' snaps n' where r: "r = (x, client', snaps, n')" by (rule prod_cases4)
    let ?c = "c\<lparr>cn_buf := drop n (cn_buf c), cn_client := client',
      cn_world := (cn_world c)\<lparr>w_tasks := w_tasks (cn_world c) @ snaps, w_ticks := n'\<rparr>\<rparr>"
    obtain fl pc' c' where a: "answer env (pc + 1) x ?c = (fl, pc', c')" by (rule prod_cases3)
    from answer_keeps [OF a] answer_buf [OF a] q r
    have "queue_on K (cn_client c') \<and> cn_buf c' = drop n (cn_buf c)" by simp
    with a r show "confined K (\<lambda>(fl, pc', c'). queue_on K (cn_client c') \<and> cn_buf c' = drop n (cn_buf c))
        (case r of (r, client', snaps, n') \<Rightarrow>
          Done (answer env (pc + 1) r (c\<lparr>cn_buf := drop n (cn_buf c), cn_client := client',
            cn_world := (cn_world c)\<lparr>w_tasks := w_tasks (cn_world c) @ snaps, w_ticks := n'\<rparr>\<rparr>)))"
      by simp
  qed
  with assms(4) show ?thesis by (simp add: one_frame_prog_def)
qed

lemma confined_drain:
  "stream_on K (e_cfg env) rest c \<Longrightarrow>
     confined K (\<lambda>(fl, mp', c'). stream_on K (e_cfg env) rest c') (drain_prog sh env pc mp c)"
proof (induction "length (cn_buf c)" arbitrary: pc mp c rule: less_induct)
  case less
  from less.prems show ?case
  proof (cases rule: stream_on_cases)
    case wait
    with less.prems show ?thesis by (auto simp: drain_prog.simps [of sh env pc mp c])
  next
    case (frame r us)
    then have ne: "cn_buf c \<noteq> []" and n: "length (to_string r) \<le> length (cn_buf c)" by auto
    have "confined K (\<lambda>(fl, mp', c'). stream_on K (e_cfg env) rest c')
        (prog_bind (one_frame_prog sh env pc c (decoded r) (length (to_string r))) (\<lambda>(fl, pc', c').
           if fl = Fall_Through then drain_prog sh env pc' True c' else Done (fl, True, c')))"
    proof (rule confined_bind [OF confined_one_frame [OF frame(3-5) n]])
      fix x :: "flow \<times> nat \<times> 'a conn"
      assume q: "case x of (fl, pc', c') \<Rightarrow>
          queue_on K (cn_client c') \<and> cn_buf c' = drop (length (to_string r)) (cn_buf c)"
      obtain fl pc' c' where x: "x = (fl, pc', c')" by (rule prod_cases3)
      with q frame(2) have "cn_buf c' = us" "queue_on K (cn_client c')" by simp_all
      with frame(6) have c': "stream_on K (e_cfg env) rest c'" by blast
      have "length (cn_buf c') < length (cn_buf c)" using \<open>cn_buf c' = us\<close> frame(2) by simp
      from less.hyps [OF this c', of pc' True] c' x
      show "confined K (\<lambda>(fl, mp', c'). stream_on K (e_cfg env) rest c') (case x of (fl, pc', c') \<Rightarrow>
          if fl = Fall_Through then drain_prog sh env pc' True c' else Done (fl, True, c'))"
        by simp
    qed
    with ne frame(1) show ?thesis by (simp add: drain_prog.simps [of sh env pc mp c])
  qed
qed

lemma confined_handle_pass:
  assumes "stream_on K (e_cfg env) rest c"
  shows "confined K (\<lambda>(fl, c'). stream_on K (e_cfg env) rest c') (handle_pass_prog sh env c)"
  unfolding handle_pass_prog_def
proof (rule confined_bind [OF confined_drain [OF assms]])
  fix r :: "flow \<times> bool \<times> 'a conn" assume q: "case r of (fl, mp', c') \<Rightarrow> stream_on K (e_cfg env) rest c'"
  obtain fl mp c1 where r: "r = (fl, mp, c1)" by (rule prod_cases3)
  obtain fl' c' where e: "end_pass env (fl, mp, c1) = (fl', c')" by fastforce
  from end_pass_keeps [OF e] have "cn_buf c' = cn_buf c1" "cn_client c' = cn_client c1" by simp_all
  with q r e show "confined K (\<lambda>(fl, c'). stream_on K (e_cfg env) rest c') (Done (end_pass env r))"
    by (simp add: stream_on_def)
qed

lemma confined_handle_loop:
  "stream_on K (e_cfg env) (delivers evs @ rest) c \<Longrightarrow> confined K (\<lambda>_. True) (handle_loop_prog sh env evs c)"
proof (induction evs arbitrary: c)
  case (Cons ev evs)
  show ?case
  proof (cases "on_read (cn_buf c) ev")
    case Retry
    then have "ev = WouldBlock" by (auto simp: on_read_def split: read_event.splits if_splits)
    with Retry Cons show ?thesis by (simp add: delivers_def)
  next
    case (Parse b)
    then have "\<exists>bs. b = cn_buf c @ bs \<and> delivers (ev # evs) = bs @ delivers evs"
      by (auto simp: on_read_def delivers_def split: read_event.splits if_splits)
    with Cons.prems have "stream_on K (e_cfg env) (delivers evs @ rest) (c\<lparr>cn_buf := b\<rparr>)"
      by (auto simp: stream_on_def)
    note pass = confined_handle_pass [OF this, of sh]
    from Parse show ?thesis
    proof (simp, intro confined_bind [OF pass])
      fix r :: "flow \<times> 'a conn" assume "case r of (fl, c') \<Rightarrow> stream_on K (e_cfg env) (delivers evs @ rest) c'"
      with Cons.IH [of "snd r"] show "confined K (\<lambda>_. True) (case r of (fl, c') \<Rightarrow> case fl of
              Fall_Through \<Rightarrow> handle_loop_prog sh env evs c'
            | Break_Outer \<Rightarrow> Done (Closed, flush_ignored env c')
            | Return \<Rightarrow> Done (Aborted, c')
            | Crash p \<Rightarrow> Done (Crashed p, c'))"
        by (cases r; cases "fst r") simp_all
    qed
  qed simp
qed simp

text \<open>The keys of an input, and the inputs that consist of requests other than \<open>SAVE\<close>.\<close>

definition input_keys :: "RespType list \<Rightarrow> bytes set" where
  "input_keys reqs = (\<Union>req \<in> set reqs. request_keys (decoded req))"

definition clean_input :: "config \<Rightarrow> read_event list \<Rightarrow> RespType list \<Rightarrow> bool" where
  "clean_input cfg evs reqs \<longleftrightarrow> list_all (wire_safe cfg) reqs \<and> length (encode reqs) \<le> isize_max \<and>
     prefix (delivers evs) (encode reqs) \<and> list_all (\<lambda>req. \<not> is_save (decoded req)) reqs"

lemma confined_handle:
  assumes "clean_input (e_cfg env) evs reqs"
  shows "confined (input_keys reqs) (\<lambda>_. True) (handle_prog sh env writer evs)"
proof -
  from assms obtain rest where "encode reqs = delivers evs @ rest" by (auto simp: clean_input_def prefix_def)
  with assms have "stream_on (input_keys reqs) (e_cfg env) (delivers evs @ rest) (conn_new writer)"
    by (auto simp: stream_on_def clean_input_def input_keys_def conn_new_def queue_on_def Client_new_def
        list_all_iff intro!: exI [of _ reqs])
  then show ?thesis unfolding handle_prog_def by (rule confined_handle_loop)
qed

section \<open>The whole server\<close>

text \<open>
  The threads of a server: its connections, each with its own environment, writer and input, and the
  wake-ups of the reaper.
\<close>

datatype 'w thread_result = Handled "ending \<times> 'w conn" | Reaped

definition server_threads ::
    "sharding \<Rightarrow> ('w conn_env \<times> 'w \<times> read_event list) list \<Rightarrow> instant iter_order \<Rightarrow>
     ((nat \<Rightarrow> nat \<Rightarrow> nat) \<times> (nat \<Rightarrow> instant) \<times> nat) list \<Rightarrow> 'w thread_result prog list" where
  "server_threads sh conns ord wakeups =
     map (\<lambda>(env, writer, evs). prog_bind (handle_prog sh env writer evs) (\<lambda>r. Done (Handled r))) conns @
     map (\<lambda>(rnd, clk, runs). prog_bind (cycle_prog sh ord rnd clk runs 0) (\<lambda>_. Done Reaped)) wakeups"

definition result_typed :: "'w thread_result \<Rightarrow> bool" where
  "result_typed r = (case r of Handled (e, c) \<Rightarrow> conn_typed c | Reaped \<Rightarrow> True)"

lemma keeps_handle: "keeps well_typed (\<lambda>(e, c'). conn_typed c') (handle_prog sh env writer evs)"
  unfolding handle_prog_def
  by (rule keeps_handle_loop) (simp add: conn_typed_def conn_new_def queue_wf_def Client_new_def)

lemma keeps_server:
  assumes "enumerates ord"
  shows "list_all (keeps well_typed result_typed) (server_threads sh conns ord wakeups)"
  by (auto simp: server_threads_def list_all_iff result_typed_def
      intro!: keeps_bind [OF keeps_handle] keeps_bind [OF keeps_cycle [OF assms]])

section \<open>Properties\<close>

text \<open>
  C7. No byte stream breaks the data of the concurrent server: whatever any number of peers send,
  however their reads and writes fail and however the accesses of their handlers, of their snapshots
  and of the reaper are interleaved, the database stays well typed, and so does every snapshot that
  a \<open>SAVE\<close> takes while the others go on.
\<close>

theorem concurrent_server_well_typed:
  assumes "well_typed db" and "enumerates ord"
    and "sched is (db, server_threads sh conns ord wakeups) = (db', ts)"
  shows "well_typed db' \<and>
    (\<forall>e c. Done (Handled (e, c)) \<in> set ts \<longrightarrow> list_all snapshot_typed (w_tasks (cn_world c)))"
  using sched_keeps_all [OF assms(1) keeps_server [OF assms(2), of sh conns wakeups], of "is"] assms(3)
  by (fastforce simp: list_all_iff result_typed_def conn_typed_def)

theorem concurrent_server_well_typed_witness:
  "well_typed (fst (sched [0, 1, 0, 1, 2, 2, 2, 0, 2] (new_in_memory, server_threads (1, \<lambda>_. 0)
     [(demo_env, bw_new, [Data (''SET a 1 PX 0'' @ CRLF)]), (demo_env, bw_new, [Data (''SAVE'' @ CRLF)])]
     key_order [((\<lambda>i n. 0), (\<lambda>i. 9), 3)])))"
proof -
  let ?r = "sched [0, 1, 0, 1, 2, 2, 2, 0, 2] (new_in_memory, server_threads (1, \<lambda>_. 0)
     [(demo_env, bw_new, [Data (''SET a 1 PX 0'' @ CRLF)]), (demo_env, bw_new, [Data (''SAVE'' @ CRLF)])]
     key_order [((\<lambda>i n. 0), (\<lambda>i. 9), 3)])"
  have wt: "well_typed new_in_memory" using db_inv_new by (simp add: db_inv_def)
  have run: "?r = (fst ?r, snd ?r)" by simp
  from concurrent_server_well_typed [OF wt key_order_enumerates run] show ?thesis by blast
qed





end
