(* ===== verification/Parser_Stack.thy ===== *)
theory Parser_Stack
  imports Resp_Parser
begin

text \<open>
  The call stack of \<open>Parser::parse\<close>.  \<open>parse\<close> calls \<open>parse_array\<close>, which calls \<open>parse\<close> for every
  element, and nothing in \<open>src/resp/parser.rs\<close> bounds the nesting.  \<open>parse_within d\<close> is the same
  parser on a stack that has room for \<open>d\<close> nested calls of \<open>parse\<close>; the next one overflows the stack,
  which aborts the process.  The lemmas say how many bytes a client has to send for that, and that
  the requests of an ordinary client stay far below.
\<close>

section \<open>The parser on a bounded stack\<close>

text \<open>The element loop and \<open>parse_array\<close>, over the recursive call to \<open>parse\<close>.\<close>

primrec elems_within ::
    "(bytes \<Rightarrow> parse_result) \<Rightarrow> nat \<Rightarrow> bytes \<Rightarrow> (ParseError, RespType list \<times> nat) outcome" where
  "elems_within call 0 rest = Ok ([], 0)"
| "elems_within call (Suc n) rest =
     and_then (call rest) (\<lambda>(resptype_el, len).
     and_then (elems_within call n (drop len rest)) (\<lambda>(arr, m).
       Ok (resptype_el # arr, len + m)))"

definition array_within :: "(bytes \<Rightarrow> parse_result) \<Rightarrow> config \<Rightarrow> bytes \<Rightarrow> parse_result" where
  "array_within call cfg buf =
     (case read_until_crlf (tl buf) of
        None \<Rightarrow> Err Incomplete
      | Some (data, len) \<Rightarrow>
          and_then (parse_usize_from_buf data) (\<lambda>arr_len.
          if vec_limit cfg < arr_len then Panic CapacityOverflow
          else
          and_then (elems_within call arr_len (drop (len + 1) buf)) (\<lambda>(arr, n).
            Ok (Array arr, len + 1 + n))))"

primrec parse_within :: "nat \<Rightarrow> config \<Rightarrow> bytes \<Rightarrow> parse_result" where
  "parse_within 0 cfg buf = Panic StackOverflow"
| "parse_within (Suc d) cfg buf =
     (if buf = [] then Err Incomplete
      else if is_inline buf then parse_inline buf
      else if hd buf = CHR ''+'' then parse_simple buf
      else if hd buf = CHR ''-'' then parse_simple buf
      else if hd buf = CHR '':'' then parse_integer buf
      else if hd buf = CHR ''$'' then parse_bulk_string cfg buf
      else if hd buf = CHR ''*'' then array_within (parse_within d cfg) cfg buf
      else if hd buf = CHR ''_'' then parse_null buf
      else if hd buf = CHR ''#'' then parse_bool buf
      else Err (Invalid (''Invalid RESP type: '' @ [hd buf])))"

text \<open>The nesting of a value: the calls of \<open>parse\<close> that are open while its innermost part is read.\<close>

fun resp_depth :: "RespType \<Rightarrow> nat" where
  "resp_depth (Array rs) = Suc (fold max (map resp_depth rs) 0)"
| "resp_depth _ = 1"

text \<open>A request that opens \<open>d\<close> arrays of one element and never closes them.\<close>

definition nested_arrays :: "nat \<Rightarrow> bytes" where
  "nested_arrays d = concat (replicate d (''*1'' @ CRLF))"

section \<open>A call that returns is not affected by the bound\<close>

lemma elems_within_cong:
  assumes "\<And>k. call (drop k rest) = parse cfg (drop k rest)"
  shows "elems_within call n rest = parse_elems cfg n rest"
  using assms
proof (induction n arbitrary: rest)
  case (Suc n)
  from Suc.prems [of 0] have "call rest = parse cfg rest" by simp
  moreover have "elems_within call n (drop len rest) = parse_elems cfg n (drop len rest)" for len
    using Suc.prems by (intro Suc.IH) simp
  ultimately show ?case by (simp add: parse_elems.simps [of cfg "Suc n"])
qed (simp add: parse_elems.simps)

lemma elems_within_exact:
  assumes "\<And>buf. call buf = Panic StackOverflow \<or> call buf = parse cfg buf"
  shows "elems_within call n rest = Panic StackOverflow \<or>
         elems_within call n rest = parse_elems cfg n rest"
proof (induction n arbitrary: rest)
  case (Suc n)
  from assms [of rest] show ?case
  proof
    assume call: "call rest = parse cfg rest"
    show ?thesis
    proof (cases "parse cfg rest")
      case (Ok rn)
      with call Suc.IH [of "drop (snd rn) rest"] show ?thesis
        by (cases rn) (auto simp: parse_elems.simps [of cfg "Suc n"])
    qed (use call in \<open>simp_all add: parse_elems.simps [of cfg "Suc n"]\<close>)
  qed simp
qed (simp add: parse_elems.simps)

lemma array_within_exact:
  assumes "\<And>buf. call buf = Panic StackOverflow \<or> call buf = parse cfg buf"
  shows "array_within call cfg buf = Panic StackOverflow \<or> array_within call cfg buf = parse_array cfg buf"
proof (cases "read_until_crlf (tl buf)")
  case (Some dl)
  obtain data len where dl: "dl = (data, len)" by force
  show ?thesis
  proof (cases "parse_usize_from_buf data")
    case (Ok k)
    with Some dl elems_within_exact [OF assms, of k "drop (len + 1) buf"] show ?thesis
      by (auto simp: array_within_def parse_array.simps)
  qed (use Some dl in \<open>auto simp: array_within_def parse_array.simps\<close>)
qed (simp add: array_within_def parse_array.simps)

lemma parse_within_exact:
  "parse_within d cfg buf = Panic StackOverflow \<or> parse_within d cfg buf = parse cfg buf"
proof (induction d arbitrary: buf)
  case (Suc d)
  from array_within_exact [of "parse_within d cfg" cfg buf] Suc.IH show ?case
    by (auto simp: parse.simps [of cfg buf])
qed simp

section \<open>How much stack a buffer needs\<close>

lemma parse_usize_from_buf_Nil: "parse_usize_from_buf [] \<noteq> Ok k"
  by (simp add: parse_usize_from_buf_def parse_usize_def parse_unsigned_def parse_digits_def outcome_simps)

lemma parse_within_enough:
  "length buf < 4 * d \<Longrightarrow> parse_within d cfg buf = parse cfg buf"
proof (induction d arbitrary: buf)
  case (Suc d)
  have "array_within (parse_within d cfg) cfg buf = parse_array cfg buf"
  proof (cases "read_until_crlf (tl buf)")
    case (Some dl)
    obtain data len where dl: "dl = (data, len)" by force
    show ?thesis
    proof (cases "parse_usize_from_buf data")
      case (Ok k)
      from Ok parse_usize_from_buf_Nil have "data \<noteq> []" by auto
      with Some dl have "3 \<le> len" by (cases data) (auto simp: read_until_crlf_Some)
      moreover from Some dl have "len + 1 \<le> length buf"
        using read_until_crlf_len [of "tl buf" data len] by (cases buf) auto
      ultimately have "parse_within d cfg (drop j (drop (len + 1) buf)) =
          parse cfg (drop j (drop (len + 1) buf))" for j
        using Suc.prems by (intro Suc.IH) simp
      then have "elems_within (parse_within d cfg) k (drop (len + 1) buf) =
          parse_elems cfg k (drop (len + 1) buf)"
        by (rule elems_within_cong)
      with Some dl Ok show ?thesis by (simp add: array_within_def parse_array.simps)
    qed (use Some dl in \<open>simp_all add: array_within_def parse_array.simps\<close>)
  qed (simp add: array_within_def parse_array.simps)
  then show ?case by (simp add: parse.simps [of cfg buf])
qed simp

lemma fold_max_le: "fold max xs (a :: nat) \<le> d \<longleftrightarrow> a \<le> d \<and> (\<forall>x \<in> set xs. x \<le> d)"
  by (induction xs arbitrary: a) auto

lemma elems_within_depth:
  assumes "\<And>buf r n. parse cfg buf = Ok (r, n) \<Longrightarrow> resp_depth r \<le> d \<Longrightarrow> call buf = Ok (r, n)"
    and "parse_elems cfg k rest = Ok (arr, m)" and "\<forall>r \<in> set arr. resp_depth r \<le> d"
  shows "elems_within call k rest = Ok (arr, m)"
  using assms(2,3)
proof (induction k arbitrary: rest arr m)
  case 0
  then show ?case by (simp add: parse_elems.simps)
next
  case (Suc k)
  from Suc.prems(1) obtain r len arr' m' where
    "parse cfg rest = Ok (r, len)" "parse_elems cfg k (drop len rest) = Ok (arr', m')"
    "arr = r # arr'" "m = len + m'"
    by (rule parse_elems_OkE) auto
  with Suc assms(1) show ?case by simp
qed

lemma parse_within_depth:
  "parse cfg buf = Ok (r, n) \<Longrightarrow> resp_depth r \<le> d \<Longrightarrow> parse_within d cfg buf = Ok (r, n)"
proof (induction d arbitrary: buf r n)
  case 0
  then show ?case by (cases r) auto
next
  case (Suc d)
  have "array_within (parse_within d cfg) cfg buf = Ok (r, n)" if "parse_array cfg buf = Ok (r, n)"
    using that
  proof (rule parse_array_OkE)
    fix data len k arr m
    assume a: "read_until_crlf (tl buf) = Some (data, len)" "parse_usize_from_buf data = Ok k"
      "\<not> vec_limit cfg < k" "parse_elems cfg k (drop (len + 1) buf) = Ok (arr, m)"
      "r = Array arr" "n = len + 1 + m"
    from a(5) Suc.prems(2) have "\<forall>r \<in> set arr. resp_depth r \<le> d" by (simp add: fold_max_le)
    with elems_within_depth [OF Suc.IH a(4)] a show ?thesis by (simp add: array_within_def)
  qed
  with Suc.prems(1) show ?case by (simp add: parse.simps [of cfg buf] split: if_splits)
qed

lemma resp_depth_request: "resp_depth (Array (map BulkString ws)) \<le> 2"
  by (simp add: fold_max_le)

section \<open>Nested arrays\<close>

lemma nested_arrays_simps [simp]:
  "nested_arrays 0 = []"
  "nested_arrays (Suc d) = CHR ''*'' # CHR ''1'' # CR # LF # nested_arrays d"
  by (simp_all add: nested_arrays_def)

lemma length_nested_arrays [simp]: "length (nested_arrays d) = 4 * d"
  by (induction d) simp_all

lemma parse_usize_one [simp]: "parse_usize_from_buf ''1'' = Ok 1"
  by code_simp

lemma star_not_inline [simp]: "\<not> is_inline (CHR ''*'' # buf)"
  by (simp add: is_inline_def)

lemma parse_nested_arrays:
  "1 \<le> vec_limit cfg \<Longrightarrow> parse cfg (nested_arrays d) = Err Incomplete"
proof (induction d)
  case (Suc d)
  then show ?case by (simp add: parse.simps [of cfg "_ # _"] parse_array.simps parse_elems.simps)
qed (simp add: parse.simps)

lemma parse_within_nested_arrays:
  "1 \<le> vec_limit cfg \<Longrightarrow> parse_within d cfg (nested_arrays d @ rest) = Panic StackOverflow"
proof (induction d)
  case (Suc d)
  then show ?case by (simp add: array_within_def)
qed simp

section \<open>Properties\<close>

text \<open>
  What an ordinary client sends needs two nested calls of the parser: an array of bulk strings,
  however long, is parsed on such a stack exactly as on an unbounded one.
\<close>

theorem requests_need_two_calls:
  assumes "req = Array (map BulkString ws)" and "wire_safe cfg req"
    and "length (to_string req @ rest) \<le> isize_max"
  shows "parse_within 2 cfg (to_string req @ rest) = Ok (req, length (to_string req))"
proof (rule parse_within_depth)
  from assms(1) have "decoded req = req" by (simp add: comp_def)
  with parse_encoded [OF assms(2,3)]
  show "parse cfg (to_string req @ rest) = Ok (req, length (to_string req))" by simp
  from assms(1) resp_depth_request show "resp_depth req \<le> 2" by simp
qed

theorem requests_need_two_calls_witness:
  "parse_within 2 demo_config (to_string (Array [BulkString ''GET'', BulkString ''k'']) @ ''*'') =
     Ok (Array [BulkString ''GET'', BulkString ''k''], length (to_string (Array [BulkString ''GET'', BulkString ''k''])))"
proof (rule requests_need_two_calls)
  show "Array [BulkString ''GET'', BulkString ''k''] = Array (map BulkString [''GET'', ''k''])" by simp
qed code_simp+

text \<open>
  C21. The stack bounds what the parser can be given: a stack with room for \<open>d\<close> calls is enough for
  every buffer shorter than \<open>4 * d\<close> bytes, whatever it holds, and that is exact, since \<open>4 * d\<close>
  bytes of unclosed arrays, which an unbounded parser reports as incomplete, overflow it.
\<close>

theorem parse_stack_exact:
  assumes "1 \<le> vec_limit cfg"
  shows "(length buf < 4 * d \<longrightarrow> parse_within d cfg buf = parse cfg buf) \<and>
    length (nested_arrays d) = 4 * d \<and> parse cfg (nested_arrays d) = Err Incomplete \<and>
    parse_within d cfg (nested_arrays d) = Panic StackOverflow"
  using parse_within_enough parse_nested_arrays [OF assms] parse_within_nested_arrays [OF assms, of d "[]"]
  by simp

theorem parse_stack_exact_witness:
  "parse_within 3 demo_config (''*1'' @ CRLF @ ''PING'') = parse demo_config (''*1'' @ CRLF @ ''PING'') \<and>
   parse_within 3 demo_config (nested_arrays 3) = Panic StackOverflow"
  using parse_stack_exact [of demo_config "''*1'' @ CRLF @ ''PING''" 3] by simp

end
