(* ===== verification/Write_Faults.thy ===== *)
theory Write_Faults
  imports Connection
begin

text \<open>
  The connection handler of \<open>src/config/client.rs\<close> over a peer that goes away.  The handler ignores
  the errors of writing an error reply and goes on with the next request, so that after a failure it
  may buffer replies behind a torn one.  The locale \<open>fail_stop_connection\<close> adds what TCP promises,
  that a broken connection carries no further byte; in it, the peer never sees more than a prefix of
  the replies it is due.
\<close>

section \<open>A connection that breaks once and for all\<close>

text \<open>
  \<open>sent\<close> is what has left the write buffer for the peer, in the order in which it was accepted, and
  \<open>dead\<close> a connection that takes nothing more.
\<close>

locale fail_stop_connection = connection +
  fixes sent :: "'a \<Rightarrow> bytes" and dead :: "'a \<Rightarrow> bool"
  assumes sent_accepted: "prefix (sent w) (accepted w)"
    and write_dead: "dead w \<Longrightarrow> dead (snd (e_write_all env b w)) \<and> sent (snd (e_write_all env b w)) = sent w"
    and flush_dead: "dead w \<Longrightarrow> dead (snd (e_flush env w)) \<and> sent (snd (e_flush env w)) = sent w"
    and write_fails: "fst (e_write_all env b w) \<noteq> Ok () \<Longrightarrow> dead (snd (e_write_all env b w))"
begin

definition stops :: "'a write_op \<Rightarrow> bool" where
  "stops f \<longleftrightarrow> (\<forall>w. (dead w \<longrightarrow> dead (snd (f w)) \<and> sent (snd (f w)) = sent w) \<and>
                  (fst (f w) \<noteq> Ok () \<longrightarrow> dead (snd (f w))))"

lemma stops_dead: "stops f \<Longrightarrow> dead w \<Longrightarrow> dead (snd (f w)) \<and> sent (snd (f w)) = sent w"
  by (simp add: stops_def)

lemma stops_fails: "stops f \<Longrightarrow> fst (f w) \<noteq> Ok () \<Longrightarrow> dead (snd (f w))"
  by (simp add: stops_def)

lemma stops_write_all: "stops (e_write_all env b)"
  using write_dead write_fails by (simp add: stops_def)

lemma stops_write_seq: "stops f \<Longrightarrow> stops g \<Longrightarrow> stops (write_seq f g)"
  unfolding stops_def
proof (intro allI)
  fix w
  assume f: "\<forall>w. (dead w \<longrightarrow> dead (snd (f w)) \<and> sent (snd (f w)) = sent w) \<and>
      (fst (f w) \<noteq> Ok () \<longrightarrow> dead (snd (f w)))"
    and g: "\<forall>w. (dead w \<longrightarrow> dead (snd (g w)) \<and> sent (snd (g w)) = sent w) \<and>
      (fst (g w) \<noteq> Ok () \<longrightarrow> dead (snd (g w)))"
  obtain r w1 where r: "f w = (r, w1)" by fastforce
  show "(dead w \<longrightarrow> dead (snd (write_seq f g w)) \<and> sent (snd (write_seq f g w)) = sent w) \<and>
      (fst (write_seq f g w) \<noteq> Ok () \<longrightarrow> dead (snd (write_seq f g w)))"
    using f [rule_format, of w] g [rule_format, of w1] r by (cases r) (auto simp: write_seq_def)
qed

lemma stops_cong: "(\<And>w. f w = g w) \<Longrightarrow> stops g \<Longrightarrow> stops f"
  by (simp add: stops_def)

lemma stops_write_chunks: "stops (write_chunks (e_write_all env) bs)"
proof (induction bs rule: induct_list012)
  case (3 b c bs)
  show ?case
    by (rule stops_cong [OF _ stops_write_seq [OF stops_write_all "3.IH"(2)]]) simp
qed (auto simp: stops_def write_dead write_fails)

lemma stops_write_items:
  "(\<And>r. r \<in> set rs \<Longrightarrow> stops (write_to (e_write_all env) i r)) \<Longrightarrow> stops (write_items (e_write_all env) i rs)"
proof (induction rs)
  case (Cons r rs)
  then have "stops (write_to (e_write_all env) i r)" "stops (write_items (e_write_all env) i rs)"
    by auto
  from stops_write_seq [OF this] show ?case by (rule stops_cong [rotated]) simp
qed (simp add: stops_def)

lemma stops_write_to: "stops (write_to (e_write_all env) i r)"
proof (induction r)
  case (Array rs)
  have "stops (write_items (e_write_all env) i rs)" using Array by (rule stops_write_items)
  from stops_write_seq [OF stops_write_chunks this] show ?case
    by (rule stops_cong [rotated]) (simp del: write_chunks.simps)
next
  case (SimpleString s)
  have "stops (if s = ''Ok'' then e_write_all env RESP_OK else if s = ''Pong'' then e_write_all env RESP_PONG
      else if s = ''QUEUED'' then e_write_all env RESP_QUEUED
      else write_chunks (e_write_all env) [''+'', s, RESP_CRLF])"
    by (simp add: stops_write_all stops_write_chunks del: write_chunks.simps)
  then show ?case by (rule stops_cong [rotated]) (simp del: write_chunks.simps)
next
  case (BulkString s)
  have "stops (if s = ''nil'' then e_write_all env RESP_NIL
      else write_chunks (e_write_all env) [''$'', i (int (length s)), RESP_CRLF, s, RESP_CRLF])"
    by (simp add: stops_write_all stops_write_chunks del: write_chunks.simps)
  then show ?case by (rule stops_cong [rotated]) (simp del: write_chunks.simps)
next
  case (SimpleError s)
  show ?case
    by (rule stops_cong [OF _ stops_write_chunks [of "[''-'', s, RESP_CRLF]"]]) (simp del: write_chunks.simps)
next
  case (Integer z)
  show ?case
    by (rule stops_cong [OF _ stops_write_chunks [of "['':'', i z, RESP_CRLF]"]]) (simp del: write_chunks.simps)
next
  case Null
  show ?case by (rule stops_cong [OF _ stops_write_all [of "''_'' @ CRLF"]]) simp
next
  case (Boolean b)
  show ?case
    by (rule stops_cong [OF _ stops_write_all [of "if b then ''#t'' @ CRLF else ''#f'' @ CRLF"]]) simp
qed



text \<open>What a reply does to a writer: it appends the reply, or it breaks the connection.\<close>

lemma reply_writer_cases:
  assumes "write_to (e_write_all env) (e_itoa env) r w = (x, wr)"
  shows "x = Ok () \<and> accepted wr = accepted w @ to_string r \<or>
         x \<noteq> Ok () \<and> \<not> panics x \<and> dead wr \<and> prefix (sent wr) (accepted w @ to_string r)"
proof (cases rule: write_reply_cases [of r w])
  case (failed e wr' p)
  have "dead wr'" using stops_fails [OF stops_write_to, of "e_itoa env" r w] failed(1) by simp
  moreover have "prefix (sent wr') (accepted w @ to_string r)"
    using sent_accepted [of wr'] failed(2,3) by (metis prefix_order.trans same_prefix_prefix)
  ultimately show ?thesis using assms failed(1) by auto
qed (use assms in simp)

lemma reply_dead:
  "dead w \<Longrightarrow> write_to (e_write_all env) i r w = (x, wr) \<Longrightarrow> dead wr \<and> sent wr = sent w"
  using stops_dead [OF stops_write_to, of w i r] by simp

section \<open>A dead connection sends nothing\<close>

definition quiet :: "bytes \<Rightarrow> 'a conn \<Rightarrow> bool" where
  "quiet out c \<longleftrightarrow> dead (cn_writer c) \<and> sent (cn_writer c) = out"

lemma quiet_updates [simp]:
  "quiet out (c\<lparr>cn_buf := b\<rparr>) = quiet out c" "quiet out (c\<lparr>cn_client := cl\<rparr>) = quiet out c"
  "quiet out (c\<lparr>cn_world := w\<rparr>) = quiet out c"
  by (simp_all add: quiet_def)

lemma quiet_flush: "quiet out c \<Longrightarrow> e_flush env (cn_writer c) = (x, wr) \<Longrightarrow> quiet out (c\<lparr>cn_writer := wr\<rparr>)"
  using flush_dead [of "cn_writer c"] by (auto simp: quiet_def)

lemma quiet_flush_ignored: "quiet out c \<Longrightarrow> quiet out (flush_ignored env c)"
  using flush_dead [of "cn_writer c"] by (simp add: quiet_def flush_ignored_def)

lemma quiet_reply_error: "quiet out c \<Longrightarrow> quiet out (reply_error env e c)"
  using stops_dead [OF stops_write_to, of "cn_writer c" "e_itoa env" "SimpleError e"]
  by (simp add: quiet_def reply_error_def del: write_to.simps)

lemma quiet_send_reply:
  assumes "quiet out c" "send_reply env pc res c = (fl, pc', c')"
  shows "quiet out c'"
proof -
  obtain x wr where wr: "write_to (e_write_all env) (e_itoa env) res (cn_writer c) = (x, wr)" by fastforce
  obtain y wr' where wr': "e_flush env wr = (y, wr')" by fastforce
  from assms(1) reply_dead [OF _ wr] have q: "quiet out (c\<lparr>cn_writer := wr\<rparr>)" by (simp add: quiet_def)
  with quiet_flush [of out "c\<lparr>cn_writer := wr\<rparr>" y wr'] wr' have "quiet out (c\<lparr>cn_writer := wr'\<rparr>)" by simp
  with q assms(2) wr wr' show ?thesis
    by (auto simp: send_reply_def split: outcome.splits if_splits)
qed

lemma quiet_one_frame: "quiet out c \<Longrightarrow> one_frame env pc c resp n = (fl, pc', c') \<Longrightarrow> quiet out c'"
  by (auto simp: one_frame_def answer_def split: if_splits prod.splits outcome.splits
      intro: quiet_reply_error dest: quiet_send_reply [rotated])

lemma quiet_drain: "drain env pc mp c = (fl, mp', c') \<Longrightarrow> quiet out c \<Longrightarrow> quiet out c'"
proof (induction "length (cn_buf c)" arbitrary: pc mp c rule: less_induct)
  case less
  show ?case
  proof (cases "cn_buf c = [] \<or> (\<nexists>rn. parse (e_cfg env) (cn_buf c) = Ok rn)")
    case True
    with less.prems show ?thesis
      by (auto simp: drain.simps [of env pc mp c] quiet_flush_ignored quiet_reply_error
          split: outcome.splits ParseError.splits if_splits)
  next
    case False
    then obtain resp n where p: "parse (e_cfg env) (cn_buf c) = Ok (resp, n)" and ne: "cn_buf c \<noteq> []"
      by fastforce
    obtain fl1 pc1 c1 where one: "one_frame env pc c resp n = (fl1, pc1, c1)" by (rule prod_cases3)
    note q = quiet_one_frame [OF less.prems(2) one]
    show ?thesis
    proof (cases "fl1 = Fall_Through")
      case True
      with one have "length (cn_buf c1) < length (cn_buf c)"
        using one_frame_shrinks [OF p, of pc1 c1 pc] by simp
      from less.hyps [OF this _ q] less.prems(1) one p ne True show ?thesis
        by (simp add: drain.simps [of env pc mp c])
    qed (use less.prems one p ne q in \<open>auto simp: drain.simps [of env pc mp c]\<close>)
  qed
qed


section \<open>The peer sees a prefix of its replies\<close>

text \<open>Either the session is on its way to \<open>out\<close>, or it broke when the peer had a prefix of it.\<close>

definition due :: "'a conn \<Rightarrow> bytes \<Rightarrow> bytes \<Rightarrow> bool" where
  "due c rest out \<longleftrightarrow> (\<exists>client w. on_track c rest out client w) \<or> (\<exists>p. quiet p c \<and> prefix p out)"

lemma due_prefix: "due c rest out \<Longrightarrow> prefix (sent (cn_writer c)) out"
  using sent_accepted [of "cn_writer c"]
  by (auto simp: due_def on_track_def quiet_def intro: prefix_order.trans)

lemma due_flush: "due c rest out \<Longrightarrow> e_flush env (cn_writer c) = (x, wr) \<Longrightarrow> due (c\<lparr>cn_writer := wr\<rparr>) rest out"
  using flush_keeps [of "cn_writer c"] on_track_writer [of c rest out _ _ wr] quiet_flush [of _ c x wr]
  by (fastforce simp: due_def)

lemma due_flush_ignored: "due c rest out \<Longrightarrow> due (flush_ignored env c) rest out"
  using due_flush [of c rest out] by (cases "e_flush env (cn_writer c)") (simp add: flush_ignored_def)

lemma due_read: "due c (bs @ rest) out \<Longrightarrow> due (c\<lparr>cn_buf := cn_buf c @ bs\<rparr>) rest out"
  using on_track_read [of c bs rest out] by (auto simp: due_def)

text \<open>A request on an intact session: its reply is appended, or the connection breaks in it.\<close>

lemma send_reply_writer:
  assumes "send_reply env pc res c = (fl, pc', c')"
  shows "\<exists>wr. c' = c\<lparr>cn_writer := wr\<rparr> \<and>
     (accepted wr = accepted (cn_writer c) @ to_string res \<or>
      dead wr \<and> prefix (sent wr) (accepted (cn_writer c) @ to_string res))"
proof -
  obtain x wr where wr: "write_to (e_write_all env) (e_itoa env) res (cn_writer c) = (x, wr)"
    by fastforce
  obtain y wr' where wr': "e_flush env wr = (y, wr')" by fastforce
  with flush_keeps [of wr] have acc: "accepted wr' = accepted wr" by simp
  from reply_writer_cases [OF wr] show ?thesis
  proof
    assume ok: "x = Ok () \<and> accepted wr = accepted (cn_writer c) @ to_string res"
    with assms wr wr' have "c' = c\<lparr>cn_writer := wr\<rparr> \<or> c' = c\<lparr>cn_writer := wr'\<rparr>"
      by (cases y) (auto simp: send_reply_def split: if_splits)
    with ok acc show ?thesis by auto
  next
    assume "x \<noteq> Ok () \<and> \<not> panics x \<and> dead wr \<and> prefix (sent wr) (accepted (cn_writer c) @ to_string res)"
    with assms wr show ?thesis by (cases x) (auto simp: send_reply_def)
  qed
qed

lemma one_frame_writer:
  assumes "run_request (e_cfg env) (e_clk env) (cn_client c) (cn_world c) resp = (r, client', w')"
    and "\<not> panics r" and "n \<le> length (cn_buf c)" and "one_frame env pc c resp n = (fl, pc', c')"
  shows "\<exists>wr. c' = c\<lparr>cn_buf := drop n (cn_buf c), cn_client := client', cn_writer := wr, cn_world := w'\<rparr> \<and>
     (accepted wr = accepted (cn_writer c) @ to_string (reply_of r) \<or>
      dead wr \<and> prefix (sent wr) (accepted (cn_writer c) @ to_string (reply_of r)))"
proof (cases r)
  case (Ok res)
  let ?c = "c\<lparr>cn_buf := drop n (cn_buf c), cn_client := client', cn_world := w'\<rparr>"
  from Ok assms have "send_reply env (pc + 1) res ?c = (fl, pc', c')" by (simp add: one_frame_def answer_def)
  from send_reply_writer [OF this] obtain wr where "c' = ?c\<lparr>cn_writer := wr\<rparr>"
    and "accepted wr = accepted (cn_writer c) @ to_string res \<or>
      dead wr \<and> prefix (sent wr) (accepted (cn_writer c) @ to_string res)"
    by auto
  with Ok show ?thesis by (intro exI [of _ wr]) simp
next
  case (Err e)
  obtain x wr where wr: "write_to (e_write_all env) (e_itoa env) (SimpleError e) (cn_writer c) = (x, wr)"
    by fastforce
  from reply_writer_cases [OF wr] Err assms wr show ?thesis
    by (intro exI [of _ wr]) (auto simp: one_frame_def answer_def reply_error_def simp del: write_to.simps to_string.simps)
qed (use assms in simp)

lemma due_drain:
  "drain env pc mp c = (fl, mp', c') \<Longrightarrow> on_track c rest out client w \<Longrightarrow> due c' rest out"
proof (induction "length (cn_buf c)" arbitrary: pc mp c rule: less_induct)
  case less
  from less.prems(2) show ?case
  proof (cases rule: on_track_cases)
    case wait
    then have "drain env pc mp c = (Fall_Through, mp, c)" by (auto simp: drain.simps [of env pc mp c])
    with less.prems show ?thesis by (auto simp: due_def)
  next
    case (frame r us x client1 w1)
    then have ne: "cn_buf c \<noteq> []" by auto
    obtain fl1 pc1 c1 where one: "one_frame env pc c (decoded r) (length (to_string r)) = (fl1, pc1, c1)"
      by (rule prod_cases3)
    from one_frame_writer [OF frame(3,4) _ one] frame(1) obtain wr where
      c1: "c1 = c\<lparr>cn_buf := us, cn_client := client1, cn_writer := wr, cn_world := w1\<rparr>"
      and wr: "accepted wr = accepted (cn_writer c) @ to_string (reply_of x) \<or>
        dead wr \<and> prefix (sent wr) (accepted (cn_writer c) @ to_string (reply_of x))"
      by auto
    have flow: "if fl1 = Fall_Through then drain env pc1 True c1 = (fl, mp', c') else c' = c1"
      using less.prems(1) frame(2) ne one by (auto simp: drain.simps [of env pc mp c])
    show ?thesis
    proof (cases "accepted wr = accepted (cn_writer c) @ to_string (reply_of x)")
      case True
      from frame(5) [OF this] c1 have t: "on_track c1 rest out client w" by simp
      have "length (cn_buf c1) < length (cn_buf c)" using c1 frame(1) by simp
      from less.hyps [OF this _ t] flow t show ?thesis by (auto simp: due_def split: if_splits)
    next
      case False
      with wr c1 frame(6) have "quiet (sent wr) c1" "prefix (sent wr) out"
        by (auto simp: quiet_def intro: prefix_order.trans)
      with flow quiet_drain show ?thesis by (auto simp: due_def split: if_splits)
    qed
  qed
qed


lemma due_handle_pass:
  assumes "handle_pass env c = (fl, c')" and "due c rest out"
  shows "due c' rest out"
proof -
  obtain fl1 mp c1 where d: "drain env 0 False c = (fl1, mp, c1)" by (rule prod_cases3)
  obtain x wr where wr: "e_flush env (cn_writer c1) = (x, wr)" by fastforce
  have "due c1 rest out"
    using assms(2) due_drain [OF d] quiet_drain [OF d] unfolding due_def by blast
  with due_flush [OF this wr] assms(1) d wr show ?thesis
    by (cases x) (auto simp: handle_pass_def end_pass_def split: if_splits)
qed

lemma due_handle_loop:
  "handle_loop env c evs = (e, c') \<Longrightarrow> due c (delivers evs @ rest) out \<Longrightarrow> \<exists>rest'. due c' rest' out"
proof (induction evs arbitrary: c)
  case Nil
  then show ?case by auto
next
  case (Cons ev evs)
  show ?case
  proof (cases "on_read (cn_buf c) ev")
    case Stop
    with Cons.prems due_flush_ignored show ?thesis by auto
  next
    case Retry
    then have "ev = WouldBlock" by (auto simp: on_read_def split: read_event.splits if_splits)
    with Retry Cons show ?thesis by (simp add: delivers_def)
  next
    case (Parse b)
    then have "\<exists>bs. b = cn_buf c @ bs \<and> delivers (ev # evs) = bs @ delivers evs"
      by (auto simp: on_read_def delivers_def split: read_event.splits if_splits)
    with Cons.prems(2) have due: "due (c\<lparr>cn_buf := b\<rparr>) (delivers evs @ rest) out"
      by (auto intro!: due_read)
    obtain fl c1 where p: "handle_pass env (c\<lparr>cn_buf := b\<rparr>) = (fl, c1)" by fastforce
    from due_handle_pass [OF p due] Cons.IH [of c1] Cons.prems(1) Parse p due_flush_ignored
    show ?thesis by (cases fl) auto
  qed
qed

lemma handle_sends_prefix:
  assumes "list_all (wire_safe (e_cfg env)) reqs" "length (encode reqs) \<le> isize_max"
    "prefix (delivers evs) (encode reqs)"
    "serve (e_cfg env) (e_clk env) Client_new w (map decoded reqs) = (Ok reps, client', w')"
    "handle env writer w evs = (e, c)"
  shows "prefix (sent (cn_writer c)) (accepted writer @ encode reps)"
proof -
  let ?c = "\<lparr>cn_buf = [], cn_client = Client_new, cn_writer = writer, cn_world = w\<rparr>"
  from assms(3) obtain rest where rest: "encode reqs = delivers evs @ rest" by (auto simp: prefix_def)
  have "on_track ?c (delivers evs @ rest) (accepted writer @ encode reps) client' w'"
    unfolding on_track_def using assms rest [symmetric] by (intro exI [of _ reqs] exI [of _ reps]) auto
  then have "due ?c (delivers evs @ rest) (accepted writer @ encode reps)" by (auto simp: due_def)
  from due_handle_loop [OF assms(5) [unfolded handle_def] this] due_prefix show ?thesis by blast
qed

end

section \<open>The buffered writer over a socket\<close>

definition bw_dead :: "nat option \<Rightarrow> bw \<Rightarrow> bool" where
  "bw_dead limit s = (case limit of None \<Rightarrow> False | Some n \<Rightarrow> n \<le> length (bw_sent s))"

lemma bw_dead_buf [simp]: "bw_dead limit (s\<lparr>bw_buf := b\<rparr>) = bw_dead limit s"
  by (cases limit) (simp_all add: bw_dead_def)

lemma bw_flush_dead:
  "bw_dead limit s \<Longrightarrow> bw_dead limit (snd (bw_flush limit s)) \<and> bw_sent (snd (bw_flush limit s)) = bw_sent s"
  by (auto simp: bw_dead_def bw_flush_def bw_room_def Let_def split: option.splits)

lemma bw_flush_fails: "fst (bw_flush limit s) \<noteq> Ok () \<Longrightarrow> bw_dead limit (snd (bw_flush limit s))"
  by (auto simp: bw_dead_def bw_flush_def bw_room_def Let_def split: option.splits if_splits)

lemma bw_put_dead:
  "bw_dead limit s \<Longrightarrow> bw_dead limit (snd (bw_put cap limit bs s)) \<and> bw_sent (snd (bw_put cap limit bs s)) = bw_sent s"
  by (auto simp: bw_dead_def bw_put_def bw_room_def Let_def split: option.splits)

lemma bw_put_fails: "fst (bw_put cap limit bs s) \<noteq> Ok () \<Longrightarrow> bw_dead limit (snd (bw_put cap limit bs s))"
  by (auto simp: bw_dead_def bw_put_def bw_room_def Let_def split: option.splits if_splits)

lemma bw_write_all_dead:
  assumes "bw_dead limit s"
  shows "bw_dead limit (snd (bw_write_all cap limit bs s)) \<and> bw_sent (snd (bw_write_all cap limit bs s)) = bw_sent s"
proof -
  obtain r s' where f: "bw_flush limit s = (r, s')" by fastforce
  with bw_flush_dead [OF assms] have "bw_dead limit s'" "bw_sent s' = bw_sent s" by simp_all
  with bw_put_dead [of limit s' cap bs] f assms show ?thesis
    by (cases r) (auto simp: bw_write_all_def write_seq_def)
qed

lemma bw_write_all_fails:
  assumes "fst (bw_write_all cap limit bs s) \<noteq> Ok ()"
  shows "bw_dead limit (snd (bw_write_all cap limit bs s))"
proof -
  obtain r s' where f: "bw_flush limit s = (r, s')" by fastforce
  with bw_flush_fails [of limit s] bw_put_fails [of cap limit bs s'] assms show ?thesis
    by (cases r) (auto simp: bw_write_all_def write_seq_def split: if_splits)
qed

interpretation breaking: fail_stop_connection "tcp_env cfg clk limit" bw_accepted bw_sent "bw_dead limit"
  for cfg clk limit
  by unfold_locales
    (simp_all add: bw_flush_dead bw_write_all_dead bw_write_all_fails bw_accepted_def)

section \<open>Properties\<close>

text \<open>
  C8. Over a connection that breaks, the peer never sees a wrong byte: however the requests of a
  session are cut into reads, wherever the stream ends or a read fails, and whenever the peer stops
  taking output, what has been sent to it is a prefix of the replies it is due.
\<close>

theorem handle_sends_reply_prefix:
  assumes "fail_stop_connection env accepted sent dead"
    and "list_all (wire_safe (e_cfg env)) reqs" and "length (encode reqs) \<le> isize_max"
    and "prefix (delivers evs) (encode reqs)"
    and "serve (e_cfg env) (e_clk env) Client_new w (map decoded reqs) = (Ok reps, client', w')"
    and "handle env writer w evs = (e, c)"
  shows "prefix (sent (cn_writer c)) (accepted writer @ encode reps)"
  using fail_stop_connection.handle_sends_prefix [OF assms] .

theorem handle_sends_reply_prefix_witness:
  "prefix (bw_sent (cn_writer (snd (handle (tcp_env demo_config (\<lambda>n. n) (Some 9)) bw_new empty_world
      [Data (''*1'' @ CRLF @ ''$4'' @ CRLF @ ''PING'' @ CRLF), WouldBlock, Data (''*1'' @ CRLF @ ''$4'')]))))
    (''+Pong'' @ CRLF @ ''+Pong'' @ CRLF)"
proof -
  let ?env = "tcp_env demo_config (\<lambda>n. n) (Some 9)"
  let ?reqs = "[Array [BulkString ''PING''], Array [BulkString ''PING'']]"
  let ?evs = "[Data (''*1'' @ CRLF @ ''$4'' @ CRLF @ ''PING'' @ CRLF), WouldBlock, Data (''*1'' @ CRLF @ ''$4'')]"
  let ?reps = "[SimpleString ''Pong'', SimpleString ''Pong'']"
  have "\<exists>w'. serve demo_config (\<lambda>n. n) Client_new empty_world (map decoded ?reqs) = (Ok ?reps, Client_new, w')"
    by (simp add: run_request_def extract_command_def parse_command_def dispatch_def Client_new_def
        to_ascii_uppercase_def ascii_upper_def numeral_2_eq_2 empty_world_def tick_def)
  then obtain w' where srv:
    "serve demo_config (\<lambda>n. n) Client_new empty_world (map decoded ?reqs) = (Ok ?reps, Client_new, w')" by blast
  have safe: "list_all (wire_safe (e_cfg ?env)) ?reqs" "length (encode ?reqs) \<le> isize_max"
    unfolding tcp_env_sel by code_simp+
  have "prefix (delivers ?evs) (encode ?reqs)" by code_simp
  note handle_sends_reply_prefix [OF breaking.fail_stop_connection_axioms safe this]
  from this [unfolded tcp_env_sel, OF srv, of bw_new "fst (handle ?env bw_new empty_world ?evs)"
      "snd (handle ?env bw_new empty_world ?evs)"]
  show ?thesis by (simp add: bw_accepted_def bw_new_def)
qed

end
