(* ===== verification/Socket_Buffers.thy ===== *)
theory Socket_Buffers
  imports Connection
begin

text \<open>
  The resources of a connection in \<open>src/config/client.rs\<close>: the socket options that
  \<open>Client::handle\<close> sets before the first read, and the room that it keeps in its read buffer.
  Neither is visible in the protocol, which \<open>Connection\<close> models on the contents of the buffer.

  \<open>socket2\<close> and \<open>bytes::BytesMut\<close> are parameters: the option setters as functions that may fail, and
  the buffer with the documented contract of \<open>reserve\<close> and \<open>clear\<close> in the locale \<open>bytes_mut\<close>.
\<close>

section \<open>Constants\<close>

definition READ_BUF_BYTES :: nat where "READ_BUF_BYTES = 16 * 1024"
definition SO_SNDBUF_BYTES :: nat where "SO_SNDBUF_BYTES = 256 * 1024"
definition TCP_KEEPALIVE_IDLE_SECS :: nat where "TCP_KEEPALIVE_IDLE_SECS = 60"

section \<open>Socket options\<close>

record 's socket_api =
  api_nodelay :: "bool \<Rightarrow> 's write_op"
  api_keepalive :: "nat \<Rightarrow> 's write_op"
  api_send_buffer :: "nat \<Rightarrow> 's write_op"

text \<open>A setter that fails leaves a warning in the log and nothing else.\<close>

definition or_warn :: "bytes \<Rightarrow> 's write_op \<Rightarrow> 's \<Rightarrow> bytes list \<times> 's" where
  "or_warn what f s =
     (case f s of
        (Err e, s') \<Rightarrow> ([what @ '' failed: '' @ e], s')
      | (_, s') \<Rightarrow> ([], s'))"

definition set_socket_options :: "'s socket_api \<Rightarrow> 's \<Rightarrow> bytes list \<times> 's" where
  "set_socket_options api socket =
     (let (w1, s1) = or_warn ''TCP_NODELAY'' (api_nodelay api True) socket;
          (w2, s2) = or_warn ''TCP_KEEPALIVE'' (api_keepalive api TCP_KEEPALIVE_IDLE_SECS) s1;
          (w3, s3) = or_warn ''SO_SNDBUF'' (api_send_buffer api SO_SNDBUF_BYTES) s2
      in (w1 @ w2 @ w3, s3))"

text \<open>A socket that records the requests it gets, and fails those in \<open>bad\<close>.\<close>

datatype sockopt = NoDelay bool | KeepAlive nat | SndBuf nat

definition logged :: "sockopt set \<Rightarrow> sockopt \<Rightarrow> sockopt list write_op" where
  "logged bad opt reqs = (if opt \<in> bad then Err ''Invalid argument'' else Ok (), reqs @ [opt])"

definition logged_api :: "sockopt set \<Rightarrow> sockopt list socket_api" where
  "logged_api bad =
     \<lparr>api_nodelay = (\<lambda>b. logged bad (NoDelay b)), api_keepalive = (\<lambda>n. logged bad (KeepAlive n)),
      api_send_buffer = (\<lambda>n. logged bad (SndBuf n))\<rparr>"

section \<open>Room in the read buffer\<close>

record 'b buffer_api =
  api_contents :: "'b \<Rightarrow> bytes"
  api_capacity :: "'b \<Rightarrow> nat"
  api_reserve :: "nat \<Rightarrow> 'b \<Rightarrow> 'b"
  api_clear :: "'b \<Rightarrow> 'b"

definition room :: "'b buffer_api \<Rightarrow> 'b \<Rightarrow> nat" where
  "room api b = api_capacity api b - length (api_contents api b)"

text \<open>After every read, before the parser.\<close>

definition make_room :: "'b buffer_api \<Rightarrow> 'b \<Rightarrow> 'b" where
  "make_room api b =
     (if room api b < READ_BUF_BYTES div 2 then api_reserve api READ_BUF_BYTES b else b)"

text \<open>After a malformed frame.\<close>

definition reset_buffer :: "'b buffer_api \<Rightarrow> 'b \<Rightarrow> 'b" where
  "reset_buffer api b =
     (let b' = api_clear api b in
      if api_capacity api b' < READ_BUF_BYTES
      then api_reserve api (READ_BUF_BYTES - api_capacity api b') b' else b')"

locale bytes_mut =
  fixes api :: "'b buffer_api"
  assumes reserve_contents: "api_contents api (api_reserve api n b) = api_contents api b"
    and reserve_capacity: "length (api_contents api b) + n \<le> api_capacity api (api_reserve api n b)"
    and reserve_grows: "api_capacity api b \<le> api_capacity api (api_reserve api n b)"
    and clear_contents: "api_contents api (api_clear api b) = []"
    and clear_capacity: "api_capacity api (api_clear api b) = api_capacity api b"
begin

lemma make_room_ok:
  "api_contents api (make_room api b) = api_contents api b \<and> READ_BUF_BYTES div 2 \<le> room api (make_room api b)"
  using reserve_capacity [of b READ_BUF_BYTES]
  by (auto simp: make_room_def room_def reserve_contents READ_BUF_BYTES_def)

lemma reset_buffer_ok:
  "api_contents api (reset_buffer api b) = [] \<and> READ_BUF_BYTES div 2 \<le> api_capacity api (reset_buffer api b)"
  using reserve_capacity [of "api_clear api b" "READ_BUF_BYTES - api_capacity api b"]
    reserve_grows [of "api_clear api b" "READ_BUF_BYTES - api_capacity api b"]
  by (auto simp: reset_buffer_def Let_def reserve_contents clear_contents clear_capacity READ_BUF_BYTES_def)

end

text \<open>A buffer that allocates what it is asked for and no more.\<close>

record tight_buf =
  tb_bytes :: bytes
  tb_cap :: nat

definition tight_api :: "tight_buf buffer_api" where
  "tight_api =
     \<lparr>api_contents = tb_bytes, api_capacity = (\<lambda>b. max (tb_cap b) (length (tb_bytes b))),
      api_reserve = (\<lambda>n b. b\<lparr>tb_cap := max (tb_cap b) (length (tb_bytes b) + n)\<rparr>),
      api_clear = (\<lambda>b. \<lparr>tb_bytes = [], tb_cap = max (tb_cap b) (length (tb_bytes b))\<rparr>)\<rparr>"

interpretation tight: bytes_mut tight_api
  by unfold_locales (simp_all add: tight_api_def)

section \<open>Properties\<close>

text \<open>
  The three options are requested once each and in order, whichever of them fail; the handler goes
  on, with one warning for each that did.
\<close>

theorem socket_options_best_effort:
  "snd (set_socket_options (logged_api bad) []) = [NoDelay True, KeepAlive 60, SndBuf 262144] \<and>
   length (fst (set_socket_options (logged_api bad) [])) =
     length (filter (\<lambda>opt. opt \<in> bad) [NoDelay True, KeepAlive 60, SndBuf 262144])"
  by (simp add: set_socket_options_def or_warn_def logged_api_def logged_def
      TCP_KEEPALIVE_IDLE_SECS_def SO_SNDBUF_BYTES_def)

text \<open>
  The parser never starts with a read buffer that is nearly full: after the check that follows
  every read at least half of \<open>READ_BUF_BYTES\<close> is free and the bytes received are unchanged.  The
  reset after a malformed frame empties the buffer and guarantees the same half.
\<close>

theorem read_buffer_has_room:
  assumes "bytes_mut api"
  shows "api_contents api (make_room api b) = api_contents api b \<and>
    READ_BUF_BYTES div 2 \<le> room api (make_room api b) \<and>
    api_contents api (reset_buffer api b) = [] \<and> READ_BUF_BYTES div 2 \<le> room api (reset_buffer api b)"
  using bytes_mut.make_room_ok [OF assms, of b] bytes_mut.reset_buffer_ok [OF assms, of b]
  by (auto simp: room_def)

theorem read_buffer_has_room_witness:
  "READ_BUF_BYTES div 2 \<le> room tight_api (make_room tight_api \<lparr>tb_bytes = ''PING'', tb_cap = 4\<rparr>)"
  using read_buffer_has_room [OF tight.bytes_mut_axioms, of "\<lparr>tb_bytes = ''PING'', tb_cap = 4\<rparr>"] by blast

text \<open>
  The reset asks for \<open>READ_BUF_BYTES\<close> less the capacity, but \<open>reserve\<close> counts from the length of
  the buffer, which is 0 there: a buffer that has shrunk below \<open>READ_BUF_BYTES\<close> is not brought back
  to it, and one that has shrunk by less than half is left as it is.
\<close>

theorem reset_does_not_restore_capacity:
  "api_capacity tight_api (reset_buffer tight_api \<lparr>tb_bytes = ''x'', tb_cap = 8192\<rparr>) = 8192 \<and>
   api_capacity tight_api (reset_buffer tight_api \<lparr>tb_bytes = ''x'', tb_cap = 100\<rparr>) = 16284 \<and>
   READ_BUF_BYTES = 16384"
  by (simp add: reset_buffer_def tight_api_def READ_BUF_BYTES_def)

end
