(* ===== verification/Spec2Isabelle.thy ===== *)
theory Spec2Isabelle
  imports Server Network Parser_Stack Write_Faults Socket_Buffers
begin

text \<open>
  A verification of Ember, a key-value store that speaks the Redis protocol.

  \<^bold>\<open>The program.\<close>  \<open>main\<close> (\<open>src/main.rs\<close>) reads the command line and starts a \<open>Server\<close>
  (\<open>src/server.rs\<close>), which loads the last snapshot, looks for a free port and accepts connections on
  one listener per processor.  Each connection runs \<open>Client::handle\<close> (\<open>src/config/client.rs\<close>): it
  reads bytes, cuts them into RESP frames (\<open>src/resp/parser.rs\<close>), turns a frame into a command
  (\<open>src/command/command.rs\<close>), executes it or queues it in a transaction (\<open>src/command/dispatcher.rs\<close>)
  and writes the reply (\<open>src/resp/types.rs\<close>).  All connections share one \<open>DB\<close>
  (\<open>src/database/core.rs\<close>): a map of values and a map of deadlines, with a background reaper.  \<open>SAVE\<close>
  hands a copy of both maps to the snapshot writer (\<open>src/rdb/writer.rs\<close>), and \<open>src/rdb/reader.rs\<close>
  reads it back at the next start.

  \<^bold>\<open>The theories.\<close>
  \<^item> \<open>Prelude\<close>: bytes, results with panics (\<open>outcome\<close>, \<open>and_then\<close> is \<open>?\<close>), Rust's integer casts and
    overflow, instants, iteration orders of hash maps.  The build profile (overflow checks) and the
    allocation limit are the record \<open>config\<close>.
  \<^item> \<open>Rust_Str\<close>: the string functions of the standard library that the program calls: UTF-8
    validation, lossy decoding, trimming, splitting, case, parsing and printing of integers.
  \<^item> \<open>Resp_Types\<close>: \<open>RespType\<close>, the reference encoding \<open>to_string\<close> and the fast \<open>write_to\<close>, for any
    writer that meets the locale \<open>async_write\<close>.
  \<^item> \<open>Resp_Parser\<close>: every function of the parser.  Lemmas: bounds of what is consumed, stability under
    more input, round trip with the encoding, shape of the result, and when it can panic.
  \<^item> \<open>Parser_Stack\<close>: the same parser on a call stack of bounded depth.  Lemmas: it agrees with \<open>parse\<close>
    whenever it returns, the depth a buffer can need, and the shortest input that exhausts a stack.
  \<^item> \<open>Database\<close>: the operations of \<open>DB\<close> and the reaper.  The locale \<open>ttl_store\<close> is the contract of a
    store with deadlines; the database is an interpretation of it.  Lemmas: the invariant \<open>db_inv\<close> in
    all reachable states, read-your-writes, frame, expiry lazy and active, list ranges, pushes in
    batches and one by one, the options of \<open>EXPIRE\<close>.
  \<^item> \<open>Rdb_Writer\<close>, \<open>Rdb_Reader\<close>, \<open>Persistence\<close>: the snapshot format, its reader, and both on a file
    system whose operations may fail.  Lemmas: save and restore, atomic replacement.
  \<^item> \<open>Command\<close>: \<open>extract_command\<close> with its argument checks.  Lemmas: exactly when it panics, deadlines,
    case, well-formed results.
  \<^item> \<open>Dispatcher\<close>: \<open>execute_command\<close> and \<open>dispatch\<close>.  Lemmas: refinement of the transaction machine
    \<open>tx_step\<close>, isolation, failing transactions, invariants.
  \<^item> \<open>Connection\<close>: \<open>Client::handle\<close> over the results of the socket calls, for any writer that meets the
    locales \<open>buf_writer\<close>, \<open>connection\<close> and \<open>reliable_connection\<close>, which are interpreted on a buffered
    writer over a socket.  Lemmas: pipelining is transparent, the database stays consistent,
    malformed frames, polling.
  \<^item> \<open>Write_Faults\<close>: the handler over a connection that breaks (locale \<open>fail_stop_connection\<close>,
    interpreted on the same writer).  Lemmas: a dead connection sends nothing, and the peer sees a
    prefix of its replies.
  \<^item> \<open>Socket_Buffers\<close>: the socket options and the capacity of the read buffer (locale \<open>bytes_mut\<close>).
  \<^item> \<open>Server\<close>: port search, listeners, accept loop, command line.
  \<^item> \<open>Concurrency\<close>: the database operations as programs of atomic map accesses under arbitrary
    schedules.  The locale \<open>key_invariant\<close> collects what an invariant must satisfy to hold under
    every schedule; it is interpreted for well-typedness and for untouched keys.  Pushes to an existing
    list are atomic; the other lemmas are races.
  \<^item> \<open>Sessions\<close>: transactions, the copy made by \<open>SAVE\<close>, the requests of a connection and the reaper as
    such programs, with \<open>DashMap\<close> iteration shard by shard.  \<open>keeps\<close> and \<open>confined\<close> are the two ways to
    reason about them: an invariant under every schedule, and programs that touch given keys only.
    Lemmas: run alone they are \<open>serve\<close> and \<open>active_expiration_cycle\<close>; sessions on separate keys do not
    notice each other; races of \<open>EXEC\<close> and \<open>SAVE\<close>.
  \<^item> \<open>Network\<close>: \<open>Client::handle\<close> as a program, from the bytes that arrive to the bytes that leave, next
    to other connections and the reaper.  Lemmas: run alone it is \<open>handle\<close>; connections on separate
    keys are served as if alone; no input breaks the types of the shared data.

  \<^bold>\<open>Parameters.\<close>  Code outside the repository is an argument of the definitions: the clocks (one reading
  per use), the random numbers and the iteration order of the reaper, the iteration orders of the
  snapshot, the decimal formatter, the asynchronous writer, the read buffer, the shards of the
  maps, file-system failures, and the system calls on sockets.  What is assumed of them are the named predicates \<open>enumerates\<close>, \<open>in_range\<close>,
  \<open>itoa_spec\<close>, \<open>buffered\<close>, \<open>clocks_ok\<close>, \<open>sharded\<close>, \<open>shard_order\<close> and the locales above; each has a concrete instance.

  \<^bold>\<open>Bounds.\<close>  Loops are total functions: the parser and the pipeline loop recurse on a shrinking buffer,
  the reaper on the number of deadlines, the snapshot reader on the rest of the file.  Five models
  need a bound or may not return.  \<open>execute_command\<close> takes the depth of the call stack; two levels are
  enough for every connection and more change nothing (\<open>dispatch_bounded_stack\<close>).  \<open>parse_within\<close> takes
  it for the parser; two levels are enough for ordinary requests, \<open>d\<close> levels for fewer than \<open>4 * d\<close>
  bytes.  \<open>handle\<close> runs on the list of read results and stops, waiting, where the list ends.
  \<open>cycle_prog\<close> follows the reaper for a given number of runs: alone, one more than there are deadlines
  is enough (\<open>run_cycle\<close>); among threads that keep adding deadlines there is no bound, and what is
  proved holds for every number of runs.  The port search is a \<open>partial_function\<close>, and it is proved
  when it ends and when not.

  \<^bold>\<open>Not modelled.\<close>  Log output; the scheduler of the runtime, in place of which every schedule is
  allowed; time, which is only seen through the clock readings.  An access to one shard of a map is
  atomic, as \<open>DashMap\<close> documents.  \<open>parse\<close> in \<open>Connection\<close> and \<open>Network\<close> has an unbounded stack.
  What is left of the sources are imports, module declarations and derived instances.

  \<^bold>\<open>Next.\<close>  Restoring a snapshot that was taken while others wrote; commands on shared keys up to the
  order of their accesses; the tasks spawned by the accept loops as the threads of \<open>Network\<close>; the
  handler on a bounded stack.

  This theory itself connects the components over a restart: what a \<open>SAVE\<close> has written, the next
  server serves.
\<close>

section \<open>From one run to the next\<close>

lemma dispatch_save:
  "\<not> in_transaction client \<Longrightarrow> dispatch cfg clk (Suc d) client w SAVE =
     (Ok (SimpleString ''Ok''), client,
      (tick w)\<lparr>w_tasks := w_tasks w @ [\<lparr>snap_data = data (w_db w), snap_expirations = expirations (w_db w)\<rparr>]\<rparr>)"
  by (simp add: dispatch_def execute_save_def DB_save_rdb_def tick_def)

lemma Server_new_db:
  assumes "Server_new cfg clk fs os port = Some (Ok server)"
  shows "DB_new cfg clk fs = (Ok (s_db server) :: (net_error, DB) outcome)"
  using assms
  by (auto simp: Server_new_def outcome_simps split: outcome.splits)

lemma get_reply_live:
  assumes "\<not> in_transaction client" "live (clk (w_ticks w)) (w_db w) k = Some (RO_String v)"
  shows "fst (dispatch cfg clk (Suc d) client w (GET k)) = Ok (BulkString v)"
proof -
  obtain r db' where g: "DB_get (clk (w_ticks w)) (w_db w) k = (r, db')" by fastforce
  with get_result [of "clk (w_ticks w)" "w_db w" k] assms(2) have "r = Ok (RO_String v)"
    by (simp add: or_nil_def)
  with g assms(1) show ?thesis by (simp add: dispatch_def)
qed

text \<open>
  C5. Durability: after a \<open>SAVE\<close> whose snapshot task completes, a server started on the resulting
  files answers a \<open>GET\<close> of a string with the value it had at the \<open>SAVE\<close>, up to a millisecond before
  its deadline on the system clock, or forever if it has none.
\<close>

theorem saved_string_served_after_restart:
  assumes "\<not> in_transaction client"
    and "dispatch cfg clk (Suc d) client w SAVE = (r, client', w')"
    and "snap = last (w_tasks w')"
    and "save_rdb env ord_d ord_e wclk RDB_FILE (snap_data snap) (snap_expirations snap) fs = (Ok (), fs')"
    and "buffered env" "enumerates ord_d" "enumerates ord_e"
    and "storable_db cfg (data (w_db w))" "deadlines_ok dw (expirations (w_db w))"
    and "clocks_ok dw dr horizon wclk rclk"
    and "Server_new cfg rclk fs' os port = Some (Ok server)"
    and "fmlookup (data (w_db w)) k = Some (RO_String v)"
    and "\<forall>e. fmlookup (expirations (w_db w)) k = Some e \<longrightarrow> int (clk' n) + dr + 10 ^ 6 \<le> int e + dw"
  shows "fst (dispatch cfg clk' (Suc d) Client_new \<lparr>w_db = s_db server, w_tasks = [], w_ticks = n\<rparr> (GET k)) =
     Ok (BulkString v)"
proof (rule get_reply_live)
  have snap: "snap = \<lparr>snap_data = data (w_db w), snap_expirations = expirations (w_db w)\<rparr>"
    using assms(1-3) dispatch_save [of client cfg clk d w] by auto
  from assms(4) have
    "save_rdb env ord_d ord_e wclk RDB_FILE (data (w_db w)) (expirations (w_db w)) fs = (Ok (), fs')"
    by (simp add: snap)
  from save_restored [OF this assms(5-10)] obtain exps' where
    db: "DB_new cfg rclk fs' = (Ok \<lparr>data = fmfilter (\<lambda>k. fmlookup (data (w_db w)) k \<noteq> Some (RO_List []))
        (data (w_db w)), expirations = exps'\<rparr> :: (net_error, DB) outcome)"
    and dom: "fmdom exps' = fmdom (expirations (w_db w))"
    and exps: "\<forall>k e. fmlookup (expirations (w_db w)) k = Some e \<longrightarrow>
        (\<exists>e'. fmlookup exps' k = Some e' \<and> reloaded dw dr horizon e e')"
    by blast
  have "\<not> e' < clk' n" if "fmlookup exps' k = Some e'" for e'
  proof -
    from that dom obtain e where e: "fmlookup (expirations (w_db w)) k = Some e"
      by (metis fmdomE fmdomI)
    with exps that have "reloaded dw dr horizon e e'" by fastforce
    then have "int e + dw - 10 ^ 6 < int e' + dr" by (simp add: reloaded_def)
    with e assms(13) show ?thesis by fastforce
  qed
  with db Server_new_db [OF assms(11)] assms(12)
  show "live (clk' (w_ticks \<lparr>w_db = s_db server, w_tasks = [], w_ticks = n\<rparr>))
      (w_db \<lparr>w_db = s_db server, w_tasks = [], w_ticks = n\<rparr>) k = Some (RO_String v)"
    by (auto simp: live_def is_expired_def split: option.splits)
qed (simp add: Client_new_def)

abbreviation open_ports :: os where
  "open_ports \<equiv> \<lambda>n call port. None"

theorem saved_string_served_after_restart_witness:
  "\<exists>server. Server_new demo_config (\<lambda>i. (3, 3))
       (snd (save_rdb quiet_env key_order key_order (\<lambda>i. (1, 1)) RDB_FILE (data demo_db) (expirations demo_db)
          Map.empty)) open_ports 6379 = Some (Ok server) \<and>
     fst (dispatch demo_config (\<lambda>n. 4) (Suc 0) Client_new
       \<lparr>w_db = s_db server, w_tasks = [], w_ticks = 0\<rparr> (GET ''k'')) = Ok (BulkString ''v'')"
proof -
  let ?w = "\<lparr>w_db = demo_db, w_tasks = [], w_ticks = 0\<rparr>"
  let ?snap = "\<lparr>snap_data = data demo_db, snap_expirations = expirations demo_db\<rparr>"
  let ?save = "save_rdb quiet_env key_order key_order (\<lambda>i. (1, 1)) RDB_FILE (data demo_db)
    (expirations demo_db) Map.empty"
  have idle: "\<not> in_transaction Client_new" by (simp add: Client_new_def)
  have disp: "dispatch demo_config (\<lambda>n. 0) (Suc 0) Client_new ?w SAVE =
      (Ok (SimpleString ''Ok''), Client_new, (tick ?w)\<lparr>w_tasks := [?snap]\<rparr>)"
    using dispatch_save [OF idle, of demo_config "\<lambda>n. 0" 0 ?w] by simp
  have "fst ?save = Ok ()" by code_simp
  then have ok: "?save = (Ok (), snd ?save)" by (simp add: prod_eq_iff)
  then have save: "save_rdb quiet_env key_order key_order (\<lambda>i. (1, 1)) RDB_FILE (snap_data ?snap)
      (snap_expirations ?snap) Map.empty = (Ok (), snd ?save)"
    by simp
  have h: "buffered quiet_env" "storable_db demo_config (data demo_db)"
    "deadlines_ok 0 (expirations demo_db)" "clocks_ok 0 0 3 (\<lambda>i. (1, 1)) (\<lambda>i. (3, 3))"
    by (auto simp: buffered_def quiet_env_def storable_db_def demo_db_def deadlines_ok_def
        clocks_ok_def clock_ok_def representable_def storable_def reserved_def to_ascii_uppercase_def
        ascii_utf8_valid is_ascii_def split: if_splits)
  from save_restored [OF ok h(1) key_order_enumerates key_order_enumerates h(2-4)]
  obtain db where "DB_new demo_config (\<lambda>i. (3, 3)) (snd ?save) = (Ok db :: (net_error, DB) outcome)"
    by blast
  moreover have "bind_loop demo_config open_ports 0 6379 = Some (Ok 6379)"
    by (subst bind_loop.simps) (simp add: build_listener_def sys_def)
  ultimately have new: "Server_new demo_config (\<lambda>i. (3, 3)) (snd ?save) open_ports 6379 =
      Some (Ok \<lparr>s_addr = 6379, s_db = db\<rparr>)"
    by (simp add: Server_new_def)
  have "fst (dispatch demo_config (\<lambda>n. 4) (Suc 0) Client_new
       \<lparr>w_db = s_db \<lparr>s_addr = 6379, s_db = db\<rparr>, w_tasks = [], w_ticks = 0\<rparr> (GET ''k'')) = Ok (BulkString ''v'')"
    by (rule saved_string_served_after_restart [OF idle disp _ save h(1) key_order_enumerates
          key_order_enumerates _ _ h(4) new]) (use h in \<open>simp_all add: demo_db_def\<close>)
  with new show ?thesis by blast
qed

end
